(* ===== verification/Ambar_Prelude.thy ===== *)
theory Ambar_Prelude
  imports Main "HOL-Library.Word" "HOL-Library.List_Lexorder" "HOL-Library.Sublist"
begin

text \<open>
  The vocabulary shared by every component: bytes and machine integers, the
  statuses of include/ambar/status.hpp, the collections of rewrite rules the
  component theories fill, and generic facts on lists and words.

  A \<^typ>\<open>8 word list\<close> is a C++ string or string view, \<^typ>\<open>32 word\<close> and
  \<^typ>\<open>64 word\<close> are uint32_t and uint64_t, and a size_t that counts bytes held
  in memory is a \<^typ>\<open>nat\<close>; every narrowing cast the source writes is a
  \<^term>\<open>word_of_nat\<close> or \<^term>\<open>ucast\<close> in the model.
\<close>

unbundle bit_operations_syntax

type_synonym byte = "8 word"
type_synonym bytes = "8 word list"
type_synonym u32 = "32 word"
type_synonym u64 = "64 word"

named_theorems codec_simps \<open>encode/decode round trips and lengths\<close>
named_theorems order_simps \<open>facts on key orders\<close>

section \<open>Statuses\<close>

datatype status_code =
    kOk | kNotFound | kCorruption | kIoError | kInvalidArgument | kNotSupported

datatype status = Status (code: status_code) (message: string)

abbreviation status_ok :: status where
  "status_ok \<equiv> Status kOk []"

abbreviation corruption :: "string \<Rightarrow> status" where
  "corruption \<equiv> Status kCorruption"

abbreviation io_error :: "string \<Rightarrow> status" where
  "io_error \<equiv> Status kIoError"

definition is_ok :: "status \<Rightarrow> bool" where
  "is_ok s \<longleftrightarrow> code s = kOk"

definition status_to_string :: "status \<Rightarrow> string" where
  "status_to_string s =
     (let named = (\<lambda>name. if message s = [] then name else name @ '': '' @ message s)
      in case code s of
           kOk \<Rightarrow> ''ok''
         | kNotFound \<Rightarrow> named ''not found''
         | kCorruption \<Rightarrow> named ''corruption''
         | kIoError \<Rightarrow> named ''io error''
         | kInvalidArgument \<Rightarrow> named ''invalid argument''
         | kNotSupported \<Rightarrow> named ''not supported'')"

lemma is_ok_status_ok [simp]: "is_ok status_ok"
  by (simp add: is_ok_def)

lemma is_ok_Status [simp]: "is_ok (Status c m) \<longleftrightarrow> c = kOk"
  by (simp add: is_ok_def)

text \<open>std::to_string of an unsigned integer, and a path in single quotes.\<close>

fun to_string :: "nat \<Rightarrow> string" where
  "to_string n = (if n < 10 then [char_of (48 + n)]
                  else to_string (n div 10) @ [char_of (48 + n mod 10)])"

declare to_string.simps [simp del]

definition quoted :: "string \<Rightarrow> string" where
  "quoted s = [CHR 0x27] @ s @ [CHR 0x27]"

section \<open>Lists\<close>

lemma take_append_exact [simp]: "length xs = n \<Longrightarrow> take n (xs @ ys) = xs"
  by simp

lemma drop_append_exact [simp]: "length xs = n \<Longrightarrow> drop n (xs @ ys) = ys"
  by simp

lemma nth_append_at [simp]: "length xs = n \<Longrightarrow> (xs @ y # ys) ! n = y"
  by auto

lemma nth_update_if: "xs[i := x] ! j = (if i = j \<and> j < length xs then x else xs ! j)"
  by (metis list_update_beyond not_le nth_list_update_eq nth_list_update_neq)

section \<open>Words\<close>

lemma bit_ucast_byte: "bit (ucast (w :: 'a::len word) :: byte) n \<longleftrightarrow> n < 8 \<and> bit w n"
  using bit_imp_le_length [of w n] by (auto simp: bit_ucast_iff)

lemma bit_byte_lt: "bit (b :: byte) n \<Longrightarrow> n < 8"
  using bit_imp_le_length [of b n] by simp

lemma bit_u32_lt: "bit (w :: u32) n \<Longrightarrow> n < 32"
  using bit_imp_le_length [of w n] by simp

lemma bit_u64_lt: "bit (w :: u64) n \<Longrightarrow> n < 64"
  using bit_imp_le_length [of w n] by simp

lemma unat_drop_bit_lt: "unat w \<noteq> 0 \<Longrightarrow> 0 < n \<Longrightarrow> unat (drop_bit n w :: 'a::len word) < unat w"
  using one_less_power [of "2::nat" n] div_less_dividend [of "2 ^ n" "unat w"]
  by (simp add: unat_drop_bit_eq drop_bit_eq_div [where 'a=nat])

lemma unat_word_of_nat_small [simp]:
  "n < 2 ^ LENGTH('a) \<Longrightarrow> unat (word_of_nat n :: 'a::len word) = n"
  by (simp add: unsigned_of_nat take_bit_nat_eq_self)

lemma unat_take_bit_less: "unat (take_bit n (w :: 'a::len word)) < 2 ^ n"
  by (simp add: unsigned_take_bit_eq)

lemma xor_right_cancel [simp]: "(a XOR c = b XOR c) \<longleftrightarrow> (a = (b :: 'a::len word))"
  by (metis xor.assoc xor.right_neutral xor_self_eq)

lemma unat_ucast_byte [simp]:
  "unat (ucast (b :: byte) :: u32) = unat b" "unat (ucast (b :: byte) :: u64) = unat b"
  using unsigned_less [of b, where 'a = nat] by (simp_all add: unsigned_ucast_eq take_bit_nat_eq_self)

lemma take_bit_eq_self: "unat w < 2 ^ n \<Longrightarrow> take_bit n (w :: 'a::len word) = w"
  by (rule word_unat_eq_iff [THEN iffD2])
    (simp add: unsigned_take_bit_eq take_bit_nat_eq_self)

lemma mask_split_bits:
  "take_bit (s + n) (w :: 'a::len word) =
     take_bit s w OR push_bit s (take_bit n (drop_bit s w))"
  by (rule bit_word_eqI) (auto simp: bit_simps not_less)

end
