(* ===== verification/Encoding.thy ===== *)
theory Encoding
  imports Ambar_Prelude
begin

text \<open>
  src/encoding.hpp and src/encoding.cpp: fixed-width and variable-length
  integers, length-prefixed strings, and CRC32C.  A decoder takes the unread
  input and returns the value with what is left of the input, or None where the
  source returns false or a null pointer.
\<close>

section \<open>Fixed-width integers\<close>

definition encode_fixed32 :: "u32 \<Rightarrow> bytes" where
  "encode_fixed32 value =
     [ucast (value AND 0xff),
      ucast (drop_bit 8 value AND 0xff),
      ucast (drop_bit 16 value AND 0xff),
      ucast (drop_bit 24 value AND 0xff)]"

definition encode_fixed64 :: "u64 \<Rightarrow> bytes" where
  "encode_fixed64 value = map (\<lambda>i. ucast (drop_bit (8 * i) value AND 0xff)) [0..<8]"

definition put_fixed32 :: "bytes \<Rightarrow> u32 \<Rightarrow> bytes" where
  "put_fixed32 dst value = dst @ encode_fixed32 value"

definition put_fixed64 :: "bytes \<Rightarrow> u64 \<Rightarrow> bytes" where
  "put_fixed64 dst value = dst @ encode_fixed64 value"

definition decode_fixed32 :: "bytes \<Rightarrow> u32" where
  "decode_fixed32 p =
     ucast (p ! 0) OR push_bit 8 (ucast (p ! 1)) OR
     push_bit 16 (ucast (p ! 2)) OR push_bit 24 (ucast (p ! 3))"

definition decode_fixed64 :: "bytes \<Rightarrow> u64" where
  "decode_fixed64 p = foldl (\<lambda>value i. value OR push_bit (8 * i) (ucast (p ! i))) 0 [0..<8]"

section \<open>Varints\<close>

text \<open>The loop of put_varint32, put_varint64 and encode_varint32, at either width.\<close>

function put_varint :: "'a::len word \<Rightarrow> bytes" where
  "put_varint value =
     (if 0x80 \<le> unat value
      then ucast (value AND 0x7f OR 0x80) # put_varint (drop_bit 7 value)
      else [ucast value])"
  by auto
termination
  by (relation "measure unat") (auto intro!: unat_drop_bit_lt)

declare put_varint.simps [simp del]

definition put_varint32 :: "bytes \<Rightarrow> u32 \<Rightarrow> bytes" where
  "put_varint32 dst value = dst @ put_varint value"

definition put_varint64 :: "bytes \<Rightarrow> u64 \<Rightarrow> bytes" where
  "put_varint64 dst value = dst @ put_varint value"

primrec get_varint_loop ::
    "nat \<Rightarrow> nat \<Rightarrow> 'a::len word \<Rightarrow> bytes \<Rightarrow> ('a word \<times> bytes) option" where
  "get_varint_loop 0 shift result input = None"
| "get_varint_loop (Suc n) shift result input =
     (case input of
        [] \<Rightarrow> None
      | b # rest \<Rightarrow>
          let result' = result OR push_bit shift (ucast (b AND 0x7f)) in
          if b AND 0x80 = 0 then Some (result', rest)
          else get_varint_loop n (shift + 7) result' rest)"

definition get_varint :: "nat \<Rightarrow> bytes \<Rightarrow> ('a::len word \<times> bytes) option" where
  "get_varint max_bytes input = get_varint_loop max_bytes 0 0 input"

definition get_varint32 :: "bytes \<Rightarrow> (u32 \<times> bytes) option" where
  "get_varint32 input = get_varint 5 input"

definition get_varint64 :: "bytes \<Rightarrow> (u64 \<times> bytes) option" where
  "get_varint64 input = get_varint 10 input"

text \<open>
  decode_varint32_exact has no length to check against: it reads the bytes from
  the pointer on, here the list of the bytes that start there.
\<close>

definition decode_varint32_exact :: "bytes \<Rightarrow> (u32 \<times> bytes) option" where
  "decode_varint32_exact p = get_varint_loop 5 0 0 p"

section \<open>Length-prefixed strings\<close>

definition put_length_prefixed :: "bytes \<Rightarrow> bytes \<Rightarrow> bytes" where
  "put_length_prefixed dst value = put_varint32 dst (word_of_nat (length value)) @ value"

definition get_length_prefixed :: "bytes \<Rightarrow> (bytes \<times> bytes) option" where
  "get_length_prefixed input =
     (case get_varint32 input of
        None \<Rightarrow> None
      | Some (len, rest) \<Rightarrow>
          if length rest < unat len then None
          else Some (take (unat len) rest, drop (unat len) rest))"

section \<open>CRC32C\<close>

definition kPolynomial :: u32 where
  "kPolynomial = 0x82F63B78"

definition crc_bit :: "u32 \<Rightarrow> u32" where
  "crc_bit crc = (if crc AND 1 \<noteq> 0 then drop_bit 1 crc XOR kPolynomial else drop_bit 1 crc)"

definition crc_table :: "u32 list" where
  "crc_table = map (\<lambda>i. (crc_bit ^^ 8) (word_of_nat i)) [0..<256]"

definition crc_step :: "u32 \<Rightarrow> byte \<Rightarrow> u32" where
  "crc_step crc c = crc_table ! unat ((crc XOR ucast c) AND 0xff) XOR drop_bit 8 crc"

definition crc32c_extend :: "u32 \<Rightarrow> bytes \<Rightarrow> u32" where
  "crc32c_extend crc data = NOT (foldl crc_step (NOT crc) data)"

definition crc32c :: "bytes \<Rightarrow> u32" where
  "crc32c data = crc32c_extend 0 data"

section \<open>Lemmas: integers and strings\<close>

lemma length_encode_fixed32 [simp]: "length (encode_fixed32 v) = 4"
  by (simp add: encode_fixed32_def)

lemma length_encode_fixed64 [simp]: "length (encode_fixed64 v) = 8"
  by (simp add: encode_fixed64_def)

lemma ff_mask: "0xff = (mask 8 :: 'a::len word)"
  by (simp add: mask_eq_exp_minus_1)

lemma u32_byte [simp]: "ucast (ucast (x AND 0xff) :: byte) = take_bit 8 (x :: u32)"
  unfolding ff_mask by (rule bit_word_eqI) (auto simp: bit_simps)

lemma u64_byte [simp]: "ucast (ucast (x AND 0xff) :: byte) = take_bit 8 (x :: u64)"
  unfolding ff_mask by (rule bit_word_eqI) (auto simp: bit_simps)

lemma decode_encode_fixed32 [simp, codec_simps]:
  "decode_fixed32 (encode_fixed32 v @ rest) = v"
proof -
  have "v = take_bit (8 + 8 + 8 + 8) v" by (simp add: take_bit_length_eq [of v, simplified])
  also have "\<dots> = decode_fixed32 (encode_fixed32 v @ rest)"
    unfolding mask_split_bits by (simp add: decode_fixed32_def encode_fixed32_def ac_simps)
  finally show ?thesis by simp
qed

lemma decode_encode_fixed64 [simp, codec_simps]:
  "decode_fixed64 (encode_fixed64 v @ rest) = v"
proof -
  have "v = take_bit (8 + 8 + 8 + 8 + 8 + 8 + 8 + 8) v"
    by (simp add: take_bit_length_eq [of v, simplified])
  also have "\<dots> = decode_fixed64 (encode_fixed64 v @ rest)"
    unfolding mask_split_bits
    by (simp add: decode_fixed64_def encode_fixed64_def upt_rec ac_simps)
  finally show ?thesis by simp
qed

lemma x7f_mask: "0x7f = (mask 7 :: 'a::len word)"
  by (simp add: mask_eq_exp_minus_1)

lemma bit_x80: "bit (0x80 :: int) n \<longleftrightarrow> n = 7"
  using bit_exp_iff [where 'a = int, of 7 n] by auto

lemma varint_byte_payload:
  "8 \<le> LENGTH('a) \<Longrightarrow>
     ucast ((ucast (d AND 0x7f OR 0x80) :: byte) AND 0x7f) = take_bit 7 (d :: 'a::len word)"
  unfolding x7f_mask by (rule bit_word_eqI) (auto simp: bit_simps bit_x80)

lemma varint_byte_more: "8 \<le> LENGTH('a) \<Longrightarrow>
     (ucast ((d :: 'a::len word) AND 0x7f OR 0x80) :: byte) AND 0x80 \<noteq> 0"
proof -
  assume "8 \<le> LENGTH('a)"
  then have "bit ((ucast (d AND 0x7f OR 0x80) :: byte) AND 0x80) 7"
    by (simp only: bit_and_iff) (simp add: bit_simps bit_x80)
  then show ?thesis by (metis bit_0_eq bot_apply bot_bool_def)
qed

lemma bit_high_zero: "unat (d :: 'a::len word) < 2 ^ n \<Longrightarrow> n \<le> k \<Longrightarrow> \<not> bit d k"
  by (metis bit_take_bit_iff not_le take_bit_eq_self)

lemma varint_byte_last:
  assumes "unat (d :: 'a::len word) < 0x80"
  shows "ucast ((ucast d :: byte) AND 0x7f) = d" "(ucast d :: byte) AND 0x80 = 0"
proof -
  have h: "\<And>k. 7 \<le> k \<Longrightarrow> \<not> bit d k" using bit_high_zero [of d 7] assms by simp
  show "ucast ((ucast d :: byte) AND 0x7f) = d"
    unfolding x7f_mask by (rule bit_word_eqI) (use h in \<open>auto simp: bit_simps intro: ccontr\<close>)
  show "(ucast d :: byte) AND 0x80 = 0"
    by (rule bit_word_eqI) (use h in \<open>auto simp: bit_simps bit_x80\<close>)
qed

lemma get_put_varint_loop:
  assumes "LENGTH('a) \<le> shift + 7 * n" "shift < LENGTH('a)" "8 \<le> LENGTH('a)"
  shows "get_varint_loop n shift (take_bit shift v) (put_varint (drop_bit shift v) @ rest)
         = Some (v :: 'a::len word, rest)"
  using assms
proof (induction n arbitrary: shift)
  case 0
  then show ?case by simp
next
  case (Suc n)
  let ?d = "drop_bit shift v"
  have d: "drop_bit (7 + shift) v = drop_bit (shift + 7) v" by (simp add: add.commute)
  show ?case
  proof (cases "0x80 \<le> unat ?d")
    case True
    have "shift + 7 < LENGTH('a)"
    proof (rule ccontr)
      assume "\<not> shift + 7 < LENGTH('a)"
      then have "take_bit 7 ?d = ?d" by (intro bit_word_eqI) (auto simp: bit_simps dest: bit_imp_le_length)
      then have "unat ?d < 2 ^ 7" by (metis take_bit_nat_less_exp unsigned_take_bit_eq)
      with True show False by simp
    qed
    then show ?thesis
      using Suc varint_byte_more [of ?d] True
      by (subst put_varint.simps) (simp add: varint_byte_payload d Let_def flip: mask_split_bits)
  next
    case False
    then have "unat ?d < 2 ^ 7" by simp
    then have "take_bit (shift + 7) v = v"
      by (intro bit_word_eqI)
        (use bit_high_zero [of ?d 7 "k - shift" for k] in
          \<open>fastforce simp: bit_simps bit_drop_bit_eq intro: ccontr\<close>)
    moreover have "take_bit 7 ?d = ?d" using False by (intro take_bit_eq_self) simp
    ultimately have "take_bit shift v OR push_bit shift ?d = v"
      using mask_split_bits [of shift 7 v] by simp
    then show ?thesis
      using False varint_byte_last [of ?d] by (subst put_varint.simps) (simp add: Let_def)
  qed
qed

lemma get_put_varint:
  assumes "LENGTH('a) \<le> 7 * n" "8 \<le> LENGTH('a)"
  shows "get_varint n (put_varint v @ rest) = Some (v :: 'a::len word, rest)"
  using get_put_varint_loop [of 0 n v rest] assms by (simp add: get_varint_def)

lemma get_put_varint32 [simp, codec_simps]: "get_varint32 (put_varint v @ rest) = Some (v, rest)"
  by (simp add: get_varint32_def get_put_varint)

lemma get_put_varint64 [simp, codec_simps]: "get_varint64 (put_varint v @ rest) = Some (v, rest)"
  by (simp add: get_varint64_def get_put_varint)

lemma get_put_varint_alone [simp, codec_simps]:
  "get_varint32 (put_varint v) = Some (v, [])" "get_varint64 (put_varint v') = Some (v', [])"
  using get_put_varint32 [of v "[]"] get_put_varint64 [of v' "[]"] by simp_all

lemma decode_put_varint32_exact [simp, codec_simps]:
  "decode_varint32_exact (put_varint v @ rest) = Some (v, rest)"
  using get_put_varint32 [of v rest]
  by (simp add: get_varint32_def get_varint_def decode_varint32_exact_def)

lemma get_varint_loop_suffix:
  "get_varint_loop n shift r input = Some (v, rest) \<Longrightarrow> \<exists>used. input = used @ rest \<and> used \<noteq> [] \<and> length used \<le> n"
proof (induction n arbitrary: shift r input)
  case (Suc n)
  then obtain b t where input: "input = b # t" by (auto split: list.splits)
  show ?case
  proof (cases "b AND 0x80 = 0")
    case True
    then show ?thesis using Suc.prems input by (auto simp: Let_def)
  next
    case False
    then obtain used where "t = used @ rest" "length used \<le> n"
      using Suc input by (fastforce simp: Let_def)
    then show ?thesis using input by (intro exI [of _ "b # used"]) simp
  qed
qed simp

lemma get_varint32_suffix:
  "get_varint32 input = Some (v, rest) \<Longrightarrow> \<exists>used. input = used @ rest \<and> used \<noteq> [] \<and> length used \<le> 5"
  by (auto simp: get_varint32_def get_varint_def dest: get_varint_loop_suffix)

lemma get_varint64_suffix:
  "get_varint64 input = Some (v, rest) \<Longrightarrow> \<exists>used. input = used @ rest \<and> used \<noteq> [] \<and> length used \<le> 10"
  by (auto simp: get_varint64_def get_varint_def dest: get_varint_loop_suffix)

lemma get_varint32_shorter: "get_varint32 input = Some (v, rest) \<Longrightarrow> length rest < length input"
  by (auto dest!: get_varint32_suffix)

lemma get_varint64_shorter: "get_varint64 input = Some (v, rest) \<Longrightarrow> length rest < length input"
  by (auto dest!: get_varint64_suffix)

lemma put_varint_not_Nil [simp]: "put_varint v \<noteq> []"
  by (subst put_varint.simps) simp

lemma length_put_varint: "unat (v :: 'a::len word) < 2 ^ (7 * n) \<Longrightarrow> 0 < n \<Longrightarrow> length (put_varint v) \<le> n"
proof (induction n arbitrary: v)
  case (Suc n)
  show ?case
  proof (cases "0x80 \<le> unat v")
    case True
    then have "0 < n" using Suc.prems by (cases n) auto
    have "unat v div 128 < 2 ^ (7 * n)"
      using Suc.prems by (simp add: div_less_iff_less_mult power_add)
    then have "unat (drop_bit 7 v) < 2 ^ (7 * n)"
      by (simp add: unat_drop_bit_eq drop_bit_eq_div [where 'a = nat])
    then show ?thesis using Suc.IH \<open>0 < n\<close> True by (subst put_varint.simps) simp
  qed (subst put_varint.simps, simp)
qed simp

lemma length_put_varint32: "length (put_varint (v :: u32)) \<le> 5"
  using length_put_varint [of v 5] unsigned_less [of v, where 'a = nat] by simp

lemma length_put_varint64: "length (put_varint (v :: u64)) \<le> 10"
  using length_put_varint [of v 10] unsigned_less [of v, where 'a = nat] by simp

lemma get_put_length_prefixed [simp, codec_simps]:
  "length s < 2 ^ 32 \<Longrightarrow> get_length_prefixed (put_length_prefixed [] s @ rest) = Some (s, rest)"
  by (simp add: get_length_prefixed_def put_length_prefixed_def put_varint32_def)

lemma put_length_prefixed_append: "put_length_prefixed dst s = dst @ put_length_prefixed [] s"
  by (simp add: put_length_prefixed_def put_varint32_def)

lemma get_length_prefixed_shorter:
  "get_length_prefixed input = Some (s, rest) \<Longrightarrow> length rest < length input"
  by (auto simp: get_length_prefixed_def split: option.splits if_splits dest!: get_varint32_shorter)

lemma put_length_prefixed_not_Nil [simp]: "put_length_prefixed [] s \<noteq> []"
  by (simp add: put_length_prefixed_def put_varint32_def)

section \<open>Lemmas: CRC32C\<close>

text \<open>
  The shift register of one message bit is linear and invertible, and the
  table-driven step is eight of its steps.
\<close>

lemma and_1_bit: "(w :: 'a::len word) AND 1 \<noteq> 0 \<longleftrightarrow> bit w 0"
  by (simp add: bit_0 and_one_eq odd_iff_mod_2_eq_one)

lemma crc_bit_bit: "crc_bit w = drop_bit 1 w XOR (if bit w 0 then kPolynomial else 0)"
  unfolding crc_bit_def and_1_bit by simp

lemma crc_bit_xor: "crc_bit (a XOR b) = crc_bit a XOR crc_bit b"
  unfolding crc_bit_bit by (rule bit_word_eqI) (auto simp: bit_simps)

lemma crc_bit_high: "bit (crc_bit w) 31 \<longleftrightarrow> bit w 0"
proof -
  have "bit kPolynomial 31" by (simp add: kPolynomial_def)
  moreover have "\<not> bit (drop_bit 1 w) 31"
    using bit_imp_le_length [of w 32] by (auto simp: bit_simps)
  ultimately show ?thesis by (simp add: crc_bit_bit bit_xor_iff)
qed

lemma crc_bit_inj: "crc_bit a = crc_bit b \<Longrightarrow> a = b"
proof (rule bit_word_eqI)
  fix n assume eq: "crc_bit a = crc_bit b" and "n < LENGTH(32)"
  have low: "bit a 0 \<longleftrightarrow> bit b 0" using eq crc_bit_high by metis
  then have "drop_bit 1 a = drop_bit 1 b"
    using eq by (auto simp: crc_bit_bit)
  then have "bit (drop_bit 1 a) (n - 1) \<longleftrightarrow> bit (drop_bit 1 b) (n - 1)" by simp
  with low show "bit a n \<longleftrightarrow> bit b n" by (cases n) (auto simp: bit_drop_bit_eq)
qed

lemma crc_bits_xor: "(crc_bit ^^ n) (a XOR b) = (crc_bit ^^ n) a XOR (crc_bit ^^ n) b"
  by (induction n) (simp_all add: crc_bit_xor)

lemma crc_bits_inj: "(crc_bit ^^ n) a = (crc_bit ^^ n) b \<Longrightarrow> a = b"
  by (induction n) (auto dest: crc_bit_inj)

lemma crc_bits_drop: "take_bit n a = 0 \<Longrightarrow> (crc_bit ^^ n) a = drop_bit n a"
proof (induction n)
  case (Suc n)
  have "bit (take_bit (Suc n) a) k \<longleftrightarrow> False" for k using Suc.prems by simp
  then have z: "\<not> bit a k" if "k \<le> n" for k using that by (auto simp: bit_simps)
  then have "take_bit n a = 0" by (intro bit_word_eqI) (auto simp: bit_simps)
  then show ?case using Suc.IH z [of n] by (simp add: crc_bit_bit bit_drop_bit_eq)
qed simp

lemma crc_step_bits: "crc_step s c = (crc_bit ^^ 8) (s XOR ucast c)"
proof -
  let ?x = "s XOR ucast c"
  let ?lo = "?x AND 0xff" and ?hi = "push_bit 8 (drop_bit 8 s)"
  have "unat ?lo < 256"
    unfolding ff_mask using unat_take_bit_less [of 8 ?x] by (simp only: take_bit_eq_mask) simp
  then have "crc_table ! unat ?lo = (crc_bit ^^ 8) ?lo"
    by (simp add: crc_table_def)
  moreover have "drop_bit 8 s = (crc_bit ^^ 8) ?hi"
  proof (subst crc_bits_drop)
    show "drop_bit 8 s = drop_bit 8 ?hi"
    proof (rule bit_word_eqI)
      fix n show "bit (drop_bit 8 s) n \<longleftrightarrow> bit (drop_bit 8 ?hi) n"
        using bit_u32_lt [of s "8 + n"] by (auto simp: bit_simps)
    qed
  qed (auto intro!: bit_word_eqI simp: bit_simps)
  moreover have "?x = ?lo XOR ?hi"
    unfolding ff_mask by (rule bit_word_eqI) (auto simp: bit_simps dest: bit_byte_lt)
  ultimately show ?thesis
    unfolding crc_step_def by (metis crc_bits_xor)
qed

lemma crc_step_inj_state: "crc_step a c = crc_step b c \<Longrightarrow> a = b"
  by (auto simp: crc_step_bits dest: crc_bits_inj)

lemma crc_fold_inj_state: "foldl crc_step a ds = foldl crc_step b ds \<Longrightarrow> a = b"
  by (induction ds arbitrary: a b) (auto dest: crc_step_inj_state)

text \<open>At most four bytes, read as one little-endian word.\<close>

primrec le_word :: "bytes \<Rightarrow> u32" where
  "le_word [] = 0"
| "le_word (b # bs) = ucast b XOR push_bit 8 (le_word bs)"

lemma le_word_high: "bit (le_word bs) k \<Longrightarrow> k < 8 * length bs"
proof (induction bs arbitrary: k)
  case (Cons b bs)
  then have "k < 8 \<or> (8 \<le> k \<and> bit (le_word bs) (k - 8))"
    by (auto simp: bit_simps dest: bit_byte_lt)
  then show ?case using Cons.IH [of "k - 8"] by auto
qed simp

lemma le_word_inj:
  "length as = length bs \<Longrightarrow> length as \<le> 4 \<Longrightarrow> le_word as = le_word bs \<Longrightarrow> as = bs"
proof (induction as bs rule: list_induct2)
  case (Cons a as b bs)
  have eq: "bit (le_word (a # as)) k \<longleftrightarrow> bit (le_word (b # bs)) k" for k using Cons.prems by simp
  have "a = b"
  proof (rule bit_word_eqI)
    fix k assume "k < LENGTH(8)"
    then show "bit a k \<longleftrightarrow> bit b k" using eq [of k] by (simp add: bit_simps)
  qed
  moreover have "le_word as = le_word bs"
  proof (rule bit_word_eqI)
    fix k assume "k < LENGTH(32)"
    show "bit (le_word as) k \<longleftrightarrow> bit (le_word bs) k"
    proof (cases "k < 24")
      case True
      then show ?thesis using eq [of "k + 8"] by (auto simp: bit_simps dest: bit_imp_le_length)
    next
      case False
      then have "\<not> k < 8 * length as" "\<not> k < 8 * length bs" using Cons by auto
      then show ?thesis using le_word_high by blast
    qed
  qed
  ultimately show ?case using Cons by simp
qed simp

lemma crc_fold_word:
  "length ds \<le> 4 \<Longrightarrow> foldl crc_step s ds = (crc_bit ^^ (8 * length ds)) (s XOR le_word ds)"
proof (induction ds arbitrary: s)
  case (Cons d ds)
  have "\<not> bit (le_word ds) k" if "24 \<le> k" for k
    using le_word_high [of ds k] that Cons.prems by fastforce
  then have "le_word ds = drop_bit 8 (push_bit 8 (le_word ds))"
    by (intro bit_word_eqI) (auto simp: bit_simps dest: bit_imp_le_length intro: ccontr)
  also have "\<dots> = (crc_bit ^^ 8) (push_bit 8 (le_word ds))"
    by (subst crc_bits_drop) (auto intro!: bit_word_eqI simp: bit_simps)
  finally have "crc_step s d XOR le_word ds = (crc_bit ^^ 8) (s XOR le_word (d # ds))"
    by (simp only: crc_step_bits le_word.simps crc_bits_xor xor.assoc [symmetric])
  then have "foldl crc_step s (d # ds) =
      (crc_bit ^^ (8 * length ds)) ((crc_bit ^^ 8) (s XOR le_word (d # ds)))"
    using Cons by simp
  then show ?case
    using funpow_add [of "8 * length ds" 8 crc_bit] by (simp add: add.commute)
qed simp

lemma crc_fold_burst:
  assumes "length ds = length es" "length ds \<le> 4" "foldl crc_step s ds = foldl crc_step s es"
  shows "ds = es"
proof -
  have "s XOR le_word ds = s XOR le_word es"
    using assms crc_fold_word [of ds s] crc_fold_word [of es s] by (auto dest: crc_bits_inj)
  then have "le_word ds = le_word es" by (metis xor.commute xor_right_cancel)
  then show ?thesis using le_word_inj assms by blast
qed

lemma crc32c_extend_append [simp]:
  "crc32c_extend (crc32c_extend crc a) b = crc32c_extend crc (a @ b)"
  by (simp add: crc32c_extend_def)

lemma crc32c_extend_Nil [simp]: "crc32c_extend crc [] = crc"
  by (simp add: crc32c_extend_def)

lemma crc32c_burst:
  assumes "length x = length y" "length x \<le> 4" "x \<noteq> y"
  shows "crc32c (a @ x @ b) \<noteq> crc32c (a @ y @ b)"
proof
  assume "crc32c (a @ x @ b) = crc32c (a @ y @ b)"
  then have "foldl crc_step (foldl crc_step (NOT 0) (a @ x)) b = foldl crc_step (foldl crc_step (NOT 0) (a @ y)) b"
    by (simp add: crc32c_def crc32c_extend_def)
  then have "foldl crc_step (foldl crc_step (NOT 0) a) x = foldl crc_step (foldl crc_step (NOT 0) a) y"
    by (metis crc_fold_inj_state foldl_append)
  with assms show False using crc_fold_burst by blast
qed

section \<open>Arrays of fixed-width integers\<close>

lemma foldl_put_fixed32: "foldl put_fixed32 buf rs = buf @ concat (map encode_fixed32 rs)"
  by (induction rs arbitrary: buf) (simp_all add: put_fixed32_def)

lemma length_concat_fixed32 [simp]: "length (concat (map encode_fixed32 rs)) = 4 * length rs"
  by (induction rs) simp_all

lemma drop_concat_fixed32:
  "j \<le> length rs \<Longrightarrow> drop (4 * j) (concat (map encode_fixed32 rs)) = concat (map encode_fixed32 (drop j rs))"
proof (induction rs arbitrary: j)
  case (Cons r rs)
  then show ?case by (cases j) simp_all
qed simp

lemma decode_array32:
  assumes "j < length ws"
  shows "decode_fixed32 (drop (length pre + j * 4) (pre @ concat (map encode_fixed32 ws) @ post)) = ws ! j"
proof -
  have "drop (length pre + j * 4) (pre @ concat (map encode_fixed32 ws) @ post) =
      drop (4 * j) (concat (map encode_fixed32 ws)) @ post"
    using assms by (simp add: mult.commute)
  also have "\<dots> = encode_fixed32 (ws ! j) @ concat (map encode_fixed32 (drop (Suc j) ws)) @ post"
    using assms drop_concat_fixed32 [of j ws] by (simp flip: Cons_nth_drop_Suc)
  finally show ?thesis by simp
qed

end
