(* ===== verification/Files.thy ===== *)
theory Files
  imports Ambar_Prelude
begin

text \<open>
  src/file.hpp and the stream classes of src/file.cpp.  A writable file has three
  levels: what was appended, what the kernel has, what the device has.  The C
  library and the operating system are the parameters \<open>wf_os\<close> and \<open>sf_os\<close>: what
  they answer to the n-th call made on the file.
\<close>

text \<open>
  \<^term>\<open>None\<close> is success; \<^term>\<open>Some (k, e)\<close> is a failure with error text \<open>e\<close>, of
  which a write has taken at most \<open>k\<close> bytes.
\<close>

record WritableFile =
  wf_open :: bool
  wf_path :: string
  wf_data :: bytes
  wf_flushed :: nat
  wf_synced :: nat
  wf_calls :: nat
  wf_os :: "nat \<Rightarrow> (nat \<times> string) option"

definition errno_message :: "string \<Rightarrow> string \<Rightarrow> string \<Rightarrow> string" where
  "errno_message what path err = what @ '' '' @ quoted path @ '': '' @ err"

definition open_writable :: "string \<Rightarrow> (nat \<Rightarrow> (nat \<times> string) option) \<Rightarrow> WritableFile" where
  "open_writable path os =
     \<lparr>wf_open = True, wf_path = path, wf_data = [], wf_flushed = 0, wf_synced = 0,
      wf_calls = 0, wf_os = os\<rparr>"

definition wf_append :: "WritableFile \<Rightarrow> bytes \<Rightarrow> status \<times> WritableFile" where
  "wf_append f data =
     (if \<not> wf_open f then (io_error (''append to closed file '' @ wf_path f), f)
      else let reply = wf_os f (wf_calls f);
               written = (case reply of None \<Rightarrow> length data | Some (k, _) \<Rightarrow> min k (length data));
               f' = f\<lparr>wf_data := wf_data f @ take written data, wf_calls := wf_calls f + 1\<rparr>
           in if written \<noteq> length data
              then (io_error (errno_message ''short write to'' (wf_path f)
                      (case reply of None \<Rightarrow> [] | Some (_, e) \<Rightarrow> e)), f')
              else (status_ok, f'))"

definition wf_flush :: "WritableFile \<Rightarrow> status \<times> WritableFile" where
  "wf_flush f =
     (if \<not> wf_open f then (status_ok, f)
      else let f' = f\<lparr>wf_calls := wf_calls f + 1\<rparr> in
           case wf_os f (wf_calls f) of
             Some (_, e) \<Rightarrow> (io_error (errno_message ''cannot flush'' (wf_path f) e), f')
           | None \<Rightarrow> (status_ok, f'\<lparr>wf_flushed := length (wf_data f)\<rparr>))"

definition wf_sync :: "WritableFile \<Rightarrow> status \<times> WritableFile" where
  "wf_sync f =
     (if \<not> wf_open f then (status_ok, f)
      else case wf_flush f of (s, f1) \<Rightarrow>
        if \<not> is_ok s then (s, f1)
        else let f2 = f1\<lparr>wf_calls := wf_calls f1 + 1\<rparr> in
             case wf_os f1 (wf_calls f1) of
               Some (_, e) \<Rightarrow> (io_error (errno_message ''cannot sync'' (wf_path f) e), f2)
             | None \<Rightarrow> (status_ok, f2\<lparr>wf_synced := wf_flushed f1\<rparr>))"

definition wf_close :: "WritableFile \<Rightarrow> status \<times> WritableFile" where
  "wf_close f =
     (if \<not> wf_open f then (status_ok, f)
      else let f' = f\<lparr>wf_open := False, wf_calls := wf_calls f + 1\<rparr> in
           case wf_os f (wf_calls f) of
             Some (_, e) \<Rightarrow> (io_error (errno_message ''cannot close'' (wf_path f) e), f')
           | None \<Rightarrow> (status_ok, f'\<lparr>wf_flushed := length (wf_data f)\<rparr>))"

text \<open>A sequential file: what is left to read.\<close>

record SequentialFile =
  sf_path :: string
  sf_rest :: bytes
  sf_calls :: nat
  sf_os :: "nat \<Rightarrow> string option"

definition open_sequential :: "string \<Rightarrow> bytes \<Rightarrow> (nat \<Rightarrow> string option) \<Rightarrow> SequentialFile" where
  "open_sequential path contents os =
     \<lparr>sf_path = path, sf_rest = contents, sf_calls = 0, sf_os = os\<rparr>"

definition sf_read :: "SequentialFile \<Rightarrow> nat \<Rightarrow> (status + bytes) \<times> SequentialFile" where
  "sf_read f n =
     (case sf_os f (sf_calls f) of
        Some e \<Rightarrow> (Inl (io_error (errno_message ''cannot read'' (sf_path f) e)),
                   f\<lparr>sf_calls := sf_calls f + 1\<rparr>)
      | None \<Rightarrow> (Inr (take n (sf_rest f)),
                 f\<lparr>sf_rest := drop n (sf_rest f), sf_calls := sf_calls f + 1\<rparr>))"

text \<open>
  A random access file: a short read is an error.  \<open>rf_os\<close> says which ranges the
  device refuses to read.
\<close>

record RandomAccessFile =
  rf_path :: string
  rf_data :: bytes
  rf_os :: "nat \<Rightarrow> nat \<Rightarrow> string option"

definition rf_read :: "RandomAccessFile \<Rightarrow> nat \<Rightarrow> nat \<Rightarrow> status + bytes" where
  "rf_read f offset n =
     (case rf_os f offset n of
        Some e \<Rightarrow> Inl (io_error (errno_message ''read'' (rf_path f) e))
      | None \<Rightarrow>
          let got = take n (drop offset (rf_data f)) in
          if length got \<noteq> n then Inl (corruption (''short read in '' @ quoted (rf_path f) @ '': wanted '' @ to_string n @
                   '' bytes at offset '' @ to_string offset @ '', got '' @ to_string (length got)))
          else Inr got)"

section \<open>What a crash leaves\<close>

text \<open>
  After a power cut the file holds at least the synced bytes; what follows them is
  arbitrary.  After the process alone dies it holds at least the flushed bytes.
\<close>

definition survives_power_cut :: "WritableFile \<Rightarrow> bytes \<Rightarrow> bool" where
  "survives_power_cut f contents \<longleftrightarrow> prefix (take (wf_synced f) (wf_data f)) contents"

definition wf_inv :: "WritableFile \<Rightarrow> bool" where
  "wf_inv f \<longleftrightarrow> wf_synced f \<le> wf_flushed f \<and> wf_flushed f \<le> length (wf_data f)"

lemma wf_inv_open [simp]: "wf_inv (open_writable path os)"
  by (simp add: wf_inv_def open_writable_def)

lemma wf_append_inv: "wf_inv f \<Longrightarrow> wf_append f d = (s, f') \<Longrightarrow> wf_inv f'"
  by (auto simp: wf_inv_def wf_append_def Let_def split: if_splits)

lemma wf_flush_inv: "wf_inv f \<Longrightarrow> wf_flush f = (s, f') \<Longrightarrow> wf_inv f'"
  by (auto simp: wf_inv_def wf_flush_def Let_def split: if_splits option.splits)

lemma wf_sync_inv: "wf_inv f \<Longrightarrow> wf_sync f = (s, f') \<Longrightarrow> wf_inv f'"
  by (auto simp: wf_inv_def wf_sync_def wf_flush_def Let_def split: if_splits option.splits)

lemma wf_append_ok:
  "wf_append f d = (s, f') \<Longrightarrow> is_ok s \<Longrightarrow>
     wf_data f' = wf_data f @ d \<and> wf_synced f' = wf_synced f \<and> wf_open f' \<and> wf_open f"
  by (auto simp: wf_append_def Let_def split: if_splits)

lemma wf_append_grows:
  "wf_append f d = (s, f') \<Longrightarrow>
     prefix (wf_data f) (wf_data f') \<and> wf_synced f' = wf_synced f \<and> wf_open f' = wf_open f"
  by (auto simp: wf_append_def Let_def split: if_splits)

lemma wf_sync_ok:
  "wf_sync f = (s, f') \<Longrightarrow> is_ok s \<Longrightarrow> wf_open f \<Longrightarrow>
     wf_data f' = wf_data f \<and> wf_synced f' = length (wf_data f) \<and> wf_open f'"
  by (auto simp: wf_sync_def wf_flush_def Let_def split: if_splits option.splits)

lemma wf_sync_data: "wf_sync f = (s, f') \<Longrightarrow> wf_data f' = wf_data f"
  by (auto simp: wf_sync_def wf_flush_def Let_def split: if_splits option.splits)

lemma sf_read_ok:
  "sf_os f = (\<lambda>_. None) \<Longrightarrow> sf_read f n =
     (Inr (take n (sf_rest f)), f\<lparr>sf_rest := drop n (sf_rest f), sf_calls := sf_calls f + 1\<rparr>)"
  by (simp add: sf_read_def)

lemma sf_read_Inr:
  "sf_read f n = (Inr chunk, f') \<Longrightarrow>
     chunk = take n (sf_rest f) \<and> sf_rest f' = drop n (sf_rest f) \<and> sf_os f' = sf_os f"
  by (auto simp: sf_read_def split: option.splits)

end
