(* ===== verification/Wal.thy ===== *)
theory Wal
  imports Encoding Files
begin

text \<open>
  src/wal.hpp and src/wal.cpp: the write-ahead log, also the manifest's container.
  \<open>LogWriter\<close> cuts records into fragments that never cross a 32 KiB block;
  \<open>LogReader\<close> puts them together again, stops at the first fragment that does not
  verify, and then decides whether what it saw is a torn tail or damage.
\<close>

definition kBlockSize :: nat where
  "kBlockSize = 32768"

definition kHeaderSize :: nat where
  "kHeaderSize = 4 + 2 + 1"

datatype RecordType = kZero | kFull | kFirst | kMiddle | kLast

definition record_type_byte :: "RecordType \<Rightarrow> byte" where
  "record_type_byte t =
     (case t of kZero \<Rightarrow> 0 | kFull \<Rightarrow> 1 | kFirst \<Rightarrow> 2 | kMiddle \<Rightarrow> 3 | kLast \<Rightarrow> 4)"

lemmas wal_sizes = kBlockSize_def kHeaderSize_def

section \<open>Writer\<close>

record LogWriter =
  lw_dest :: WritableFile
  lw_offset :: nat
  lw_bytes_written :: nat

definition LogWriter_ctor :: "WritableFile \<Rightarrow> LogWriter" where
  "LogWriter_ctor dest = \<lparr>lw_dest = dest, lw_offset = 0, lw_bytes_written = 0\<rparr>"

definition emit_physical_record :: "LogWriter \<Rightarrow> RecordType \<Rightarrow> bytes \<Rightarrow> status \<times> LogWriter" where
  "emit_physical_record w type data =
     (let type_byte = record_type_byte type;
          crc = crc32c_extend (crc32c_extend 0 [type_byte]) data;
          header = put_fixed32 [] crc @
            [word_of_nat (length data), word_of_nat (length data div 256), type_byte]
      in case wf_append (lw_dest w) header of (s, f) \<Rightarrow>
         if \<not> is_ok s then (s, w\<lparr>lw_dest := f\<rparr>)
         else case wf_append f data of (s', f') \<Rightarrow>
           if \<not> is_ok s' then (s', w\<lparr>lw_dest := f'\<rparr>)
           else (status_ok,
                 w\<lparr>lw_dest := f',
                   lw_offset := lw_offset w + kHeaderSize + length data,
                   lw_bytes_written := lw_bytes_written w + kHeaderSize + length data\<rparr>))"

text \<open>The start of an iteration: pad a block that has no room for a header.\<close>

definition pad_block :: "LogWriter \<Rightarrow> status \<times> LogWriter" where
  "pad_block w =
     (let block_left = kBlockSize - lw_offset w in
      if block_left < kHeaderSize
      then if 0 < block_left
           then case wf_append (lw_dest w) (replicate block_left 0) of (s, f) \<Rightarrow>
             if \<not> is_ok s then (s, w\<lparr>lw_dest := f\<rparr>)
             else (status_ok, w\<lparr>lw_dest := f, lw_offset := 0,
                                lw_bytes_written := lw_bytes_written w + block_left\<rparr>)
           else (status_ok, w\<lparr>lw_offset := 0\<rparr>)
      else (status_ok, w))"

definition fragment_type :: "bool \<Rightarrow> bool \<Rightarrow> RecordType" where
  "fragment_type first_fragment last_fragment =
     (if first_fragment \<and> last_fragment then kFull
      else if first_fragment then kFirst
      else if last_fragment then kLast
      else kMiddle)"

lemma pad_block_offset:
  "pad_block w = (s, w') \<Longrightarrow> is_ok s \<Longrightarrow>
     lw_offset w' = (if kBlockSize - lw_offset w < kHeaderSize then 0 else lw_offset w)"
  by (auto simp: pad_block_def Let_def split: if_splits prod.splits)

lemma emit_offset:
  "emit_physical_record w type data = (s, w') \<Longrightarrow> is_ok s \<Longrightarrow>
     lw_offset w' = lw_offset w + kHeaderSize + length data"
  by (auto simp: emit_physical_record_def Let_def split: if_splits prod.splits)

function add_record_loop :: "LogWriter \<Rightarrow> bytes \<Rightarrow> bool \<Rightarrow> status \<times> LogWriter" where
  "add_record_loop w data first_fragment =
     (case pad_block w of (s, w1) \<Rightarrow>
      if \<not> is_ok s then (s, w1)
      else let available = kBlockSize - lw_offset w1 - kHeaderSize;
               fragment = (if length data < available then length data else available);
               last_fragment = (fragment = length data)
           in case emit_physical_record w1 (fragment_type first_fragment last_fragment)
                     (take fragment data) of (s', w2) \<Rightarrow>
              if \<not> is_ok s' then (s', w2)
              else if 0 < length data - fragment
                   then add_record_loop w2 (drop fragment data) False
                   else (status_ok, w2))"
  by auto
termination
proof (relation "measure (\<lambda>(w, data, first).
         2 * length data + (if kBlockSize - lw_offset w < kHeaderSize then 0 else 1))", goal_cases)
  case (2 w data first s w1 available fragment last s' w2)
  then have off: "lw_offset w1 = (if kBlockSize - lw_offset w < kHeaderSize then 0 else lw_offset w)"
    by (metis pad_block_offset)
  have off2: "lw_offset w2 = lw_offset w1 + kHeaderSize + length (take fragment data)"
    using 2 by (metis emit_offset)
  show ?case
  proof (cases "fragment = 0")
    case True
    with 2 have "kBlockSize - lw_offset w1 \<le> kHeaderSize" by (auto split: if_splits)
    then show ?thesis using off off2 2 True by (auto simp: wal_sizes split: if_splits)
  qed (use 2 in auto)
qed simp

definition add_record :: "LogWriter \<Rightarrow> bytes \<Rightarrow> status \<times> LogWriter" where
  "add_record w payload = add_record_loop w payload True"

definition log_flush :: "LogWriter \<Rightarrow> status \<times> LogWriter" where
  "log_flush w = (case wf_flush (lw_dest w) of (s, f) \<Rightarrow> (s, w\<lparr>lw_dest := f\<rparr>))"

definition log_sync :: "LogWriter \<Rightarrow> status \<times> LogWriter" where
  "log_sync w = (case wf_sync (lw_dest w) of (s, f) \<Rightarrow> (s, w\<lparr>lw_dest := f\<rparr>))"

definition log_close :: "LogWriter \<Rightarrow> status \<times> LogWriter" where
  "log_close w = (case wf_close (lw_dest w) of (s, f) \<Rightarrow> (s, w\<lparr>lw_dest := f\<rparr>))"

section \<open>Reader\<close>

record LogReader =
  lr_source :: SequentialFile
  lr_block :: bytes
  lr_block_offset :: nat
  lr_eof :: bool
  lr_truncated :: bool
  lr_damaged :: bool
  lr_read_failed :: bool
  lr_failure_reason :: string

definition LogReader_ctor :: "SequentialFile \<Rightarrow> LogReader" where
  "LogReader_ctor source =
     \<lparr>lr_source = source, lr_block = [], lr_block_offset = 0, lr_eof = False,
      lr_truncated = False, lr_damaged = False, lr_read_failed = False, lr_failure_reason = []\<rparr>"

definition log_damaged :: "LogReader \<Rightarrow> bool" where
  "log_damaged r \<longleftrightarrow> lr_damaged r \<or> lr_read_failed r"

definition load_next_block :: "LogReader \<Rightarrow> bool \<times> LogReader" where
  "load_next_block r =
     (case sf_read (lr_source r) kBlockSize of
        (Inl status, f) \<Rightarrow>
          (False, r\<lparr>lr_source := f, lr_truncated := True, lr_read_failed := True,
                    lr_failure_reason := status_to_string status, lr_eof := True\<rparr>)
      | (Inr chunk, f) \<Rightarrow>
          let r' = r\<lparr>lr_source := f, lr_block := chunk, lr_block_offset := 0\<rparr> in
          if chunk = [] then (False, r'\<lparr>lr_eof := True\<rparr>) else (True, r'))"

record Header =
  h_crc :: u32
  h_length :: nat
  h_type :: byte

definition parse_header :: "bytes \<Rightarrow> Header" where
  "parse_header p =
     \<lparr>h_crc = decode_fixed32 p,
      h_length = unat (p ! 4) + 256 * unat (p ! 5),
      h_type = p ! 6\<rparr>"

definition is_zeroed :: "Header \<Rightarrow> bool" where
  "is_zeroed h \<longleftrightarrow> h_type h = record_type_byte kZero \<and> h_length h = 0 \<and> h_crc h = 0"

definition known_type :: "byte \<Rightarrow> bool" where
  "known_type t \<longleftrightarrow> t = record_type_byte kFull \<or> t = record_type_byte kFirst \<or>
     t = record_type_byte kMiddle \<or> t = record_type_byte kLast"

definition record_crc :: "bytes \<Rightarrow> nat \<Rightarrow> u32" where
  "record_crc p len =
     crc32c_extend (crc32c_extend 0 [p ! 6]) (take len (drop kHeaderSize p))"

definition verifies :: "bytes \<Rightarrow> Header \<Rightarrow> bool" where
  "verifies p h \<longleftrightarrow> record_crc p (h_length h) = h_crc h \<and> known_type (h_type h)"

text \<open>The while loop of verifies\_to\_block\_end: where it stops, and whether it found any.\<close>

function verify_chain :: "bytes \<Rightarrow> nat \<Rightarrow> bool \<Rightarrow> (nat \<times> bool) option" where
  "verify_chain block offset any =
     (if offset + kHeaderSize \<le> length block
      then let p = drop offset block; h = parse_header p in
        if is_zeroed h then Some (offset, any)
        else if length block < offset + kHeaderSize + h_length h then None
        else if \<not> verifies p h then None
        else verify_chain block (offset + kHeaderSize + h_length h) True
      else Some (offset, any))"
  by auto
termination
  by (relation "measure (\<lambda>(block, offset, any). length block - offset)") (auto simp: wal_sizes)

definition verifies_to_block_end :: "bytes \<Rightarrow> nat \<Rightarrow> bool" where
  "verifies_to_block_end block start =
     (case verify_chain block start False of
        None \<Rightarrow> False
      | Some (offset, any) \<Rightarrow> (\<forall>b \<in> set (drop offset block). b = 0) \<and> any)"

function walk_verifies :: "bytes \<Rightarrow> nat \<Rightarrow> bool" where
  "walk_verifies block walk =
     (if walk + kHeaderSize \<le> length block
      then let p = drop walk block; h = parse_header p in
        if is_zeroed h then walk_verifies block (walk + 1)
        else if length block < walk + kHeaderSize + h_length h then False
        else if verifies p h then True
        else walk_verifies block (walk + kHeaderSize + h_length h)
      else False)"
  by auto
termination
  by (relation "measure (\<lambda>(block, walk). length block - walk)") (auto simp: wal_sizes)

function scan_verifies :: "bytes \<Rightarrow> nat \<Rightarrow> bool" where
  "scan_verifies block at =
     (if at + kHeaderSize \<le> length block
      then let h = parse_header (drop at block) in
        if (known_type (h_type h) \<and> at + kHeaderSize + h_length h \<le> length block) \<and>
           verifies_to_block_end block at
        then True
        else scan_verifies block (at + 1)
      else False)"
  by auto
termination
  by (relation "measure (\<lambda>(block, at). length block - at)") (auto simp: wal_sizes)

declare add_record_loop.simps [simp del] verify_chain.simps [simp del]
  walk_verifies.simps [simp del] scan_verifies.simps [simp del]

function readable_record_follows :: "LogReader \<Rightarrow> nat \<Rightarrow> nat \<Rightarrow> bool \<times> LogReader" where
  "readable_record_follows r walk_from scan_from =
     (if walk_verifies (lr_block r) walk_from \<or> scan_verifies (lr_block r) scan_from then (True, r)
      else if length (lr_block r) < kBlockSize then (False, r)
      else case sf_read (lr_source r) kBlockSize of
             (Inl status, f) \<Rightarrow> (False, r\<lparr>lr_source := f, lr_read_failed := True\<rparr>)
           | (Inr chunk, f) \<Rightarrow>
               let r' = r\<lparr>lr_source := f, lr_block := chunk\<rparr> in
               if chunk = [] then (False, r') else readable_record_follows r' 0 0)"
  by auto
termination
  by (relation "measure (\<lambda>(r, _, _). length (sf_rest (lr_source r)))")
    (auto simp: wal_sizes dest!: sf_read_Inr [OF sym])

definition log_stop :: "LogReader \<Rightarrow> string \<Rightarrow> nat \<Rightarrow> LogReader" where
  "log_stop r reason resume_offset =
     (let r1 = r\<lparr>lr_truncated := True, lr_eof := True, lr_failure_reason := reason\<rparr>;
          scan_from = (if resume_offset < lr_block_offset r + 1 then resume_offset
                       else lr_block_offset r + 1)
      in case readable_record_follows r1 resume_offset scan_from of (found, r2) \<Rightarrow>
           r2\<lparr>lr_damaged := found\<rparr>)"

lemma load_next_block_True:
  "load_next_block r = (True, r') \<Longrightarrow>
     \<exists>f. sf_read (lr_source r) kBlockSize = (Inr (lr_block r'), f) \<and> lr_block r' \<noteq> [] \<and>
         r' = r\<lparr>lr_source := f, lr_block := lr_block r', lr_block_offset := 0\<rparr>"
  by (auto simp: load_next_block_def Let_def split: prod.splits sum.splits if_splits)

lemma load_next_block_shrinks:
  "load_next_block r = (True, r') \<Longrightarrow>
     length (sf_rest (lr_source r')) + length (lr_block r') = length (sf_rest (lr_source r)) \<and>
     lr_block r' \<noteq> [] \<and> lr_block_offset r' = 0"
  by (drule load_next_block_True) (auto dest!: sf_read_Inr simp: wal_sizes min_def)

function read_physical_record :: "LogReader \<Rightarrow> (byte \<times> bytes) option \<times> LogReader" where
  "read_physical_record r =
     (if length (lr_block r) < lr_block_offset r + kHeaderSize
      then if length (lr_block r) = kBlockSize
           then case load_next_block r of (loaded, r') \<Rightarrow>
             if loaded then read_physical_record r' else (None, r')
           else if lr_block_offset r < length (lr_block r)
           then (None, log_stop r ''partial record header at end of log'' (length (lr_block r)))
           else (None, r\<lparr>lr_eof := True\<rparr>)
      else let p = drop (lr_block_offset r) (lr_block r);
               h = parse_header p
           in if is_zeroed h
              then (None, log_stop r ''zeroed span where a record header should be''
                            (lr_block_offset r))
              else if length (lr_block r) < lr_block_offset r + kHeaderSize + h_length h
              then (None, log_stop r ''record length runs past the end of the log''
                            (length (lr_block r)))
              else if record_crc p (h_length h) \<noteq> h_crc h
              then (None, log_stop r ''checksum mismatch''
                            (lr_block_offset r + kHeaderSize + h_length h))
              else (Some (h_type h, take (h_length h) (drop kHeaderSize p)),
                    r\<lparr>lr_block_offset := lr_block_offset r + kHeaderSize + h_length h\<rparr>))"
  by auto
termination
  by (relation "measure (\<lambda>r. length (sf_rest (lr_source r)))")
    (auto dest!: load_next_block_shrinks [OF sym] simp flip: length_greater_0_conv)

declare readable_record_follows.simps [simp del] read_physical_record.simps [simp del]

text \<open>Bytes not yet delivered: what the loops over fragments and records use up.\<close>

definition unread :: "LogReader \<Rightarrow> nat" where
  "unread r = length (sf_rest (lr_source r)) + (length (lr_block r) - lr_block_offset r)"

lemma read_physical_record_unread:
  "read_physical_record r = (Some x, r') \<Longrightarrow> unread r' < unread r"
proof (induction r arbitrary: r' rule: read_physical_record.induct)
  case (1 r)
  show ?case
  proof (cases "length (lr_block r) < lr_block_offset r + kHeaderSize")
    case True
    with "1.prems" obtain r1 where l: "load_next_block r = (True, r1)"
        and full: "length (lr_block r) = kBlockSize"
        and rec: "read_physical_record r1 = (Some x, r')"
      by (subst (asm) read_physical_record.simps) (auto split: if_splits prod.splits)
    have "unread r' < unread r1" using "1.IH" True full l rec by simp
    also have "unread r1 \<le> unread r"
      using load_next_block_shrinks [OF l] by (simp add: unread_def)
    finally show ?thesis .
  next
    case False
    with "1.prems" show ?thesis
      by (subst (asm) read_physical_record.simps)
        (auto simp: unread_def wal_sizes Let_def split: if_splits)
  qed
qed

function read_fragments :: "LogReader \<Rightarrow> bytes \<Rightarrow> bytes option \<times> LogReader" where
  "read_fragments r scratch =
     (case read_physical_record r of
        (None, r') \<Rightarrow>
          (None, r'\<lparr>lr_truncated := True,
                    lr_failure_reason :=
                      (if lr_failure_reason r' = []
                       then ''log ends in the middle of a fragmented record''
                       else lr_failure_reason r')\<rparr>)
      | (Some (type, fragment), r') \<Rightarrow>
          if type = record_type_byte kMiddle then read_fragments r' (scratch @ fragment)
          else if type = record_type_byte kLast then (Some (scratch @ fragment), r')
          else (None, log_stop r' ''unexpected fragment type inside a record''
                        (lr_block_offset r' - kHeaderSize - length fragment)))"
  by auto
termination
  by (relation "measure (\<lambda>(r, scratch). unread r)")
    (auto dest!: read_physical_record_unread [OF sym])

declare read_fragments.simps [simp del]

definition read_record :: "LogReader \<Rightarrow> bytes option \<times> LogReader" where
  "read_record r =
     (if lr_eof r then (None, r)
      else case (if lr_block r = [] then load_next_block r else (True, r)) of (loaded, r1) \<Rightarrow>
        if \<not> loaded then (None, r1)
        else case read_physical_record r1 of
               (None, r2) \<Rightarrow> (None, r2)
             | (Some (type, fragment), r2) \<Rightarrow>
                 if type = record_type_byte kFull then (Some fragment, r2)
                 else if type \<noteq> record_type_byte kFirst
                 then (None, log_stop r2 ''log begins with a continuation fragment''
                               (lr_block_offset r2 - kHeaderSize - length fragment))
                 else read_fragments r2 fragment)"

end
