(* ===== verification/Wal_Props.thy ===== *)
theory Wal_Props
  imports Wal
begin

text \<open>
  What the log guarantees: the layout the writer produces, that the reader
  returns exactly the records whose bytes are all there, whatever follows them,
  and what that means for records that were synced.
\<close>

section \<open>The layout of a log\<close>

definition phys :: "RecordType \<Rightarrow> bytes \<Rightarrow> bytes" where
  "phys t d =
     encode_fixed32 (crc32c (record_type_byte t # d)) @
     [word_of_nat (length d), word_of_nat (length d div 256), record_type_byte t] @ d"

definition pad :: "nat \<Rightarrow> nat" where
  "pad off = (if kBlockSize - off < kHeaderSize then kBlockSize - off else 0)"

definition frag_start :: "nat \<Rightarrow> nat" where
  "frag_start off = (if kBlockSize - off < kHeaderSize then 0 else off)"

definition piece_bytes :: "nat \<Rightarrow> RecordType \<times> bytes \<Rightarrow> bytes" where
  "piece_bytes off p = replicate (pad off) 0 @ phys (fst p) (snd p)"

definition next_off :: "nat \<Rightarrow> RecordType \<times> bytes \<Rightarrow> nat" where
  "next_off off p = frag_start off + kHeaderSize + length (snd p)"

primrec stream :: "nat \<Rightarrow> (RecordType \<times> bytes) list \<Rightarrow> bytes" where
  "stream off [] = []"
| "stream off (p # ps) = piece_bytes off p @ stream (next_off off p) ps"

definition end_off :: "nat \<Rightarrow> (RecordType \<times> bytes) list \<Rightarrow> nat" where
  "end_off off ps = foldl next_off off ps"

definition fragment_of :: "nat \<Rightarrow> bytes \<Rightarrow> nat" where
  "fragment_of off data = min (length data) (kBlockSize - frag_start off - kHeaderSize)"

function pieces :: "nat \<Rightarrow> bytes \<Rightarrow> bool \<Rightarrow> (RecordType \<times> bytes) list" where
  "pieces off data first =
     (let n = fragment_of off data; p = (fragment_type first (n = length data), take n data) in
      p # (if n < length data then pieces (next_off off p) (drop n data) False else []))"
  by auto
termination
  by (relation "measure (\<lambda>(off, data, first).
         2 * length data + (if kBlockSize - off < kHeaderSize then 0 else 1))")
    (auto simp: fragment_of_def frag_start_def next_off_def wal_sizes min_def split: if_splits)

declare pieces.simps [simp del]

primrec log_bytes :: "nat \<Rightarrow> bytes list \<Rightarrow> bytes" where
  "log_bytes off [] = []"
| "log_bytes off (p # ps) =
     stream off (pieces off p True) @ log_bytes (end_off off (pieces off p True)) ps"

lemma length_phys [simp]: "length (phys t d) = kHeaderSize + length d"
  by (simp add: phys_def kHeaderSize_def)

lemma phys_not_Nil [simp]: "phys t d \<noteq> []"
  by (simp add: phys_def)

lemma length_piece_bytes [simp]:
  "length (piece_bytes off p) = pad off + kHeaderSize + length (snd p)"
  by (simp add: piece_bytes_def)

lemma piece_fits:
  "off \<le> kBlockSize \<Longrightarrow> frag_start off + kHeaderSize + fragment_of off data \<le> kBlockSize"
  by (auto simp: frag_start_def fragment_of_def wal_sizes)

section \<open>The writer produces the layout\<close>

lemma pad_block_data:
  assumes "pad_block w = (s, w')" "is_ok s"
  shows "wf_data (lw_dest w') = wf_data (lw_dest w) @ replicate (pad (lw_offset w)) 0 \<and>
    lw_offset w' = frag_start (lw_offset w) \<and> wf_synced (lw_dest w') = wf_synced (lw_dest w) \<and>
    wf_open (lw_dest w') = wf_open (lw_dest w)"
  using assms by (auto simp: pad_block_def Let_def pad_def frag_start_def
      split: if_splits prod.splits dest!: wf_append_ok)

lemma emit_data:
  assumes "emit_physical_record w t d = (s, w')" "is_ok s"
  shows "wf_data (lw_dest w') = wf_data (lw_dest w) @ phys t d \<and>
    lw_offset w' = lw_offset w + kHeaderSize + length d \<and>
    wf_synced (lw_dest w') = wf_synced (lw_dest w) \<and> wf_open (lw_dest w')"
  using assms by (auto simp: emit_physical_record_def Let_def phys_def put_fixed32_def crc32c_def
      split: if_splits prod.splits dest!: wf_append_ok)

lemma add_record_loop_data:
  assumes "add_record_loop w data first = (s, w')" "is_ok s"
  shows "wf_data (lw_dest w') = wf_data (lw_dest w) @ stream (lw_offset w) (pieces (lw_offset w) data first) \<and>
    lw_offset w' = end_off (lw_offset w) (pieces (lw_offset w) data first) \<and>
    wf_synced (lw_dest w') = wf_synced (lw_dest w) \<and> wf_open (lw_dest w')"
  using assms
proof (induction w data first arbitrary: s w' rule: add_record_loop.induct)
  case (1 w data first)
  obtain s1 w1 where p: "pad_block w = (s1, w1)" by fastforce
  with "1.prems" have ok1: "is_ok s1"
    by (subst (asm) add_record_loop.simps) (auto split: if_splits)
  note pd = pad_block_data [OF p ok1]
  let ?n = "fragment_of (lw_offset w) data"
  have n: "(if length data < kBlockSize - lw_offset w1 - kHeaderSize then length data
            else kBlockSize - lw_offset w1 - kHeaderSize) = ?n"
    using pd by (auto simp: fragment_of_def)
  let ?t = "fragment_type first (?n = length data)"
  obtain s2 w2 where e: "emit_physical_record w1 ?t (take ?n data) = (s2, w2)" by fastforce
  have unfold: "add_record_loop w data first =
    (if \<not> is_ok s2 then (s2, w2)
     else if ?n < length data then add_record_loop w2 (drop ?n data) False else (status_ok, w2))"
    unfolding add_record_loop.simps [of w data first] p prod.case Let_def n e using ok1 by simp
  with "1.prems" have ok2: "is_ok s2" by (auto split: if_splits)
  note ed = emit_data [OF e ok2]
  have len: "length (take ?n data) = ?n" by (simp add: fragment_of_def)
  have off2: "lw_offset w2 = next_off (lw_offset w) (?t, take ?n data)"
    using pd ed by (simp add: next_off_def)
  show ?case
  proof (cases "?n < length data")
    case True
    with unfold ok2 "1.prems" have rec: "add_record_loop w2 (drop ?n data) False = (s, w')" by simp
    have IH: "wf_data (lw_dest w') = wf_data (lw_dest w2) @
        stream (lw_offset w2) (pieces (lw_offset w2) (drop ?n data) False) \<and>
      lw_offset w' = end_off (lw_offset w2) (pieces (lw_offset w2) (drop ?n data) False) \<and>
      wf_synced (lw_dest w') = wf_synced (lw_dest w2) \<and> wf_open (lw_dest w')"
      by (rule "1.IH" [OF p [symmetric] _ refl n [symmetric] refl e [symmetric] _ _ rec])
        (use ok1 ok2 True "1.prems" in simp_all)
    then show ?thesis
      using True pd ed
      by (subst (1 2) pieces.simps)
        (simp add: Let_def piece_bytes_def end_off_def next_off_def)
  next
    case False
    with unfold ok2 "1.prems" have "w' = w2" by simp
    with False pd ed off2 show ?thesis
      by (subst (1 2) pieces.simps) (simp add: Let_def piece_bytes_def end_off_def)
  qed
qed

section \<open>The reader on the layout\<close>

text \<open>
  The reader stands at offset \<open>off\<close> of its block with \<open>S\<close> still to come, nothing
  went wrong so far, and the block is full unless it is the last one.
\<close>

definition reads :: "LogReader \<Rightarrow> nat \<Rightarrow> bytes \<Rightarrow> bool" where
  "reads r off S \<longleftrightarrow>
     \<not> lr_eof r \<and> \<not> lr_truncated r \<and> \<not> log_damaged r \<and> lr_failure_reason r = [] \<and>
     sf_os (lr_source r) = (\<lambda>_. None) \<and> lr_block r \<noteq> [] \<and> lr_block_offset r = off \<and>
     off \<le> length (lr_block r) \<and> drop off (lr_block r) @ sf_rest (lr_source r) = S \<and>
     (length (lr_block r) = kBlockSize \<or>
      length (lr_block r) < kBlockSize \<and> sf_rest (lr_source r) = [])"

lemma load_next_block_reads:
  assumes "sf_os (lr_source r) = (\<lambda>_. None)" "sf_rest (lr_source r) \<noteq> []"
    "\<not> lr_eof r" "\<not> lr_truncated r" "\<not> log_damaged r" "lr_failure_reason r = []"
  obtains r' where "load_next_block r = (True, r')" "reads r' 0 (sf_rest (lr_source r))"
proof
  let ?f = "lr_source r"
  let ?r = "r\<lparr>lr_source := ?f\<lparr>sf_rest := drop kBlockSize (sf_rest ?f), sf_calls := sf_calls ?f + 1\<rparr>,
     lr_block := take kBlockSize (sf_rest ?f), lr_block_offset := 0\<rparr>"
  show "load_next_block r = (True, ?r)"
    using assms by (simp add: load_next_block_def sf_read_ok Let_def wal_sizes)
  show "reads ?r 0 (sf_rest ?f)"
    using assms by (auto simp: reads_def log_damaged_def wal_sizes)
qed

lemma load_next_block_end:
  assumes "sf_os (lr_source r) = (\<lambda>_. None)" "sf_rest (lr_source r) = []"
  shows "load_next_block r = (False, r\<lparr>lr_source := (lr_source r)\<lparr>sf_calls := sf_calls (lr_source r) + 1\<rparr>,
     lr_block := [], lr_block_offset := 0, lr_eof := True\<rparr>)"
  using assms by (simp add: load_next_block_def sf_read_ok Let_def)

text \<open>A block without room for a header is left for the next one.\<close>

lemma reads_next_block:
  assumes r: "reads r off (replicate (pad off) 0 @ T)" and off: "off \<le> kBlockSize" and T: "T \<noteq> []"
  obtains r' where "read_physical_record r = read_physical_record r'" "reads r' (frag_start off) T"
proof (cases "kBlockSize - off < kHeaderSize")
  case False
  then have "pad off = 0" "frag_start off = off" by (auto simp: pad_def frag_start_def)
  then show thesis using that r by simp
next
  case True
  then have pad: "pad off = kBlockSize - off" "frag_start off = 0" by (auto simp: pad_def frag_start_def)
  have full: "length (lr_block r) = kBlockSize"
  proof (rule ccontr)
    assume "length (lr_block r) \<noteq> kBlockSize"
    then have "drop off (lr_block r) = replicate (kBlockSize - off) 0 @ T" "length (lr_block r) < kBlockSize"
      using r pad by (auto simp: reads_def)
    then have "length (lr_block r) - off = kBlockSize - off + length T"
      by (metis length_append length_drop length_replicate)
    moreover have "off \<le> length (lr_block r)" using r by (simp add: reads_def)
    ultimately show False using \<open>length (lr_block r) < kBlockSize\<close> T by auto
  qed
  have "drop off (lr_block r) @ sf_rest (lr_source r) = replicate (kBlockSize - off) 0 @ T"
    using r pad by (simp add: reads_def)
  then have rest: "sf_rest (lr_source r) = T" using full by (simp add: append_eq_append_conv)
  obtain r' where l: "load_next_block r = (True, r')" "reads r' 0 T"
    using load_next_block_reads [of r] r rest T by (auto simp: reads_def)
  have "length (lr_block r) < lr_block_offset r + kHeaderSize"
    using r full True by (simp add: reads_def)
  then have "read_physical_record r = read_physical_record r'"
    using full l(1) by (subst read_physical_record.simps) simp
  then show thesis using that l pad by simp
qed

definition written_type :: "RecordType \<Rightarrow> bool" where
  "written_type t \<longleftrightarrow> t \<noteq> kZero"

lemma record_type_byte_inj [simp]: "record_type_byte s = record_type_byte t \<longleftrightarrow> s = t"
  by (cases s; cases t) (simp_all add: record_type_byte_def)

lemma fragment_type_written [simp]: "written_type (fragment_type a b)"
  by (simp add: written_type_def fragment_type_def)

lemma length_bytes:
  "n < 65536 \<Longrightarrow> unat (word_of_nat n :: byte) + 256 * unat (word_of_nat (n div 256) :: byte) = n"
  by (simp add: unsigned_of_nat take_bit_eq_mod)

lemma parse_header_phys:
  assumes that: "kHeaderSize \<le> n" and d: "length d < 65536"
  shows "parse_header (take n (phys t d) @ T) =
     \<lparr>h_crc = crc32c (record_type_byte t # d), h_length = length d, h_type = record_type_byte t\<rparr>"
proof -
  let ?c = "encode_fixed32 (crc32c (record_type_byte t # d))"
  let ?l = "[word_of_nat (length d), word_of_nat (length d div 256), record_type_byte t] :: bytes"
  have eq: "take n (phys t d) @ T = ?c @ ?l @ take (n - 7) d @ T"
    using that by (simp add: phys_def kHeaderSize_def take_Cons')
  show ?thesis
    unfolding eq parse_header_def using length_bytes [OF d] by (simp add: nth_append)
qed

lemma is_zeroed_phys: "written_type t \<Longrightarrow> \<not> is_zeroed \<lparr>h_crc = c, h_length = l, h_type = record_type_byte t\<rparr>"
  by (simp add: is_zeroed_def written_type_def)

lemma record_crc_phys: "record_crc (phys t d @ T) (length d) = crc32c (record_type_byte t # d)"
  by (simp add: record_crc_def phys_def kHeaderSize_def crc32c_def nth_append)

lemma drop_phys [simp]: "drop kHeaderSize (phys t d) = d"
  by (simp add: phys_def kHeaderSize_def)

lemma reads_phys:
  assumes r: "reads r off (phys t d @ T)" and fit: "off + kHeaderSize + length d \<le> kBlockSize"
    and t: "written_type t"
  obtains r' where "read_physical_record r = (Some (record_type_byte t, d), r')"
    "reads r' (off + kHeaderSize + length d) T"
proof
  let ?r = "r\<lparr>lr_block_offset := off + kHeaderSize + length d\<rparr>"
  have d: "length d < 65536" using fit by (simp add: wal_sizes)
  have off: "lr_block_offset r = off" "off \<le> length (lr_block r)" using r by (simp_all add: reads_def)
  have S: "drop off (lr_block r) @ sf_rest (lr_source r) = phys t d @ T" using r by (simp add: reads_def)
  have len: "off + kHeaderSize + length d \<le> length (lr_block r)"
  proof (cases "length (lr_block r) = kBlockSize")
    case False
    then have "drop off (lr_block r) = phys t d @ T" using r S by (simp add: reads_def)
    then have "length (lr_block r) - off = kHeaderSize + length d + length T"
      by (metis length_append length_drop length_phys)
    then show ?thesis using off by (simp add: wal_sizes)
  qed (use fit in simp)
  have "take (kHeaderSize + length d) (drop off (lr_block r)) = phys t d"
    using arg_cong [OF S, of "take (kHeaderSize + length d)"] len by simp
  then obtain B where B: "drop off (lr_block r) = phys t d @ B"
    by (metis append_take_drop_id)
  have p: "parse_header (phys t d @ B) =
     \<lparr>h_crc = crc32c (record_type_byte t # d), h_length = length d, h_type = record_type_byte t\<rparr>"
    using parse_header_phys [of "length (phys t d)" d t B] d by simp
  show "read_physical_record r = (Some (record_type_byte t, d), ?r)"
    using len off is_zeroed_phys [OF t] record_crc_phys [of t d B]
    by (subst read_physical_record.simps) (simp add: B p Let_def)
  have "drop (kHeaderSize + length d) (drop off (lr_block r)) = B" by (simp add: B)
  then have "drop (off + kHeaderSize + length d) (lr_block r) = B" by (simp add: ac_simps)
  moreover have "B @ sf_rest (lr_source r) = T" using S B by simp
  ultimately show "reads ?r (off + kHeaderSize + length d) T"
    using r len by (simp add: reads_def log_damaged_def)
qed

lemma reads_piece:
  assumes "reads r off (piece_bytes off (t, d) @ T)" "off \<le> kBlockSize" "written_type t"
    "frag_start off + kHeaderSize + length d \<le> kBlockSize"
  obtains r' where "read_physical_record r = (Some (record_type_byte t, d), r')"
    "reads r' (next_off off (t, d)) T"
proof -
  have "phys t d @ T \<noteq> []" by (simp add: phys_def)
  moreover have "reads r off (replicate (pad off) 0 @ phys t d @ T)"
    using assms(1) by (simp add: piece_bytes_def)
  ultimately obtain r1 where r1: "read_physical_record r = read_physical_record r1"
      "reads r1 (frag_start off) (phys t d @ T)"
    using reads_next_block assms(2) by blast
  obtain r2 where "read_physical_record r1 = (Some (record_type_byte t, d), r2)"
      "reads r2 (frag_start off + kHeaderSize + length d) T"
    using reads_phys [OF r1(2)] assms by blast
  then show thesis using that r1 by (simp add: next_off_def)
qed

section \<open>Whole records\<close>

lemma next_off_le: "off \<le> kBlockSize \<Longrightarrow> next_off off (t, take (fragment_of off data) data) \<le> kBlockSize"
  using piece_fits [of off data] by (simp add: next_off_def fragment_of_def)

lemma reads_first_piece:
  assumes "reads r off (piece_bytes off (fragment_type f l, take (fragment_of off data) data) @ T)"
    "off \<le> kBlockSize"
  obtains r' where
    "read_physical_record r =
       (Some (record_type_byte (fragment_type f l), take (fragment_of off data) data), r')"
    "reads r' (next_off off (fragment_type f l, take (fragment_of off data) data)) T"
proof -
  have "frag_start off + kHeaderSize + length (take (fragment_of off data) data) \<le> kBlockSize"
    using piece_fits [OF assms(2), of data] by (simp add: fragment_of_def)
  then show thesis using reads_piece [OF assms fragment_type_written] that by blast
qed

lemma fragment_full: "\<not> fragment_of off data < length data \<Longrightarrow> fragment_of off data = length data"
  by (simp add: fragment_of_def)

lemma read_fragments_stream:
  assumes "reads r off (stream off (pieces off data False) @ T)" "off \<le> kBlockSize"
  shows "\<exists>r'. read_fragments r scratch = (Some (scratch @ data), r') \<and>
              reads r' (end_off off (pieces off data False)) T"
  using assms
proof (induction off data False arbitrary: r scratch rule: pieces.induct)
  case (1 off data)
  let ?n = "fragment_of off data"
  let ?p = "(fragment_type False (?n = length data), take ?n data)"
  let ?rest = "if ?n < length data then pieces (next_off off ?p) (drop ?n data) False else []"
  have ps: "pieces off data False = ?p # ?rest"
    by (subst pieces.simps) (simp add: Let_def)
  from "1.prems" have "reads r off (piece_bytes off ?p @ stream (next_off off ?p) ?rest @ T)"
    by (simp add: ps)
  then obtain r1 where r1: "read_physical_record r = (Some (record_type_byte (fst ?p), snd ?p), r1)"
      "reads r1 (next_off off ?p) (stream (next_off off ?p) ?rest @ T)"
    using reads_first_piece "1.prems"(2) by (metis fst_conv snd_conv)
  show ?case
  proof (cases "?n < length data")
    case True
    have "\<exists>r'. read_fragments r1 (scratch @ take ?n data) =
          (Some ((scratch @ take ?n data) @ drop ?n data), r') \<and>
        reads r' (end_off (next_off off ?p) (pieces (next_off off ?p) (drop ?n data) False)) T"
      using r1(2) True next_off_le [OF "1.prems"(2)]
      by (intro "1.hyps" [OF refl refl True]) simp_all
    then show ?thesis
      using r1(1) True by (subst read_fragments.simps) (simp add: fragment_type_def ps end_off_def)
  next
    case False
    then show ?thesis
      using r1 fragment_full [OF False]
      by (subst read_fragments.simps) (simp add: fragment_type_def ps end_off_def)
  qed
qed

text \<open>The reader before its first block, or within a block.\<close>

definition ready :: "LogReader \<Rightarrow> nat \<Rightarrow> bytes \<Rightarrow> bool" where
  "ready r off S \<longleftrightarrow> reads r off S \<or>
     off = 0 \<and> lr_block r = [] \<and> \<not> lr_eof r \<and> \<not> lr_truncated r \<and> \<not> log_damaged r \<and>
     lr_failure_reason r = [] \<and> sf_os (lr_source r) = (\<lambda>_. None) \<and> sf_rest (lr_source r) = S"

lemma ready_reader: "ready (LogReader_ctor (open_sequential path S (\<lambda>_. None))) 0 S"
  by (simp add: ready_def LogReader_ctor_def open_sequential_def log_damaged_def)

lemma ready_cases:
  assumes "ready r off S" "S \<noteq> []"
  obtains r1 where "reads r1 off S"
    "(if lr_block r = [] then load_next_block r else (True, r)) = (True, r1)" "\<not> lr_eof r"
proof (cases "reads r off S")
  case True
  then show thesis using that [of r] by (simp add: reads_def)
next
  case False
  then have r: "off = 0" "lr_block r = []" "\<not> lr_eof r" "\<not> lr_truncated r" "\<not> log_damaged r"
      "lr_failure_reason r = []" "sf_os (lr_source r) = (\<lambda>_. None)" "sf_rest (lr_source r) = S"
    using assms(1) by (auto simp: ready_def)
  then obtain r1 where "load_next_block r = (True, r1)" "reads r1 0 S"
    using load_next_block_reads [of r] assms(2) by blast
  then show thesis using that [of r1] r by simp
qed

lemma stream_pieces_not_Nil: "stream off (pieces off data first) \<noteq> []"
  by (subst pieces.simps) (simp add: Let_def piece_bytes_def phys_def)

lemma read_record_stream:
  assumes "ready r off (stream off (pieces off data True) @ T)" "off \<le> kBlockSize"
  shows "\<exists>r'. read_record r = (Some data, r') \<and> reads r' (end_off off (pieces off data True)) T"
proof -
  let ?n = "fragment_of off data"
  let ?p = "(fragment_type True (?n = length data), take ?n data)"
  let ?rest = "if ?n < length data then pieces (next_off off ?p) (drop ?n data) False else []"
  have ps: "pieces off data True = ?p # ?rest"
    by (subst pieces.simps) (simp add: Let_def)
  obtain r0 where r0: "reads r0 off (stream off (pieces off data True) @ T)"
      "(if lr_block r = [] then load_next_block r else (True, r)) = (True, r0)" "\<not> lr_eof r"
    using ready_cases [OF assms(1)] stream_pieces_not_Nil by (metis Nil_is_append_conv)
  then have "reads r0 off (piece_bytes off ?p @ stream (next_off off ?p) ?rest @ T)"
    by (simp add: ps)
  then obtain r1 where r1: "read_physical_record r0 = (Some (record_type_byte (fst ?p), snd ?p), r1)"
      "reads r1 (next_off off ?p) (stream (next_off off ?p) ?rest @ T)"
    using reads_first_piece assms(2) by (metis fst_conv snd_conv)
  show ?thesis
  proof (cases "?n < length data")
    case True
    have "\<exists>r'. read_fragments r1 (take ?n data) = (Some (take ?n data @ drop ?n data), r') \<and>
        reads r' (end_off (next_off off ?p) (pieces (next_off off ?p) (drop ?n data) False)) T"
      using r1(2) True next_off_le [OF assms(2)] by (intro read_fragments_stream) simp_all
    then show ?thesis
      using r0(2,3) r1(1) True by (auto simp: read_record_def fragment_type_def ps end_off_def)
  next
    case False
    then show ?thesis
      using r0(2,3) r1 fragment_full [OF False]
      by (simp add: read_record_def fragment_type_def ps end_off_def)
  qed
qed

section \<open>Records that are cut short\<close>

lemma reads_cut_phys:
  assumes r: "reads r off (take j (phys t d))" and j: "0 < j" "j < kHeaderSize + length d"
    and fit: "off + kHeaderSize + length d \<le> kBlockSize" and t: "written_type t"
  shows "fst (read_physical_record r) = None"
proof -
  have S: "drop off (lr_block r) @ sf_rest (lr_source r) = take j (phys t d)"
    and off: "lr_block_offset r = off" "off \<le> length (lr_block r)" using r by (simp_all add: reads_def)
  have "length (drop off (lr_block r) @ sf_rest (lr_source r)) = j" using S j by simp
  then have len: "length (lr_block r) - off + length (sf_rest (lr_source r)) = j" by simp
  then have part: "length (lr_block r) \<noteq> kBlockSize" using fit j by linarith
  then have rest: "sf_rest (lr_source r) = []" using r by (simp add: reads_def)
  then have blk: "drop off (lr_block r) = take j (phys t d)" "length (lr_block r) = off + j"
    using S len off by auto
  show ?thesis
  proof (cases "j < kHeaderSize")
    case True
    then show ?thesis using blk off part j(1) by (subst read_physical_record.simps) simp
  next
    case False
    then have p: "parse_header (take j (phys t d)) =
       \<lparr>h_crc = crc32c (record_type_byte t # d), h_length = length d, h_type = record_type_byte t\<rparr>"
      using parse_header_phys [of j d t "[]"] fit by (simp add: wal_sizes)
    show ?thesis
      using blk off False j(2) is_zeroed_phys [OF t]
      by (subst read_physical_record.simps) (simp add: blk(1) p Let_def)
  qed
qed

lemma reads_nothing:
  assumes "reads r off (replicate m 0)" "m \<le> pad off" "off \<le> kBlockSize"
  shows "fst (read_physical_record r) = None \<and>
    (m = 0 \<longrightarrow> \<not> lr_truncated (snd (read_physical_record r)) \<and> \<not> log_damaged (snd (read_physical_record r)))"
proof -
  have S: "drop off (lr_block r) @ sf_rest (lr_source r) = replicate m 0"
    and off: "lr_block_offset r = off" "off \<le> length (lr_block r)" using assms(1) by (simp_all add: reads_def)
  have len: "length (lr_block r) - off + length (sf_rest (lr_source r)) = m"
    using arg_cong [OF S, of length] by simp
  have short: "length (lr_block r) < off + kHeaderSize"
    using len off assms(2) by (auto simp: pad_def wal_sizes split: if_splits)
  show ?thesis
  proof (cases "length (lr_block r) = kBlockSize")
    case True
    then have "sf_rest (lr_source r) = []" using len assms(2) by (auto simp: pad_def split: if_splits)
    then show ?thesis
      using True off short assms(1) load_next_block_end [of r]
      by (subst (1 2 3) read_physical_record.simps) (simp add: reads_def log_damaged_def)
  next
    case False
    then show ?thesis
      using off short assms(1) len
      by (subst (1 2 3) read_physical_record.simps) (auto simp: reads_def log_damaged_def)
  qed
qed

lemma reads_cut_piece:
  assumes r: "reads r off (take m (piece_bytes off (t, d)))" and off: "off \<le> kBlockSize"
    and m: "m < length (piece_bytes off (t, d))"
    and fit: "frag_start off + kHeaderSize + length d \<le> kBlockSize" and t: "written_type t"
  shows "fst (read_physical_record r) = None"
proof (cases "m \<le> pad off")
  case True
  then have "take m (piece_bytes off (t, d)) = replicate m 0" by (simp add: piece_bytes_def)
  then show ?thesis using reads_nothing [of r off m] r True off by simp
next
  case False
  let ?T = "take (m - pad off) (phys t d)"
  have "take m (piece_bytes off (t, d)) = replicate (pad off) 0 @ ?T"
    using False by (simp add: piece_bytes_def)
  moreover have "?T \<noteq> []" using False by simp
  ultimately obtain r' where r': "read_physical_record r = read_physical_record r'"
      "reads r' (frag_start off) ?T"
    using reads_next_block r off by metis
  then show ?thesis
    using reads_cut_phys [OF r'(2) _ _ fit t] False m by simp
qed

lemma reads_cut_first_piece:
  assumes "reads r off (take m (piece_bytes off (fragment_type f l, take (fragment_of off data) data)))"
    "off \<le> kBlockSize" "m < length (piece_bytes off (fragment_type f l, take (fragment_of off data) data))"
  shows "fst (read_physical_record r) = None"
proof (rule reads_cut_piece [OF assms])
  show "frag_start off + kHeaderSize + length (take (fragment_of off data) data) \<le> kBlockSize"
    using piece_fits [OF assms(2), of data] by (simp add: fragment_of_def)
qed simp

lemma read_fragments_None:
  "fst (read_physical_record r) = None \<Longrightarrow> fst (read_fragments r scratch) = None"
  by (subst read_fragments.simps) (auto split: prod.splits option.splits)

lemma read_fragments_cut:
  assumes "reads r off (take m (stream off (pieces off data False)))" "off \<le> kBlockSize"
    "m < length (stream off (pieces off data False))"
  shows "fst (read_fragments r scratch) = None"
  using assms
proof (induction off data False arbitrary: r scratch m rule: pieces.induct)
  case (1 off data)
  let ?n = "fragment_of off data"
  let ?p = "(fragment_type False (?n = length data), take ?n data)"
  let ?rest = "if ?n < length data then pieces (next_off off ?p) (drop ?n data) False else []"
  have ps: "pieces off data False = ?p # ?rest"
    by (subst pieces.simps) (simp add: Let_def)
  show ?case
  proof (cases "m < length (piece_bytes off ?p)")
    case True
    then have "reads r off (take m (piece_bytes off ?p))" using "1.prems"(1) by (simp add: ps)
    then show ?thesis
      using reads_cut_first_piece "1.prems"(2) True read_fragments_None by blast
  next
    case False
    then have more: "?n < length data" using "1.prems"(3) by (auto simp: ps split: if_splits)
    let ?m = "m - length (piece_bytes off ?p)"
    have "take m (stream off (pieces off data False)) =
        piece_bytes off ?p @ take ?m (stream (next_off off ?p) ?rest)"
      using False by (simp add: ps)
    then obtain r1 where r1: "read_physical_record r = (Some (record_type_byte (fst ?p), snd ?p), r1)"
        "reads r1 (next_off off ?p) (take ?m (stream (next_off off ?p) ?rest))"
      using reads_first_piece "1.prems"(1,2) by (metis fst_conv snd_conv)
    have "fst (read_fragments r1 (scratch @ take ?n data)) = None"
      using r1(2) more next_off_le [OF "1.prems"(2)] "1.prems"(3) False
      by (intro "1.hyps" [OF refl refl more, of _ ?m]) (auto simp: ps)
    then show ?thesis
      using r1(1) more by (subst read_fragments.simps) (simp add: fragment_type_def)
  qed
qed

lemma read_record_end:
  assumes "ready r off []" "off \<le> kBlockSize"
  shows "fst (read_record r) = None \<and> \<not> lr_truncated (snd (read_record r)) \<and>
    \<not> log_damaged (snd (read_record r))"
proof (cases "reads r off []")
  case True
  then show ?thesis
    using reads_nothing [of r off 0] assms(2)
    by (auto simp: read_record_def reads_def split: prod.splits option.splits)
next
  case False
  then show ?thesis
    using assms(1) load_next_block_end [of r] by (simp add: ready_def read_record_def log_damaged_def)
qed

lemma read_record_cut:
  assumes "ready r off (take m (stream off (pieces off data True)))" "off \<le> kBlockSize"
    "m < length (stream off (pieces off data True))"
  shows "fst (read_record r) = None"
proof (cases "m = 0")
  case True
  then show ?thesis using read_record_end assms by simp
next
  case False
  let ?n = "fragment_of off data"
  let ?p = "(fragment_type True (?n = length data), take ?n data)"
  let ?rest = "if ?n < length data then pieces (next_off off ?p) (drop ?n data) False else []"
  have ps: "pieces off data True = ?p # ?rest"
    by (subst pieces.simps) (simp add: Let_def)
  have "take m (stream off (pieces off data True)) \<noteq> []"
    using False stream_pieces_not_Nil by simp
  then obtain r0 where r0: "reads r0 off (take m (stream off (pieces off data True)))"
      "(if lr_block r = [] then load_next_block r else (True, r)) = (True, r0)" "\<not> lr_eof r"
    using ready_cases [OF assms(1)] by blast
  show ?thesis
  proof (cases "m < length (piece_bytes off ?p)")
    case True
    then have "reads r0 off (take m (piece_bytes off ?p))" using r0(1) by (simp add: ps)
    then have "fst (read_physical_record r0) = None"
      using reads_cut_first_piece assms(2) True by blast
    then show ?thesis using r0(2,3) by (auto simp: read_record_def split: prod.splits)
  next
    case False
    then have more: "?n < length data" using assms(3) by (auto simp: ps split: if_splits)
    let ?m = "m - length (piece_bytes off ?p)"
    have "take m (stream off (pieces off data True)) =
        piece_bytes off ?p @ take ?m (stream (next_off off ?p) ?rest)"
      using False by (simp add: ps)
    then obtain r1 where r1: "read_physical_record r0 = (Some (record_type_byte (fst ?p), snd ?p), r1)"
        "reads r1 (next_off off ?p) (take ?m (stream (next_off off ?p) ?rest))"
      using reads_first_piece r0(1) assms(2) by (metis fst_conv snd_conv)
    have "fst (read_fragments r1 (take ?n data)) = None"
      using r1(2) more next_off_le [OF assms(2)] assms(3) False
      by (intro read_fragments_cut [of _ _ ?m]) (auto simp: ps)
    then show ?thesis
      using r0(2,3) r1(1) more by (simp add: read_record_def fragment_type_def)
  qed
qed

section \<open>Reading a whole log\<close>

lemma read_fragments_unread:
  "read_fragments r scratch = (Some p, r') \<Longrightarrow> unread r' < unread r"
proof (induction r scratch arbitrary: r' rule: read_fragments.induct)
  case (1 r scratch)
  then obtain t d r1 where r1: "read_physical_record r = (Some (t, d), r1)"
    by (subst (asm) (2) read_fragments.simps) (auto split: prod.splits option.splits)
  then have "unread r1 < unread r" by (rule read_physical_record_unread)
  moreover have "r' = r1 \<or> unread r' < unread r1"
    using "1.IH" [OF r1 [symmetric] refl refl] "1.prems" r1
    by (subst (asm) (2) read_fragments.simps) (auto split: if_splits)
  ultimately show ?case by auto
qed

lemma read_record_unread: "read_record r = (Some p, r') \<Longrightarrow> unread r' < unread r"
proof -
  assume rr: "read_record r = (Some p, r')"
  then obtain r1 where r1: "(if lr_block r = [] then load_next_block r else (True, r)) = (True, r1)"
    by (auto simp: read_record_def split: if_splits prod.splits)
  then have "unread r1 \<le> unread r"
    by (auto simp: unread_def split: if_splits dest!: load_next_block_shrinks)
  moreover have "unread r' < unread r1"
    using rr r1
    by (auto simp: read_record_def split: if_splits prod.splits option.splits
        dest: read_physical_record_unread read_fragments_unread)
      (meson less_trans read_physical_record_unread read_fragments_unread)+
  ultimately show ?thesis by simp
qed

text \<open>The loop every caller runs: records until the reader returns false.\<close>

function read_all :: "LogReader \<Rightarrow> bytes list \<times> LogReader" where
  "read_all r =
     (case read_record r of
        (None, r') \<Rightarrow> ([], r')
      | (Some p, r') \<Rightarrow> (case read_all r' of (ps, r'') \<Rightarrow> (p # ps, r'')))"
  by auto
termination
  by (relation "measure unread") (auto dest!: read_record_unread [OF sym])

declare read_all.simps [simp del]

lemma end_off_le: "off \<le> kBlockSize \<Longrightarrow> end_off off (pieces off data first) \<le> kBlockSize"
proof (induction off data first rule: pieces.induct)
  case (1 off data first)
  have "next_off off (t, data) \<le> kBlockSize" if "\<not> fragment_of off data < length data" for t
    using next_off_le [OF "1.prems", of t data] fragment_full [OF that] by simp
  with 1 show ?case
    using next_off_le [OF "1.prems"] by (subst pieces.simps) (auto simp: Let_def end_off_def)
qed

primrec log_end :: "nat \<Rightarrow> bytes list \<Rightarrow> nat" where
  "log_end off [] = off"
| "log_end off (p # ps) = log_end (end_off off (pieces off p True)) ps"

lemma log_end_le: "off \<le> kBlockSize \<Longrightarrow> log_end off ps \<le> kBlockSize"
  by (induction ps arbitrary: off) (auto simp: end_off_le)

lemma read_all_log:
  assumes "ready r off (log_bytes off ps @ T)" "off \<le> kBlockSize"
  obtains r' where "ready r' (log_end off ps) T"
    "read_all r = (ps @ fst (read_all r'), snd (read_all r'))"
  using assms
proof (induction ps arbitrary: r off thesis)
  case Nil
  then show ?case by simp
next
  case (Cons p ps)
  have "ready r off (stream off (pieces off p True) @ log_bytes (end_off off (pieces off p True)) ps @ T)"
    using Cons.prems by simp
  then obtain r1 where r1: "read_record r = (Some p, r1)"
      "reads r1 (end_off off (pieces off p True)) (log_bytes (end_off off (pieces off p True)) ps @ T)"
    using read_record_stream Cons.prems by blast
  then have "ready r1 (end_off off (pieces off p True)) (log_bytes (end_off off (pieces off p True)) ps @ T)"
    by (simp add: ready_def)
  then obtain r' where "ready r' (log_end (end_off off (pieces off p True)) ps) T"
      "read_all r1 = (ps @ fst (read_all r'), snd (read_all r'))"
    using Cons.IH end_off_le Cons.prems by metis
  then show ?case
    using r1 Cons.prems(1) by (subst (asm) (3) read_all.simps) (auto split: prod.splits)
qed

lemma log_bytes_append: "log_bytes off (ps @ qs) = log_bytes off ps @ log_bytes (log_end off ps) qs"
  by (induction ps arbitrary: off) auto

section \<open>Writers and files\<close>

fun add_records :: "LogWriter \<Rightarrow> bytes list \<Rightarrow> status \<times> LogWriter" where
  "add_records w [] = (status_ok, w)"
| "add_records w (p # ps) =
     (case add_record w p of (s, w') \<Rightarrow> if is_ok s then add_records w' ps else (s, w'))"

abbreviation new_log :: "string \<Rightarrow> (nat \<Rightarrow> (nat \<times> string) option) \<Rightarrow> LogWriter" where
  "new_log path os \<equiv> LogWriter_ctor (open_writable path os)"

abbreviation log_of :: "LogWriter \<Rightarrow> bytes" where
  "log_of w \<equiv> wf_data (lw_dest w)"

abbreviation open_log :: "string \<Rightarrow> bytes \<Rightarrow> LogReader" where
  "open_log path contents \<equiv> LogReader_ctor (open_sequential path contents (\<lambda>_. None))"

lemma new_log_simps [simp]:
  "lw_offset (new_log path os) = 0" "log_of (new_log path os) = []" "wf_open (lw_dest (new_log path os))"
  by (simp_all add: LogWriter_ctor_def open_writable_def)

lemma add_records_data:
  assumes "add_records w ps = (s, w')" "is_ok s"
  shows "log_of w' = log_of w @ log_bytes (lw_offset w) ps \<and> lw_offset w' = log_end (lw_offset w) ps \<and>
    wf_synced (lw_dest w') = wf_synced (lw_dest w) \<and> (wf_open (lw_dest w) \<longrightarrow> wf_open (lw_dest w'))"
  using assms
proof (induction ps arbitrary: w)
  case (Cons p ps)
  then obtain w1 s1 where "add_record w p = (s1, w1)" "is_ok s1" "add_records w1 ps = (s, w')"
    by (auto split: prod.splits if_splits)
  then show ?case using Cons add_record_loop_data [of w p True s1 w1] by (auto simp: add_record_def)
qed simp

lemma add_record_loop_grows:
  "add_record_loop w data first = (s, w') \<Longrightarrow>
   prefix (log_of w) (log_of w') \<and> wf_synced (lw_dest w') = wf_synced (lw_dest w)"
proof (induction w data first arbitrary: s w' rule: add_record_loop.induct)
  case (1 w data first)
  obtain s1 w1 where p: "pad_block w = (s1, w1)" by fastforce
  then have g1: "prefix (log_of w) (log_of w1)" "wf_synced (lw_dest w1) = wf_synced (lw_dest w)"
    by (auto simp: pad_block_def Let_def split: if_splits prod.splits dest: wf_append_grows)
  let ?a = "kBlockSize - lw_offset w1 - kHeaderSize"
  let ?n = "if length data < ?a then length data else ?a"
  obtain s2 w2 where e: "emit_physical_record w1 (fragment_type first (?n = length data)) (take ?n data) = (s2, w2)"
    by fastforce
  then have g2: "prefix (log_of w1) (log_of w2)" "wf_synced (lw_dest w2) = wf_synced (lw_dest w1)"
    by (auto simp: emit_physical_record_def Let_def split: if_splits prod.splits
        dest!: wf_append_grows intro: prefix_order.trans)
  show ?case
  proof (cases "is_ok s1 \<and> is_ok s2 \<and> 0 < length data - ?n")
    case True
    then have rec: "add_record_loop w2 (drop ?n data) False = (s, w')"
      using "1.prems" by (subst (asm) add_record_loop.simps) (simp only: p e Let_def prod.case if_True if_False not_not simp_thms)
    show ?thesis
      using "1.IH" [OF p [symmetric] _ refl refl refl e [symmetric] _ _ rec] True g1 g2
      by (auto intro: prefix_order.trans)
  next
    case False
    have "w' = w1 \<or> w' = w2"
      using "1.prems" False unfolding add_record_loop.simps [of w data first] p Let_def prod.case e
      by (auto split: if_splits)
    then show ?thesis using g1 g2 by (auto intro: prefix_order.trans)
  qed
qed

lemma add_records_grows:
  "add_records w ps = (s, w') \<Longrightarrow>
   prefix (log_of w) (log_of w') \<and> wf_synced (lw_dest w') = wf_synced (lw_dest w)"
proof (induction ps arbitrary: w)
  case (Cons p ps)
  obtain s1 w1 where r: "add_record w p = (s1, w1)" by fastforce
  then have "prefix (log_of w) (log_of w1) \<and> wf_synced (lw_dest w1) = wf_synced (lw_dest w)"
    using add_record_loop_grows by (simp add: add_record_def)
  then show ?case using Cons r by (auto split: if_splits intro: prefix_order.trans)
qed simp

text \<open>A file the operating system never refuses: every call succeeds.\<close>

definition healthy :: "WritableFile \<Rightarrow> bool" where
  "healthy f \<longleftrightarrow> wf_open f \<and> wf_os f = (\<lambda>_. None)"

lemma healthy_append: "healthy f \<Longrightarrow> \<exists>f'. wf_append f d = (status_ok, f') \<and> healthy f'"
  by (simp add: healthy_def wf_append_def Let_def)

lemma healthy_sync: "healthy f \<Longrightarrow> \<exists>f'. wf_sync f = (status_ok, f') \<and> healthy f'"
  by (simp add: healthy_def wf_sync_def wf_flush_def Let_def)

lemma healthy_pad: "healthy (lw_dest w) \<Longrightarrow> \<exists>w'. pad_block w = (status_ok, w') \<and> healthy (lw_dest w')"
  using healthy_append [of "lw_dest w" "replicate (kBlockSize - lw_offset w) 0"]
  by (auto simp: pad_block_def Let_def)

lemma healthy_emit:
  "healthy (lw_dest w) \<Longrightarrow> \<exists>w'. emit_physical_record w t d = (status_ok, w') \<and> healthy (lw_dest w')"
proof -
  assume "healthy (lw_dest w)"
  then obtain f1 where "wf_append (lw_dest w) (put_fixed32 []
        (crc32c_extend (crc32c_extend 0 [record_type_byte t]) d) @
        [word_of_nat (length d), word_of_nat (length d div 256), record_type_byte t]) = (status_ok, f1)"
      and h: "healthy f1"
    using healthy_append by blast
  moreover obtain f2 where "wf_append f1 d = (status_ok, f2)" "healthy f2"
    using healthy_append h by blast
  ultimately show ?thesis by (simp add: emit_physical_record_def Let_def del: crc32c_extend_append)
qed

lemma healthy_add_loop:
  "healthy (lw_dest w) \<Longrightarrow> \<exists>w'. add_record_loop w data first = (status_ok, w') \<and> healthy (lw_dest w')"
proof (induction w data first rule: add_record_loop.induct)
  case (1 w data first)
  obtain w1 where p: "pad_block w = (status_ok, w1)" "healthy (lw_dest w1)"
    using healthy_pad "1.prems" by blast
  let ?a = "kBlockSize - lw_offset w1 - kHeaderSize"
  let ?n = "if length data < ?a then length data else ?a"
  obtain w2 where e: "emit_physical_record w1 (fragment_type first (?n = length data)) (take ?n data)
      = (status_ok, w2)" "healthy (lw_dest w2)"
    using healthy_emit p(2) by blast
  have IH: "0 < length data - ?n \<Longrightarrow>
      \<exists>w'. add_record_loop w2 (drop ?n data) False = (status_ok, w') \<and> healthy (lw_dest w')"
    using "1.IH" [OF p(1) [symmetric] _ refl refl refl e(1) [symmetric] _ _ e(2)] by simp
  then show ?case
    unfolding add_record_loop.simps [of w data first] p(1) Let_def prod.case e(1) using e(2) by simp
qed

lemma healthy_add_records:
  "healthy (lw_dest w) \<Longrightarrow> \<exists>w'. add_records w ps = (status_ok, w') \<and> healthy (lw_dest w')"
proof (induction ps arbitrary: w)
  case (Cons p ps)
  then obtain w1 where "add_record w p = (status_ok, w1)" "healthy (lw_dest w1)"
    using healthy_add_loop [of w p True] by (auto simp: add_record_def)
  then show ?case using Cons.IH by simp
qed simp

lemma healthy_new_log [simp]: "healthy (lw_dest (new_log path (\<lambda>_. None)))"
  by (simp add: healthy_def LogWriter_ctor_def open_writable_def)

section \<open>Damaged fragments\<close>

text \<open>A fragment whose payload does not match its checksum is not delivered.\<close>

lemma reads_damaged:
  assumes r: "reads r off (take kHeaderSize (phys t d) @ d' @ T)" and d: "length d' = length d"
    and fit: "off + kHeaderSize + length d \<le> kBlockSize" and t: "written_type t"
    and crc: "crc32c (record_type_byte t # d') \<noteq> crc32c (record_type_byte t # d)"
  shows "fst (read_physical_record r) = None"
proof -
  let ?h = "take kHeaderSize (phys t d)"
  have off: "lr_block_offset r = off" "off \<le> length (lr_block r)" using r by (simp_all add: reads_def)
  have S: "drop off (lr_block r) @ sf_rest (lr_source r) = ?h @ d' @ T" using r by (simp add: reads_def)
  have len: "off + kHeaderSize + length d \<le> length (lr_block r)"
  proof (cases "length (lr_block r) = kBlockSize")
    case False
    then have "drop off (lr_block r) = ?h @ d' @ T" using r S by (simp add: reads_def)
    then have "length (drop off (lr_block r)) = kHeaderSize + length d + length T" using d by simp
    then show ?thesis using off by (simp add: wal_sizes)
  qed (use fit in simp)
  have "take (kHeaderSize + length d) (drop off (lr_block r)) = ?h @ d'"
    using arg_cong [OF S, of "take (kHeaderSize + length d)"] len d by simp
  then obtain B where B: "drop off (lr_block r) = ?h @ d' @ B"
    by (metis append.assoc append_take_drop_id)
  have p: "parse_header (?h @ d' @ B) =
     \<lparr>h_crc = crc32c (record_type_byte t # d), h_length = length d, h_type = record_type_byte t\<rparr>"
    using parse_header_phys [of kHeaderSize d t "d' @ B"] fit by (simp add: wal_sizes)
  have "(?h @ d' @ B) ! 6 = record_type_byte t"
    using arg_cong [OF p, of h_type] by (simp add: parse_header_def)
  then have "record_crc (?h @ d' @ B) (length d) = crc32c (record_type_byte t # d')"
    using d by (simp add: record_crc_def crc32c_def)
  then show ?thesis
    using len off is_zeroed_phys [OF t] crc
    by (subst read_physical_record.simps) (simp add: B p Let_def)
qed

lemma length_stream_ge:
  "kHeaderSize + length data \<le> length (stream off (pieces off data first))"
proof (induction off data first rule: pieces.induct)
  case (1 off data first)
  show ?case
  proof (cases "fragment_of off data < length data")
    case True
    then show ?thesis using "1.IH" [OF refl refl True] by (subst pieces.simps) (simp add: Let_def)
  next
    case False
    then show ?thesis using fragment_full [OF False] by (subst pieces.simps) (simp add: Let_def)
  qed
qed

lemma single_fragment:
  assumes "length (stream off (pieces off data True)) < 2 * kHeaderSize + length data"
  shows "pieces off data True = [(kFull, data)] \<and> fragment_of off data = length data"
proof (cases "fragment_of off data < length data")
  case True
  let ?n = "fragment_of off data"
  have "kHeaderSize + length (drop ?n data) \<le>
      length (stream (next_off off (kFirst, take ?n data)) (pieces (next_off off (kFirst, take ?n data)) (drop ?n data) False))"
    by (rule length_stream_ge)
  then show ?thesis
    using assms True by (subst (asm) (2) pieces.simps) (simp add: Let_def fragment_type_def)
next
  case False
  then show ?thesis
    using fragment_full [OF False] by (subst pieces.simps) (simp add: Let_def fragment_type_def)
qed

lemma read_all_stop: "fst (read_record r) = None \<Longrightarrow> fst (read_all r) = []"
  by (subst read_all.simps) (auto split: prod.splits option.splits)

lemma ready_damaged_record:
  assumes r: "ready r off (replicate (pad off) 0 @ take kHeaderSize (phys kFull d) @ d' @ T)"
    and off: "off \<le> kBlockSize" and d: "length d' = length d" and single: "fragment_of off d = length d"
    and crc: "crc32c (record_type_byte kFull # d') \<noteq> crc32c (record_type_byte kFull # d)"
  shows "fst (read_record r) = None"
proof -
  let ?T = "take kHeaderSize (phys kFull d) @ d' @ T"
  have T: "?T \<noteq> []" by (simp add: kHeaderSize_def)
  then obtain r0 where r0: "reads r0 off (replicate (pad off) 0 @ ?T)"
      "(if lr_block r = [] then load_next_block r else (True, r)) = (True, r0)" "\<not> lr_eof r"
    using ready_cases [OF r] by blast
  then obtain r1 where r1: "read_physical_record r0 = read_physical_record r1" "reads r1 (frag_start off) ?T"
    using reads_next_block T off by blast
  have "frag_start off + kHeaderSize + length d \<le> kBlockSize"
    using piece_fits [OF off, of d] single by simp
  then have "fst (read_physical_record r0) = None"
    using reads_damaged [OF r1(2) d _ _ crc] r1(1) by (simp add: written_type_def)
  then show ?thesis using r0(2,3) by (auto simp: read_record_def split: prod.splits)
qed

lemma read_log:
  "\<exists>r'. ready r' (log_end 0 ps) T \<and>
     read_all (open_log path (log_bytes 0 ps @ T)) = (ps @ fst (read_all r'), snd (read_all r'))"
  by (rule read_all_log [OF ready_reader]) auto

lemma read_all_cut:
  assumes "ready r off (take n (log_bytes off ps))" "off \<le> kBlockSize"
  shows "\<exists>k \<le> length ps. fst (read_all r) = take k ps \<and> length (log_bytes off (take k ps)) \<le> n \<and>
    (k < length ps \<longrightarrow> n < length (log_bytes off (take (Suc k) ps)))"
  using assms
proof (induction ps arbitrary: r off n)
  case Nil
  then show ?case using read_record_end read_all_stop by fastforce
next
  case (Cons p ps)
  let ?S = "stream off (pieces off p True)" and ?e = "end_off off (pieces off p True)"
  show ?case
  proof (cases "n < length ?S")
    case True
    then have "ready r off (take n ?S)" using Cons.prems(1) by simp
    then have "fst (read_all r) = []" using read_record_cut Cons.prems(2) True read_all_stop by blast
    then show ?thesis using True by (intro exI [of _ 0]) simp
  next
    case False
    then have "ready r off (?S @ take (n - length ?S) (log_bytes ?e ps))" using Cons.prems(1) by simp
    then obtain r1 where r1: "read_record r = (Some p, r1)" "reads r1 ?e (take (n - length ?S) (log_bytes ?e ps))"
      using read_record_stream Cons.prems(2) by blast
    then obtain k where "k \<le> length ps" "fst (read_all r1) = take k ps"
        "length (log_bytes ?e (take k ps)) \<le> n - length ?S"
        "k < length ps \<longrightarrow> n - length ?S < length (log_bytes ?e (take (Suc k) ps))"
      using Cons.IH [of r1 ?e "n - length ?S"] end_off_le Cons.prems(2) by (auto simp: ready_def)
    moreover have "fst (read_all r) = p # fst (read_all r1)"
      using r1(1) by (subst read_all.simps) (auto split: prod.splits)
    ultimately show ?thesis using False by (intro exI [of _ "Suc k"]) auto
  qed
qed

lemma add_records_take:
  "add_records w ps = (s, w') \<Longrightarrow> is_ok s \<Longrightarrow> \<exists>wk. add_records w (take k ps) = (status_ok, wk)"
proof (induction ps arbitrary: w k)
  case (Cons p ps)
  then show ?case by (cases k) (auto split: prod.splits if_splits)
qed simp

lemma log_of_take:
  assumes "add_records (new_log path os) ps = (s, w)" "is_ok s"
  shows "log_of (snd (add_records (new_log path os) (take k ps))) = log_bytes 0 (take k ps)"
proof -
  obtain wk where wk: "add_records (new_log path os) (take k ps) = (status_ok, wk)"
    using add_records_take [OF assms] by blast
  then show ?thesis using add_records_data [OF wk] by simp
qed

section \<open>Properties\<close>

text \<open>
  C6. Synced records survive a power cut.  Whatever records are added to a new
  log, once a sync succeeded every record added before it is read back, in order
  and unchanged and before anything else, from any file that starts with the
  synced bytes: later additions may have failed half way, and the bytes after the
  synced ones may be lost, zeroed or garbage.
\<close>

theorem wal_synced_records_survive:
  assumes "add_records (new_log path os) ps = (s1, w1)" "is_ok s1"
    and "log_sync w1 = (s2, w2)" "is_ok s2"
    and "add_records w2 qs = (s3, w3)"
    and "survives_power_cut (lw_dest w3) contents"
  shows "prefix ps (fst (read_all (open_log path contents)))"
proof -
  have w1: "log_of w1 = log_bytes 0 ps" "wf_open (lw_dest w1)"
    using add_records_data [OF assms(1,2)] by auto
  have w2: "log_of w2 = log_of w1" "wf_synced (lw_dest w2) = length (log_of w1)"
    using assms(3,4) w1 by (auto simp: log_sync_def split: prod.splits dest!: wf_sync_ok)
  have "prefix (log_of w1) (log_of w3)" "wf_synced (lw_dest w3) = length (log_of w1)"
    using add_records_grows [OF assms(5)] w2 by auto
  then have "take (wf_synced (lw_dest w3)) (log_of w3) = log_bytes 0 ps"
    using w1 by (auto simp: prefix_def)
  then obtain T where T: "contents = log_bytes 0 ps @ T"
    using assms(6) by (auto simp: survives_power_cut_def prefix_def)
  then show ?thesis using read_log [of ps T path] by auto
qed

theorem wal_synced_records_survive_witness:
  "\<exists>w1 w2 w3. add_records (new_log ''a'' (\<lambda>_. None)) [[1, 2], []] = (status_ok, w1) \<and>
     log_sync w1 = (status_ok, w2) \<and> add_records w2 [[3]] = (status_ok, w3) \<and>
     prefix [[1, 2], []] (fst (read_all (open_log ''a'' (log_of w2 @ [7, 7]))))"
proof -
  obtain w1 where w1: "add_records (new_log ''a'' (\<lambda>_. None)) [[1, 2], []] = (status_ok, w1)"
      "healthy (lw_dest w1)"
    using healthy_add_records [OF healthy_new_log] by blast
  obtain w2 where w2: "log_sync w1 = (status_ok, w2)" "healthy (lw_dest w2)"
    using healthy_sync [OF w1(2)] by (auto simp: log_sync_def)
  obtain w3 where w3: "add_records w2 [[3]] = (status_ok, w3)"
    using healthy_add_records [OF w2(2)] by blast
  have "log_of w2 = log_of w1" "wf_synced (lw_dest w2) = length (log_of w2)"
    using w1 w2 by (auto simp: log_sync_def healthy_def split: prod.splits dest!: wf_sync_ok)
  then have "survives_power_cut (lw_dest w3) (log_of w2 @ [7, 7])"
    using add_records_grows [OF w3] by (auto simp: survives_power_cut_def prefix_def)
  from wal_synced_records_survive [OF w1(1) _ w2(1) _ w3 this] show ?thesis
    using w1 w2 w3 by auto
qed

text \<open>
  C11. A log cut anywhere reads as a prefix of what was written.  If the file of a
  log is cut after any number n of bytes, the reader returns exactly the first k
  records, where the file held those k records within its first n bytes and did
  not hold record k + 1.
\<close>

theorem wal_cut_reads_prefix:
  assumes "add_records (new_log path os) ps = (s, w)" "is_ok s"
  shows "\<exists>k \<le> length ps.
    fst (read_all (open_log path (take n (log_of w)))) = take k ps \<and>
    length (log_of (snd (add_records (new_log path os) (take k ps)))) \<le> n \<and>
    (k < length ps \<longrightarrow> n < length (log_of (snd (add_records (new_log path os) (take (Suc k) ps)))))"
proof -
  have w: "log_of w = log_bytes 0 ps" using add_records_data [OF assms] by simp
  show ?thesis
    unfolding log_of_take [OF assms] w by (rule read_all_cut [OF ready_reader]) simp
qed

theorem wal_cut_reads_prefix_witness:
  "\<exists>w. add_records (new_log ''a'' (\<lambda>_. None)) [[1, 2], [3]] = (status_ok, w) \<and>
     fst (read_all (open_log ''a'' (take 9 (log_of w)))) = [[1, 2]]"
proof -
  obtain w where w: "add_records (new_log ''a'' (\<lambda>_. None)) [[1, 2], [3]] = (status_ok, w)"
    using healthy_add_records [OF healthy_new_log] by blast
  have len: "length (log_of (snd (add_records (new_log ''a'' (\<lambda>_. None)) (take k [[1, 2], [3]])))) =
      (if k = 0 then 0 else if k = 1 then 9 else 17)" for k
    unfolding log_of_take [OF w is_ok_status_ok]
    by (cases k; cases "k - 1") (simp_all add: pieces.simps fragment_of_def frag_start_def pad_def
        next_off_def end_off_def wal_sizes Let_def)
  obtain k where k: "k \<le> length [[1, 2], [3 :: byte]]"
      "fst (read_all (open_log ''a'' (take 9 (log_of w)))) = take k [[1, 2], [3]]"
      "(if k = 0 then 0 else if k = 1 then 9 else 17) \<le> (9 :: nat)"
      "k < length [[1, 2], [3 :: byte]] \<longrightarrow>
         (9 :: nat) < (if Suc k = 0 then 0 else if Suc k = 1 then 9 else 17)"
    using wal_cut_reads_prefix [OF w is_ok_status_ok, of 9] unfolding len by blast
  then have "k = 1" by (cases k) (auto split: if_splits)
  then show ?thesis using w k(2) by auto
qed

text \<open>
  C12. A complete log reads back as it was written.  The reader returns exactly
  the records that were added, reports no truncation and no damage.
\<close>

theorem wal_round_trip:
  assumes "add_records (new_log path os) ps = (s, w)" "is_ok s"
    and "read_all (open_log path (log_of w)) = (qs, r)"
  shows "qs = ps \<and> \<not> lr_truncated r \<and> \<not> log_damaged r"
proof -
  have w: "log_of w = log_bytes 0 ps" using add_records_data [OF assms(1,2)] by simp
  obtain r' where r': "ready r' (log_end 0 ps) []"
      "read_all (open_log path (log_of w)) = (ps @ fst (read_all r'), snd (read_all r'))"
    using read_log [of ps "[]" path] w by auto
  have "fst (read_record r') = None \<and> \<not> lr_truncated (snd (read_record r')) \<and> \<not> log_damaged (snd (read_record r'))"
    using read_record_end [OF r'(1)] log_end_le by simp
  then have "fst (read_all r') = []" "\<not> lr_truncated (snd (read_all r'))" "\<not> log_damaged (snd (read_all r'))"
    by (subst read_all.simps; auto split: prod.splits)+
  then show ?thesis using r'(2) assms(3) by auto
qed

theorem wal_round_trip_witness:
  "\<exists>w. add_records (new_log ''a'' (\<lambda>_. None)) [[1, 2], []] = (status_ok, w) \<and>
     fst (read_all (open_log ''a'' (log_of w))) = [[1, 2], []]"
proof -
  obtain w where w: "add_records (new_log ''a'' (\<lambda>_. None)) [[1, 2], []] = (status_ok, w)"
    using healthy_add_records [OF healthy_new_log] by blast
  show ?thesis
    using wal_round_trip [OF w is_ok_status_ok, of "fst (read_all (open_log ''a'' (log_of w)))"
        "snd (read_all (open_log ''a'' (log_of w)))"] w by auto
qed

text \<open>
  C14. Damage is never returned as data.  Take a log, append one more record that
  fits one fragment, and replace up to four consecutive bytes of its payload by
  others: the reader returns the records before it and stops there, whatever the
  rest of the file holds.
\<close>

theorem wal_damage_not_returned:
  assumes "add_records (new_log path os) ps = (s, w)" "is_ok s"
    and "add_record w (a @ x @ b) = (s', w')" "is_ok s'"
    and "log_of w' = log_of w @ frame @ a @ x @ b" "length frame < 2 * kHeaderSize"
    and "length x = length y" "length x \<le> 4" "x \<noteq> y"
  shows "fst (read_all (open_log path (log_of w @ frame @ a @ y @ b @ T))) = ps"
proof -
  let ?p = "a @ x @ b" and ?off = "log_end 0 ps"
  have w: "log_of w = log_bytes 0 ps" "lw_offset w = ?off"
    using add_records_data [OF assms(1,2)] by auto
  have off: "?off \<le> kBlockSize" using log_end_le by simp
  have frame: "frame @ ?p = stream ?off (pieces ?off ?p True)"
    using add_record_loop_data [OF assms(3) [unfolded add_record_def] assms(4)] assms(5) w by simp
  then have "length (stream ?off (pieces ?off ?p True)) = length frame + length ?p"
    by (metis length_append)
  then have single: "pieces ?off ?p True = [(kFull, ?p)]" "fragment_of ?off ?p = length ?p"
    using single_fragment [of ?off ?p] assms(6) by simp_all
  have "frame @ ?p = (replicate (pad ?off) 0 @ take kHeaderSize (phys kFull ?p)) @ ?p"
    using append_take_drop_id [of kHeaderSize "phys kFull ?p"] drop_phys [of kFull ?p]
    by (metis append.assoc append.right_neutral frame piece_bytes_def prod.sel single(1) stream.simps)
  then have fr: "frame = replicate (pad ?off) 0 @ take kHeaderSize (phys kFull ?p)" by simp
  obtain r' where r': "ready r' ?off (frame @ a @ y @ b @ T)"
      "read_all (open_log path (log_of w @ frame @ a @ y @ b @ T)) = (ps @ fst (read_all r'), snd (read_all r'))"
    using read_log [of ps "frame @ a @ y @ b @ T" path] w by auto
  have "fst (read_record r') = None"
  proof (rule ready_damaged_record [OF _ off _ single(2)])
    show "ready r' ?off (replicate (pad ?off) 0 @ take kHeaderSize (phys kFull ?p) @ (a @ y @ b) @ T)"
      using r'(1) fr by simp
    show "crc32c (record_type_byte kFull # a @ y @ b) \<noteq> crc32c (record_type_byte kFull # ?p)"
      using crc32c_burst [of x y "record_type_byte kFull # a" b] assms(7-9) by simp
  qed (use assms(7) in simp)
  then show ?thesis using r'(2) read_all_stop by simp
qed

theorem wal_damage_not_returned_witness:
  "\<exists>w w' frame. add_records (new_log ''a'' (\<lambda>_. None)) [[9]] = (status_ok, w) \<and>
     add_record w [1, 2, 3] = (status_ok, w') \<and> log_of w' = log_of w @ frame @ [1, 2, 3] \<and>
     fst (read_all (open_log ''a'' (log_of w @ frame @ [1, 0, 3]))) = [[9]]"
proof -
  obtain w where w: "add_records (new_log ''a'' (\<lambda>_. None)) [[9]] = (status_ok, w)" "healthy (lw_dest w)"
    using healthy_add_records [OF healthy_new_log] by blast
  obtain w' where w': "add_record w [1, 2, 3] = (status_ok, w')"
    using healthy_add_loop [OF w(2)] by (auto simp: add_record_def)
  have "log_of w' = log_of w @ stream 8 (pieces 8 [1, 2, 3] True)"
    using add_record_loop_data [OF w' [unfolded add_record_def]] add_records_data [OF w(1)]
    by (simp add: pieces.simps fragment_of_def frag_start_def next_off_def end_off_def wal_sizes Let_def)
  also have "stream 8 (pieces 8 [1, 2, 3] True) = take 7 (phys kFull [1, 2, 3]) @ [1, 2, 3]"
    by (simp add: pieces.simps fragment_of_def frag_start_def pad_def piece_bytes_def wal_sizes
        Let_def fragment_type_def phys_def)
  finally have log: "log_of w' = log_of w @ take 7 (phys kFull [1, 2, 3]) @ [1] @ [2] @ [3]" by simp
  have "fst (read_all (open_log ''a'' (log_of w @ take 7 (phys kFull [1, 2, 3]) @ [1] @ [0] @ [3] @ []))) = [[9]]"
    by (rule wal_damage_not_returned [OF w(1) is_ok_status_ok _ is_ok_status_ok log]) (use w' in \<open>simp_all add: wal_sizes\<close>)
  then show ?thesis using w w' log by (intro exI [of _ w] exI [of _ w'] exI) auto
qed

end
