(* ===== verification/Dbformat.thy ===== *)
theory Dbformat
  imports Encoding
begin

text \<open>
  src/dbformat.hpp and src/dbformat.cpp: the internal key, which is the user key
  followed by eight bytes holding the sequence number and the value type, the
  order on internal keys, and the lookup key a read builds once.
\<close>

section \<open>Strings compared as string views\<close>

text \<open>std::string_view::compare: unsigned bytes from the left, then the lengths.\<close>

fun sv_compare :: "bytes \<Rightarrow> bytes \<Rightarrow> int" where
  "sv_compare [] [] = 0"
| "sv_compare [] (b # bs) = -1"
| "sv_compare (a # as) [] = 1"
| "sv_compare (a # as) (b # bs) =
     (if a < b then -1 else if b < a then 1 else sv_compare as bs)"

section \<open>Internal keys\<close>

datatype ValueType = kDeletion | kValue

definition value_type_byte :: "ValueType \<Rightarrow> byte" where
  "value_type_byte t = (case t of kDeletion \<Rightarrow> 0 | kValue \<Rightarrow> 1)"

definition kValueTypeForSeek :: ValueType where
  "kValueTypeForSeek = kValue"

definition kMaxSequenceNumber :: u64 where
  "kMaxSequenceNumber = push_bit 56 1 - 1"

definition pack_sequence_and_type :: "u64 \<Rightarrow> ValueType \<Rightarrow> u64" where
  "pack_sequence_and_type seq t = push_bit 8 seq OR ucast (value_type_byte t)"

record ParsedInternalKey =
  user_key :: bytes
  sequence :: u64
  key_type :: ValueType

definition append_internal_key :: "bytes \<Rightarrow> ParsedInternalKey \<Rightarrow> bytes" where
  "append_internal_key dst key =
     put_fixed64 (dst @ user_key key) (pack_sequence_and_type (sequence key) (key_type key))"

definition make_internal_key :: "bytes \<Rightarrow> u64 \<Rightarrow> ValueType \<Rightarrow> bytes" where
  "make_internal_key uk seq t =
     append_internal_key [] \<lparr>user_key = uk, sequence = seq, key_type = t\<rparr>"

text \<open>
  On a key shorter than eight bytes size() - 8 wraps to a huge count and substr
  clamps it to the whole key.  The trailer of such a key would be read from outside it;
  here it is decoded from the bytes there are, and no key of the engine is that short.
\<close>

definition extract_user_key :: "bytes \<Rightarrow> bytes" where
  "extract_user_key k = (if length k < 8 then k else take (length k - 8) k)"

definition trailer :: "bytes \<Rightarrow> u64" where
  "trailer k = decode_fixed64 (drop (length k - 8) k)"

definition extract_sequence :: "bytes \<Rightarrow> u64" where
  "extract_sequence k = drop_bit 8 (trailer k)"

definition extract_value_type :: "bytes \<Rightarrow> byte" where
  "extract_value_type k = ucast (trailer k AND 0xff)"

definition parse_internal_key :: "bytes \<Rightarrow> ParsedInternalKey option" where
  "parse_internal_key k =
     (if length k < 8 then None
      else let t = ucast (trailer k AND 0xff) :: byte in
        if t = value_type_byte kValue \<or> t = value_type_byte kDeletion
        then Some \<lparr>user_key = take (length k - 8) k,
                   sequence = drop_bit 8 (trailer k),
                   key_type = (if t = value_type_byte kValue then kValue else kDeletion)\<rparr>
        else None)"

definition compare_internal_keys :: "bytes \<Rightarrow> bytes \<Rightarrow> int" where
  "compare_internal_keys a b =
     (let by_user = sv_compare (extract_user_key a) (extract_user_key b) in
      if by_user \<noteq> 0 then by_user
      else if trailer a > trailer b then -1
      else if trailer a < trailer b then 1
      else 0)"

definition make_lookup_key :: "bytes \<Rightarrow> u64 \<Rightarrow> bytes" where
  "make_lookup_key uk snapshot = make_internal_key uk snapshot kValueTypeForSeek"

text \<open>
  A LookupKey is one buffer and three positions in it: start_, kstart_ and end_.
  Whether the buffer is the inline array or the heap changes no byte of it.
\<close>

record LookupKey =
  lk_buf :: bytes
  lk_kstart :: nat
  lk_end :: nat

definition LookupKey_ctor :: "bytes \<Rightarrow> u64 \<Rightarrow> LookupKey" where
  "LookupKey_ctor uk snapshot =
     (let internal_size = length uk + 8;
          prefix = put_varint (word_of_nat internal_size :: u32);
          buf = prefix @ uk @ encode_fixed64 (pack_sequence_and_type snapshot kValueTypeForSeek)
      in \<lparr>lk_buf = buf, lk_kstart = length prefix,
          lk_end = length prefix + length uk + 8\<rparr>)"

definition lk_memtable_key :: "LookupKey \<Rightarrow> bytes" where
  "lk_memtable_key lk = take (lk_end lk) (lk_buf lk)"

definition lk_internal_key :: "LookupKey \<Rightarrow> bytes" where
  "lk_internal_key lk = take (lk_end lk - lk_kstart lk) (drop (lk_kstart lk) (lk_buf lk))"

definition lk_user_key :: "LookupKey \<Rightarrow> bytes" where
  "lk_user_key lk = take (lk_end lk - lk_kstart lk - 8) (drop (lk_kstart lk) (lk_buf lk))"

section \<open>Lemmas: string order\<close>

lemma sv_compare_eq [order_simps]: "sv_compare a b = 0 \<longleftrightarrow> a = b"
  by (induction a b rule: sv_compare.induct) auto

lemma sv_compare_less [order_simps]: "sv_compare a b < 0 \<longleftrightarrow> a < b"
  by (induction a b rule: sv_compare.induct) auto

lemma sv_compare_greater [order_simps]: "0 < sv_compare a b \<longleftrightarrow> b < a"
  by (induction a b rule: sv_compare.induct) auto

lemma sv_compare_self [simp]: "sv_compare a a = 0"
  by (simp add: sv_compare_eq)

section \<open>Lemmas: trailers\<close>

lemma bit_decode_fixed64:
  "bit (decode_fixed64 p) k \<longleftrightarrow> k < 64 \<and> bit (p ! (k div 8)) (k mod 8)"
proof -
  have "bit (foldl (\<lambda>value i. value OR push_bit (8 * i) (ucast (p ! i))) (0 :: u64) [0..<n]) k
        \<longleftrightarrow> k < 64 \<and> k < 8 * n \<and> bit (p ! (k div 8)) (k mod 8)" for n
  proof (induction n)
    case (Suc n)
    have "8 * n \<le> k \<and> bit (p ! n) (k - 8 * n) \<longleftrightarrow>
          k div 8 = n \<and> bit (p ! (k div 8)) (k mod 8)"
    proof (cases "k div 8 = n")
      case True
      then show ?thesis by (auto simp: minus_mult_div_eq_mod)
    next
      case False
      then have "8 * n \<le> k \<Longrightarrow> 8 \<le> k - 8 * n" by presburger
      then show ?thesis using False bit_byte_lt by (auto dest!: bit_byte_lt)
    qed
    then show ?case using Suc by (auto simp: bit_simps dest: bit_u64_lt)
  qed simp
  from this [of 8] show ?thesis by (auto simp: decode_fixed64_def)
qed

lemma encode_decode_fixed64: "length p = 8 \<Longrightarrow> encode_fixed64 (decode_fixed64 p) = p"
proof (rule nth_equalityI)
  fix i assume *: "length p = 8" "i < length (encode_fixed64 (decode_fixed64 p))"
  show "encode_fixed64 (decode_fixed64 p) ! i = p ! i"
  proof (rule bit_word_eqI)
    fix j assume "j < LENGTH(8)"
    then show "bit (encode_fixed64 (decode_fixed64 p) ! i) j \<longleftrightarrow> bit (p ! i) j"
      using * by (simp add: encode_fixed64_def ff_mask bit_simps bit_decode_fixed64)
  qed
qed simp

lemma decode_fixed64_inj:
  "length p = 8 \<Longrightarrow> length q = 8 \<Longrightarrow> decode_fixed64 p = decode_fixed64 q \<Longrightarrow> p = q"
  by (metis encode_decode_fixed64)

lemma key_split: "8 \<le> length k \<Longrightarrow> extract_user_key k @ drop (length k - 8) k = k"
  by (simp add: extract_user_key_def)

lemma key_eqI:
  assumes "8 \<le> length a" "8 \<le> length b" "extract_user_key a = extract_user_key b"
    "trailer a = trailer b"
  shows "a = b"
proof -
  have "drop (length a - 8) a = drop (length b - 8) b"
    using assms by (intro decode_fixed64_inj) (simp_all add: trailer_def)
  then have "extract_user_key a @ drop (length a - 8) a = extract_user_key b @ drop (length b - 8) b"
    using assms(3) by simp
  then show ?thesis using assms(1,2) by (simp only: key_split)
qed

lemma length_make_internal_key [simp]: "length (make_internal_key uk seq t) = length uk + 8"
  by (simp add: make_internal_key_def append_internal_key_def put_fixed64_def)

lemma extract_user_key_make [simp]: "extract_user_key (make_internal_key uk seq t) = uk"
  by (simp add: extract_user_key_def make_internal_key_def append_internal_key_def put_fixed64_def)

lemma trailer_make [simp]: "trailer (make_internal_key uk seq t) = pack_sequence_and_type seq t"
  using decode_encode_fixed64 [of "pack_sequence_and_type seq t" "[]"]
  by (simp add: trailer_def make_internal_key_def append_internal_key_def put_fixed64_def)

lemma pack_sequence:
  "seq \<le> kMaxSequenceNumber \<Longrightarrow> drop_bit 8 (pack_sequence_and_type seq t) = seq"
proof -
  assume "seq \<le> kMaxSequenceNumber"
  then have "unat seq < 2 ^ 56"
    by (simp add: kMaxSequenceNumber_def word_le_nat_alt)
  then have high: "\<not> bit seq k" if "56 \<le> k" for k using bit_high_zero that by blast
  show ?thesis
  proof (rule bit_word_eqI)
    fix k assume "k < LENGTH(64)"
    then show "bit (drop_bit 8 (pack_sequence_and_type seq t)) k \<longleftrightarrow> bit seq k"
      using high [of k] by (cases "56 \<le> k") (auto simp: pack_sequence_and_type_def bit_simps dest: bit_byte_lt)
  qed
qed

lemma pack_type: "ucast (pack_sequence_and_type seq t AND 0xff) = value_type_byte t"
proof (rule bit_word_eqI)
  fix k assume "k < LENGTH(8)"
  then show "bit (ucast (pack_sequence_and_type seq t AND 0xff) :: byte) k \<longleftrightarrow> bit (value_type_byte t) k"
    by (auto simp: pack_sequence_and_type_def ff_mask bit_simps)
qed

lemma unat_pack:
  assumes "seq \<le> kMaxSequenceNumber"
  shows "unat (pack_sequence_and_type seq t) = 256 * unat seq + unat (value_type_byte t)"
proof -
  have s: "unat seq < 2 ^ 56"
    using assms by (simp add: kMaxSequenceNumber_def word_le_nat_alt)
  have "push_bit 8 seq AND ucast (value_type_byte t) = 0"
    by (rule bit_word_eqI) (auto simp: bit_simps dest: bit_byte_lt)
  then have "pack_sequence_and_type seq t = push_bit 8 seq + ucast (value_type_byte t)"
    by (simp add: pack_sequence_and_type_def disjunctive_add_eq_or)
  also have "unat \<dots> = (256 * unat seq + unat (value_type_byte t)) mod 2 ^ 64"
    using s by (simp add: unat_word_ariths push_bit_eq_mult unsigned_ucast_eq value_type_byte_def
        split: ValueType.splits)
  also have "\<dots> = 256 * unat seq + unat (value_type_byte t)"
    using s by (simp add: value_type_byte_def split: ValueType.splits)
  finally show ?thesis .
qed

lemma value_type_byte_inj [simp]: "value_type_byte a = value_type_byte b \<longleftrightarrow> a = b"
  by (cases a; cases b) (simp_all add: value_type_byte_def)

lemma extract_sequence_make [simp]:
  "seq \<le> kMaxSequenceNumber \<Longrightarrow> extract_sequence (make_internal_key uk seq t) = seq"
  by (simp add: extract_sequence_def pack_sequence)

lemma extract_value_type_make [simp]:
  "extract_value_type (make_internal_key uk seq t) = value_type_byte t"
  by (simp add: extract_value_type_def pack_type)

lemma parse_make [simp, codec_simps]:
  "seq \<le> kMaxSequenceNumber \<Longrightarrow>
   parse_internal_key (make_internal_key uk seq t) =
     Some \<lparr>user_key = uk, sequence = seq, key_type = t\<rparr>"
  using extract_user_key_make [of uk seq t]
  by (cases t) (auto simp: parse_internal_key_def pack_type pack_sequence Let_def
      extract_user_key_def)

section \<open>Lemmas: the internal key order\<close>

lemma cik_less [order_simps]:
  "compare_internal_keys a b < 0 \<longleftrightarrow>
     extract_user_key a < extract_user_key b \<or>
     extract_user_key a = extract_user_key b \<and> trailer b < trailer a"
  by (auto simp: compare_internal_keys_def Let_def sv_compare_eq sv_compare_less)

lemma cik_greater [order_simps]: "0 < compare_internal_keys a b \<longleftrightarrow> compare_internal_keys b a < 0"
  by (auto simp: compare_internal_keys_def Let_def sv_compare_eq sv_compare_less sv_compare_greater)

lemma cik_eq [order_simps]:
  "compare_internal_keys a b = 0 \<longleftrightarrow>
     extract_user_key a = extract_user_key b \<and> trailer a = trailer b"
  by (auto simp: compare_internal_keys_def Let_def sv_compare_eq)

lemma cik_trans: "compare_internal_keys a b < 0 \<Longrightarrow> compare_internal_keys b c < 0 \<Longrightarrow>
   compare_internal_keys a c < 0"
  by (auto simp: cik_less)

lemma pack_less:
  "s \<le> kMaxSequenceNumber \<Longrightarrow> s' \<le> kMaxSequenceNumber \<Longrightarrow>
   pack_sequence_and_type s t < pack_sequence_and_type s' t' \<longleftrightarrow>
     s < s' \<or> s = s' \<and> value_type_byte t < value_type_byte t'"
  by (cases t; cases t')
    (auto simp: word_less_nat_alt unat_pack value_type_byte_def, metis linorder_neqE_nat
      not_less_eq mult_less_mono2 word_unat_eq_iff zero_less_numeral)

lemma internal_key_order:
  "s \<le> kMaxSequenceNumber \<Longrightarrow> s' \<le> kMaxSequenceNumber \<Longrightarrow>
   compare_internal_keys (make_internal_key u s t) (make_internal_key u' s' t') < 0 \<longleftrightarrow>
     u < u' \<or> u = u' \<and> (s' < s \<or> s = s' \<and> t = kValue \<and> t' = kDeletion)"
  by (cases t; cases t') (auto simp: cik_less pack_less value_type_byte_def)

section \<open>Lemmas: lookup keys\<close>

lemma LookupKey_parts [simp]:
  "lk_internal_key (LookupKey_ctor uk snapshot) = make_lookup_key uk snapshot"
  "lk_user_key (LookupKey_ctor uk snapshot) = uk"
  "lk_memtable_key (LookupKey_ctor uk snapshot) =
     put_varint (word_of_nat (length uk + 8) :: u32) @ make_lookup_key uk snapshot"
  by (simp_all add: lk_internal_key_def lk_user_key_def lk_memtable_key_def LookupKey_ctor_def
      Let_def make_lookup_key_def make_internal_key_def append_internal_key_def put_fixed64_def)

end
