(* ===== verification/Comparator.thy ===== *)
theory Comparator
  imports Dbformat
begin

text \<open>
  src/comparator.hpp and src/comparator.cpp: the two key orders of the engine and
  their index-key shorteners.  The locale states what blocks, tables and
  iterators rely on; both comparators are instances of it.
\<close>

record Comparator =
  cmp_name :: string
  min_key_length :: nat
  cmp_compare :: "bytes \<Rightarrow> bytes \<Rightarrow> int"
  find_shortest_separator :: "bytes \<Rightarrow> bytes \<Rightarrow> bytes"
  find_short_successor :: "bytes \<Rightarrow> bytes"

definition bytewise_compare :: "bytes \<Rightarrow> bytes \<Rightarrow> int" where
  "bytewise_compare a b =
     (let r = sv_compare a b in if r < 0 then -1 else if 0 < r then 1 else 0)"

text \<open>The number of leading bytes two strings share: the scan over diff.\<close>

fun shared_prefix :: "bytes \<Rightarrow> bytes \<Rightarrow> nat" where
  "shared_prefix (a # as) (b # bs) = (if a = b then Suc (shared_prefix as bs) else 0)"
| "shared_prefix _ _ = 0"

definition bytewise_shortest_separator :: "bytes \<Rightarrow> bytes \<Rightarrow> bytes" where
  "bytewise_shortest_separator start limit =
     (let min_length = min (length start) (length limit);
          diff = shared_prefix start limit
      in if min_length \<le> diff then start
         else let b = start ! diff in
           if unat b < 0xff \<and> unat b + 1 < unat (limit ! diff)
           then take (diff + 1) (start[diff := b + 1])
           else start)"

function short_successor_at :: "bytes \<Rightarrow> nat \<Rightarrow> bytes" where
  "short_successor_at key i =
     (if i < length key
      then if key ! i \<noteq> 0xff then take (i + 1) (key[i := key ! i + 1])
           else short_successor_at key (i + 1)
      else key)"
  by auto
termination
  by (relation "measure (\<lambda>(key, i). length key - i)") auto

declare short_successor_at.simps [simp del]

definition bytewise_short_successor :: "bytes \<Rightarrow> bytes" where
  "bytewise_short_successor key = short_successor_at key 0"

definition kBytewise :: Comparator where
  "kBytewise = \<lparr>cmp_name = ''ambar.BytewiseComparator'', min_key_length = 0,
     cmp_compare = bytewise_compare,
     find_shortest_separator = bytewise_shortest_separator,
     find_short_successor = bytewise_short_successor\<rparr>"

definition internal_shortest_separator :: "bytes \<Rightarrow> bytes \<Rightarrow> bytes" where
  "internal_shortest_separator start limit =
     (let start_user = extract_user_key start;
          limit_user = extract_user_key limit;
          shortened = bytewise_shortest_separator start_user limit_user
      in if length start_user \<le> length shortened then start
         else if 0 \<le> bytewise_compare start_user shortened then start
         else if 0 \<le> bytewise_compare shortened limit_user then start
         else make_internal_key shortened kMaxSequenceNumber kValueTypeForSeek)"

definition internal_short_successor :: "bytes \<Rightarrow> bytes" where
  "internal_short_successor key =
     (let user = extract_user_key key;
          shortened = bytewise_short_successor user
      in if length user \<le> length shortened then key
         else if 0 \<le> bytewise_compare user shortened then key
         else make_internal_key shortened kMaxSequenceNumber kValueTypeForSeek)"

definition kInternal :: Comparator where
  "kInternal = \<lparr>cmp_name = ''ambar.InternalKeyComparator'', min_key_length = 8,
     cmp_compare = compare_internal_keys,
     find_shortest_separator = internal_shortest_separator,
     find_short_successor = internal_short_successor\<rparr>"

section \<open>What the engine relies on\<close>

definition readable :: "Comparator \<Rightarrow> bytes \<Rightarrow> bool" where
  "readable c k \<longleftrightarrow> min_key_length c \<le> length k"

text \<open>A strict total order on readable keys, and shorteners that stay between.\<close>

locale key_order =
  fixes c :: Comparator
  assumes cmp_eq: "readable c a \<Longrightarrow> readable c b \<Longrightarrow> cmp_compare c a b = 0 \<longleftrightarrow> a = b"
    and cmp_swap: "0 < cmp_compare c a b \<longleftrightarrow> cmp_compare c b a < 0"
    and cmp_trans: "cmp_compare c a b < 0 \<Longrightarrow> cmp_compare c b d < 0 \<Longrightarrow> cmp_compare c a d < 0"
    and sep_readable: "readable c a \<Longrightarrow> readable c (find_shortest_separator c a b)"
    and sep_lower: "readable c a \<Longrightarrow> \<not> cmp_compare c (find_shortest_separator c a b) a < 0"
    and sep_upper: "readable c a \<Longrightarrow> readable c b \<Longrightarrow> cmp_compare c a b < 0 \<Longrightarrow>
          cmp_compare c (find_shortest_separator c a b) b < 0"
    and succ_readable: "readable c a \<Longrightarrow> readable c (find_short_successor c a)"
    and succ_lower: "readable c a \<Longrightarrow> \<not> cmp_compare c (find_short_successor c a) a < 0"
begin

lemma cmp_refl: "\<not> cmp_compare c a a < 0"
  using cmp_swap [of a a] by linarith

lemma cmp_total:
  "readable c a \<Longrightarrow> readable c b \<Longrightarrow> cmp_compare c a b < 0 \<or> a = b \<or> cmp_compare c b a < 0"
  using cmp_eq [of a b] cmp_swap [of a b] by linarith

lemma cmp_le_less_trans:
  "readable c a \<Longrightarrow> readable c b \<Longrightarrow> \<not> cmp_compare c b a < 0 \<Longrightarrow>
   cmp_compare c b d < 0 \<Longrightarrow> cmp_compare c a d < 0"
  using cmp_total [of a b] cmp_trans [of a b d] by blast

lemma cmp_less_le_trans:
  "readable c b \<Longrightarrow> readable c d \<Longrightarrow> cmp_compare c a b < 0 \<Longrightarrow>
   \<not> cmp_compare c d b < 0 \<Longrightarrow> cmp_compare c a d < 0"
  using cmp_total [of b d] cmp_trans [of a b d] by blast

text \<open>An index key built between two blocks sends every key to its own block.\<close>

lemma separator_routes:
  assumes "readable c z" "readable c a" "readable c k" "cmp_compare c z a < 0"
  shows "\<not> cmp_compare c z k < 0 \<Longrightarrow> \<not> cmp_compare c (find_shortest_separator c z a) k < 0"
    and "\<not> cmp_compare c k a < 0 \<Longrightarrow> cmp_compare c (find_shortest_separator c z a) k < 0"
proof -
  let ?s = "find_shortest_separator c z a"
  have s: "readable c ?s" using sep_readable assms by blast
  show "\<not> cmp_compare c z k < 0 \<Longrightarrow> \<not> cmp_compare c ?s k < 0"
    using sep_lower [of z a] cmp_le_less_trans [of z ?s k] s assms by blast
  show "\<not> cmp_compare c k a < 0 \<Longrightarrow> cmp_compare c ?s k < 0"
    using sep_upper [of z a] cmp_less_le_trans [of a k ?s] assms by blast
qed

end

section \<open>The bytewise comparator\<close>

lemma bytewise_compare_less [order_simps]: "bytewise_compare a b < 0 \<longleftrightarrow> a < b"
  by (auto simp: bytewise_compare_def Let_def sv_compare_less)

lemma bytewise_compare_greater [order_simps]: "0 < bytewise_compare a b \<longleftrightarrow> b < a"
  by (auto simp: bytewise_compare_def Let_def sv_compare_less sv_compare_greater)

lemma bytewise_compare_eq [order_simps]: "bytewise_compare a b = 0 \<longleftrightarrow> a = b"
  using sv_compare_eq [of a b]
  by (auto simp: bytewise_compare_def Let_def sv_compare_less sv_compare_greater split: if_splits)

lemma bytewise_compare_nonneg [order_simps]: "0 \<le> bytewise_compare a b \<longleftrightarrow> b \<le> a"
  using bytewise_compare_less [of a b] by (simp add: not_less [symmetric])

lemma byte_Suc_less: "unat (b :: byte) < 0xff \<Longrightarrow> b < b + 1 \<and> unat (b + 1) = unat b + 1"
  by (simp add: word_less_nat_alt unat_word_ariths)

lemma byte_not_ff: "(b :: byte) \<noteq> 0xff \<Longrightarrow> unat b < 0xff"
proof -
  assume "b \<noteq> 0xff"
  then have "unat b \<noteq> unat (0xff :: byte)" by (metis word_unat_eq_iff)
  then show ?thesis using unsigned_less [of b, where 'a = nat] by simp
qed

lemma shortest_separator_Cons:
  "bytewise_shortest_separator (a # start) (b # limit) =
     (if a = b then a # bytewise_shortest_separator start limit
      else if unat a < 0xff \<and> unat a + 1 < unat b then [a + 1] else a # start)"
  by (auto simp: bytewise_shortest_separator_def Let_def)

lemma shortest_separator_Nil [simp]:
  "bytewise_shortest_separator [] limit = []" "bytewise_shortest_separator start [] = start"
  by (auto simp: bytewise_shortest_separator_def Let_def)

lemma bytewise_separator_lower: "start \<le> bytewise_shortest_separator start limit"
  by (induction start limit rule: shared_prefix.induct)
    (auto simp: shortest_separator_Cons less_imp_le dest: byte_Suc_less)

lemma bytewise_separator_upper: "start < limit \<Longrightarrow> bytewise_shortest_separator start limit < limit"
  by (induction start limit rule: shared_prefix.induct)
    (auto simp: shortest_separator_Cons word_less_nat_alt dest: byte_Suc_less)

lemma bytewise_separator_length: "length (bytewise_shortest_separator start limit) \<le> length start"
  by (auto simp: bytewise_shortest_separator_def Let_def)

lemma short_successor_Cons_ff:
  "short_successor_at (b # key) (Suc i) = b # short_successor_at key i"
  by (induction key i rule: short_successor_at.induct)
    (subst (1 2) short_successor_at.simps, auto)

lemma bytewise_successor_Cons:
  "bytewise_short_successor (b # key) =
     (if b = 0xff then b # bytewise_short_successor key else [b + 1])"
  unfolding bytewise_short_successor_def
  by (subst short_successor_at.simps) (simp add: short_successor_Cons_ff)

lemma bytewise_successor_Nil [simp]: "bytewise_short_successor [] = []"
  by (simp add: bytewise_short_successor_def short_successor_at.simps)

lemma bytewise_successor_lower: "key \<le> bytewise_short_successor key"
  by (induction key) (auto simp: bytewise_successor_Cons dest!: byte_not_ff byte_Suc_less)

interpretation bw: key_order kBytewise
  by unfold_locales
    (auto simp: kBytewise_def readable_def bytewise_compare_less bytewise_compare_eq
      bytewise_compare_greater not_less bytewise_separator_lower bytewise_separator_upper
      bytewise_successor_lower)

section \<open>The internal key comparator\<close>

lemma internal_separator_lower:
  "8 \<le> length a \<Longrightarrow> \<not> compare_internal_keys (internal_shortest_separator a b) a < 0"
  by (auto simp: internal_shortest_separator_def Let_def cik_less order_simps)

lemma internal_separator_upper:
  "compare_internal_keys a b < 0 \<Longrightarrow> compare_internal_keys (internal_shortest_separator a b) b < 0"
  by (auto simp: internal_shortest_separator_def Let_def order_simps)

lemma internal_successor_lower:
  "8 \<le> length a \<Longrightarrow> \<not> compare_internal_keys (internal_short_successor a) a < 0"
  by (auto simp: internal_short_successor_def Let_def order_simps)

lemma internal_separator_readable:
  "8 \<le> length a \<Longrightarrow> 8 \<le> length (internal_shortest_separator a b)"
  by (simp add: internal_shortest_separator_def Let_def)

lemma internal_successor_readable: "8 \<le> length a \<Longrightarrow> 8 \<le> length (internal_short_successor a)"
  by (simp add: internal_short_successor_def Let_def)

interpretation ik: key_order kInternal
proof (unfold_locales, goal_cases)
  case (1 a b)
  then show ?case using key_eqI [of a b] by (auto simp: kInternal_def readable_def cik_eq)
qed (auto simp: kInternal_def readable_def cik_greater internal_separator_lower
    internal_separator_upper internal_successor_lower internal_separator_readable
    internal_successor_readable intro: cik_trans)

end
