(* ===== verification/Skiplist.thy ===== *)
theory Skiplist
  imports Ambar_Prelude
begin

text \<open>
  src/skiplist.hpp: the lock-free-for-readers sorted list under the memtable.
  Nodes live in a store and are named by their address; address 0 is the head and
  a null pointer is \<^term>\<open>None\<close>.  The comparator and the outputs of the random
  number generator are parameters.  Loops over pointers are option-valued, and
  the lemmas show that they return.
\<close>

definition kMaxHeight :: nat where
  "kMaxHeight = 12"

definition kBranching :: u32 where
  "kBranching = 4"

record 'k Node =
  node_key :: 'k
  node_next :: "nat option list"

record 'k SkipList =
  sl_nodes :: "'k Node list"
  sl_max_height :: nat
  sl_draws :: nat

abbreviation sl_head :: nat where
  "sl_head \<equiv> 0"

definition sl_key :: "'k SkipList \<Rightarrow> nat \<Rightarrow> 'k" where
  "sl_key l n = node_key (sl_nodes l ! n)"

definition sl_next :: "'k SkipList \<Rightarrow> nat \<Rightarrow> nat \<Rightarrow> nat option" where
  "sl_next l level n = node_next (sl_nodes l ! n) ! level"

definition set_next :: "'k SkipList \<Rightarrow> nat \<Rightarrow> nat \<Rightarrow> nat option \<Rightarrow> 'k SkipList" where
  "set_next l level n x =
     l\<lparr>sl_nodes := (sl_nodes l)[n := (sl_nodes l ! n)
         \<lparr>node_next := (node_next (sl_nodes l ! n))[level := x]\<rparr>]\<rparr>"

text \<open>The node's pointers are not initialised by its allocation: they are written one by one.\<close>

definition new_node :: "'k SkipList \<Rightarrow> 'k \<Rightarrow> nat \<Rightarrow> nat \<times> 'k SkipList" where
  "new_node l key height =
     (length (sl_nodes l),
      l\<lparr>sl_nodes := sl_nodes l @ [\<lparr>node_key = key, node_next = replicate height None\<rparr>]\<rparr>)"

definition SkipList_ctor :: "'k \<Rightarrow> 'k SkipList" where
  "SkipList_ctor default_key =
     \<lparr>sl_nodes = [\<lparr>node_key = default_key, node_next = replicate kMaxHeight None\<rparr>],
      sl_max_height = 1, sl_draws = 0\<rparr>"

definition key_is_after_node :: "('k \<Rightarrow> 'k \<Rightarrow> int) \<Rightarrow> 'k SkipList \<Rightarrow> 'k \<Rightarrow> nat option \<Rightarrow> bool" where
  "key_is_after_node cmp l key node =
     (case node of None \<Rightarrow> False | Some n \<Rightarrow> cmp (sl_key l n) key < 0)"

text \<open>
  The loop of find\_greater\_or\_equal: the successor at level 0 and, per level,
  the last node before the key.
\<close>

partial_function (option) find_ge_loop ::
    "('k \<Rightarrow> 'k \<Rightarrow> int) \<Rightarrow> 'k SkipList \<Rightarrow> 'k \<Rightarrow> nat \<Rightarrow> nat \<Rightarrow> nat option list \<Rightarrow>
     (nat option \<times> nat option list) option" where
  "find_ge_loop cmp l key node level prev =
     (let next = sl_next l level node in
      if key_is_after_node cmp l key next
      then find_ge_loop cmp l key (the next) level prev
      else let prev' = prev[level := Some node] in
           if level = 0 then Some (next, prev')
           else find_ge_loop cmp l key node (level - 1) prev')"

definition find_greater_or_equal ::
    "('k \<Rightarrow> 'k \<Rightarrow> int) \<Rightarrow> 'k SkipList \<Rightarrow> 'k \<Rightarrow> (nat option \<times> nat option list) option" where
  "find_greater_or_equal cmp l key =
     find_ge_loop cmp l key sl_head (sl_max_height l - 1) (replicate kMaxHeight None)"

partial_function (option) find_lt_loop ::
    "('k \<Rightarrow> 'k \<Rightarrow> int) \<Rightarrow> 'k SkipList \<Rightarrow> 'k \<Rightarrow> nat \<Rightarrow> nat \<Rightarrow> nat option" where
  "find_lt_loop cmp l key node level =
     (let next = sl_next l level node in
      if key_is_after_node cmp l key next
      then find_lt_loop cmp l key (the next) level
      else if level = 0 then Some node
      else find_lt_loop cmp l key node (level - 1))"

definition find_less_than :: "('k \<Rightarrow> 'k \<Rightarrow> int) \<Rightarrow> 'k SkipList \<Rightarrow> 'k \<Rightarrow> nat option" where
  "find_less_than cmp l key = find_lt_loop cmp l key sl_head (sl_max_height l - 1)"

partial_function (option) find_last_loop :: "'k SkipList \<Rightarrow> nat \<Rightarrow> nat \<Rightarrow> nat option" where
  "find_last_loop l node level =
     (case sl_next l level node of
        Some next \<Rightarrow> find_last_loop l next level
      | None \<Rightarrow> if level = 0 then Some node else find_last_loop l node (level - 1))"

definition find_last :: "'k SkipList \<Rightarrow> nat option" where
  "find_last l = find_last_loop l sl_head (sl_max_height l - 1)"

text \<open>\<open>rng n\<close> is the n-th output of the generator.\<close>

function random_height_loop :: "(nat \<Rightarrow> u32) \<Rightarrow> nat \<Rightarrow> nat \<Rightarrow> nat \<times> nat" where
  "random_height_loop rng draws height =
     (if height < kMaxHeight
      then if rng draws mod kBranching = 0
           then random_height_loop rng (draws + 1) (height + 1)
           else (height, draws + 1)
      else (height, draws))"
  by auto
termination
  by (relation "measure (\<lambda>(_, _, height). kMaxHeight - height)") auto

declare random_height_loop.simps [simp del]

definition random_height :: "(nat \<Rightarrow> u32) \<Rightarrow> 'k SkipList \<Rightarrow> nat \<times> 'k SkipList" where
  "random_height rng l =
     (case random_height_loop rng (sl_draws l) 1 of (height, draws) \<Rightarrow> (height, l\<lparr>sl_draws := draws\<rparr>))"

text \<open>Levels that were empty so far start at the head.\<close>

definition raise_height :: "'k SkipList \<Rightarrow> nat \<Rightarrow> nat option list \<Rightarrow> nat option list \<times> 'k SkipList" where
  "raise_height l height prev =
     (if sl_max_height l < height
      then (foldl (\<lambda>p i. p[i := Some sl_head]) prev [sl_max_height l..<height],
            l\<lparr>sl_max_height := height\<rparr>)
      else (prev, l))"

text \<open>
  One turn of the splice loop is two stores: the new node's pointer is filled, then the
  node is published.
\<close>

definition fill_level :: "nat option list \<Rightarrow> nat \<Rightarrow> 'k SkipList \<Rightarrow> nat \<Rightarrow> 'k SkipList" where
  "fill_level prev node l i = set_next l i node (sl_next l i (the (prev ! i)))"

definition publish_level :: "nat option list \<Rightarrow> nat \<Rightarrow> 'k SkipList \<Rightarrow> nat \<Rightarrow> 'k SkipList" where
  "publish_level prev node l i = set_next l i (the (prev ! i)) (Some node)"

text \<open>The list after each store of the loop over the levels.\<close>

fun splice_stores :: "nat option list \<Rightarrow> nat \<Rightarrow> 'k SkipList \<Rightarrow> nat list \<Rightarrow> 'k SkipList list" where
  "splice_stores prev node l [] = []"
| "splice_stores prev node l (i # levels) =
     (let l1 = fill_level prev node l i;
          l2 = publish_level prev node l1 i
      in l1 # l2 # splice_stores prev node l2 levels)"

text \<open>
  An insertion as the sequence of its stores: the lists a concurrent reader may find, in
  order.  The last one is the result.
\<close>

definition insert_stores ::
    "('k \<Rightarrow> 'k \<Rightarrow> int) \<Rightarrow> (nat \<Rightarrow> u32) \<Rightarrow> 'k SkipList \<Rightarrow> 'k \<Rightarrow> 'k SkipList list option" where
  "insert_stores cmp rng l key =
     (case find_greater_or_equal cmp l key of
        None \<Rightarrow> None
      | Some (next, prev) \<Rightarrow>
          (case random_height rng l of (height, l1) \<Rightarrow>
           case raise_height l1 height prev of (prev', l2) \<Rightarrow>
           case new_node l2 key height of (node, l3) \<Rightarrow>
             Some (l2 # l3 # splice_stores prev' node l3 [0..<height])))"

definition sl_insert :: "('k \<Rightarrow> 'k \<Rightarrow> int) \<Rightarrow> (nat \<Rightarrow> u32) \<Rightarrow> 'k SkipList \<Rightarrow> 'k \<Rightarrow> 'k SkipList option" where
  "sl_insert cmp rng l key = map_option last (insert_stores cmp rng l key)"

definition sl_contains :: "('k \<Rightarrow> 'k \<Rightarrow> int) \<Rightarrow> 'k SkipList \<Rightarrow> 'k \<Rightarrow> bool option" where
  "sl_contains cmp l key =
     (case find_greater_or_equal cmp l key of
        None \<Rightarrow> None
      | Some (None, _) \<Rightarrow> Some False
      | Some (Some n, _) \<Rightarrow> Some (cmp key (sl_key l n) = 0))"

section \<open>A search beside a writer\<close>

text \<open>
  One turn of the loop of find\_greater\_or\_equal, with one load of a pointer: between two
  turns the writer may store.
\<close>

datatype ge_search = Searching nat nat | Found "nat option"

definition search_turn :: "('k \<Rightarrow> 'k \<Rightarrow> int) \<Rightarrow> 'k SkipList \<Rightarrow> 'k \<Rightarrow> ge_search \<Rightarrow> ge_search" where
  "search_turn cmp l key s =
     (case s of
        Found r \<Rightarrow> Found r
      | Searching node level \<Rightarrow>
          let next = sl_next l level node in
          if key_is_after_node cmp l key next then Searching (the next) level
          else if level = 0 then Found next
          else Searching node (level - 1))"

lemma find_ge_loop_turn:
  "find_ge_loop cmp l key p i prev =
     (case search_turn cmp l key (Searching p i) of
        Found r \<Rightarrow> Some (r, prev[i := Some p])
      | Searching q j \<Rightarrow> find_ge_loop cmp l key q j (if j = i then prev else prev[i := Some p]))"
  by (subst find_ge_loop.simps) (auto simp: search_turn_def Let_def)

text \<open>
  The list, the stores still to come of the insertion in progress, the search, and the
  turns it took.  There is one writer, and it inserts no key twice.
\<close>

inductive beside_writer ::
    "('k \<Rightarrow> 'k \<Rightarrow> int) \<Rightarrow> (nat \<Rightarrow> u32) \<Rightarrow> 'k \<Rightarrow> 'k SkipList \<Rightarrow> nat \<Rightarrow> 'k SkipList \<Rightarrow> 'k SkipList list \<Rightarrow> ge_search \<Rightarrow> nat \<Rightarrow> bool"
  for cmp rng target l0 lv where
  Start: "beside_writer cmp rng target l0 lv l0 [] (Searching sl_head lv) 0"
| Insert: "beside_writer cmp rng target l0 lv l [] s n \<Longrightarrow> insert_stores cmp rng l key = Some stores \<Longrightarrow>
    \<forall>i. 0 < i \<and> i < length (sl_nodes l) \<longrightarrow> cmp (sl_key l i) key \<noteq> 0 \<Longrightarrow>
    beside_writer cmp rng target l0 lv l stores s n"
| Store: "beside_writer cmp rng target l0 lv l (l' # stores) s n \<Longrightarrow> beside_writer cmp rng target l0 lv l' stores s n"
| Turn: "beside_writer cmp rng target l0 lv l stores (Searching p i) n \<Longrightarrow>
    beside_writer cmp rng target l0 lv l stores (search_turn cmp l target (Searching p i)) (n + 1)"

section \<open>Iterator\<close>

text \<open>An iterator is the node it stands on; every move returns.\<close>

type_synonym sl_iter = "nat option"

definition it_seek :: "('k \<Rightarrow> 'k \<Rightarrow> int) \<Rightarrow> 'k SkipList \<Rightarrow> 'k \<Rightarrow> sl_iter option" where
  "it_seek cmp l target = map_option fst (find_greater_or_equal cmp l target)"

definition it_next :: "'k SkipList \<Rightarrow> sl_iter \<Rightarrow> sl_iter" where
  "it_next l it = sl_next l 0 (the it)"

definition it_prev :: "('k \<Rightarrow> 'k \<Rightarrow> int) \<Rightarrow> 'k SkipList \<Rightarrow> sl_iter \<Rightarrow> sl_iter option" where
  "it_prev cmp l it =
     map_option (\<lambda>n. if n = sl_head then None else Some n) (find_less_than cmp l (sl_key l (the it)))"

definition it_seek_to_first :: "'k SkipList \<Rightarrow> sl_iter" where
  "it_seek_to_first l = sl_next l 0 sl_head"

definition it_seek_to_last :: "'k SkipList \<Rightarrow> sl_iter option" where
  "it_seek_to_last l = map_option (\<lambda>n. if n = sl_head then None else Some n) (find_last l)"

section \<open>Chains\<close>

text \<open>A level is a chain of pointers: \<open>path nx p xs\<close> walks from \<open>p\<close> through \<open>xs\<close> to null.\<close>

primrec path :: "(nat \<Rightarrow> nat option) \<Rightarrow> nat \<Rightarrow> nat list \<Rightarrow> bool" where
  "path nx p [] \<longleftrightarrow> nx p = None"
| "path nx p (x # xs) \<longleftrightarrow> nx p = Some x \<and> path nx x xs"

lemma path_cong: "(\<And>n. n \<in> set (p # xs) \<Longrightarrow> nx n = nx' n) \<Longrightarrow> path nx p xs \<longleftrightarrow> path nx' p xs"
  by (induction xs arbitrary: p) auto

lemma path_split: "path nx p (xs @ q # ys) \<Longrightarrow> path nx q ys"
  by (induction xs arbitrary: p) auto

lemma path_insert:
  assumes "path nx p (xs @ ys)" "distinct (p # xs @ ys)" "q \<notin> set (p # xs @ ys)"
  shows "path (nx(q := nx (last (p # xs)), last (p # xs) := Some q)) p (xs @ q # ys)"
  using assms
proof (induction xs arbitrary: p)
  case Nil
  let ?nx = "nx(q := nx p, p := Some q)"
  have "path ?nx q ys"
  proof (cases ys)
    case (Cons y zs)
    have "path ?nx y zs \<longleftrightarrow> path nx y zs" using Nil Cons by (intro path_cong) auto
    then show ?thesis using Nil Cons by simp
  qed (use Nil in simp)
  then show ?case using Nil by (simp add: fun_upd_def)
next
  case (Cons x xs)
  define z where "z = last (x # xs)"
  have rec: "path (nx(q := nx z, z := Some q)) x (xs @ q # ys)"
    unfolding z_def by (rule Cons.IH) (use Cons.prems in auto)
  have "p \<notin> set (x # xs)" "z \<in> set (x # xs)"
    using Cons.prems(2) last_in_set [of "x # xs"] by (auto simp: z_def)
  then have "z \<noteq> p" by metis
  moreover have "last (p # x # xs) = z" by (simp add: z_def)
  ultimately show ?case using Cons.prems rec by (auto simp: fun_upd_def)
qed

section \<open>Invariant\<close>

text \<open>
  \<open>ns\<close> are the addresses in key order and \<open>h\<close> gives each its published height: the
  number of levels it is linked into.
\<close>

definition sl_inv :: "('k \<Rightarrow> 'k \<Rightarrow> int) \<Rightarrow> 'k SkipList \<Rightarrow> nat list \<Rightarrow> (nat \<Rightarrow> nat) \<Rightarrow> bool" where
  "sl_inv cmp l ns h \<longleftrightarrow>
     distinct (sl_head # ns) \<and> (\<forall>n \<in> set (sl_head # ns). n < length (sl_nodes l)) \<and>
     length (node_next (sl_nodes l ! sl_head)) = kMaxHeight \<and>
     (\<forall>n \<in> set ns. 0 < h n \<and> h n \<le> length (node_next (sl_nodes l ! n)) \<and> h n \<le> sl_max_height l) \<and>
     0 < sl_max_height l \<and> sl_max_height l \<le> kMaxHeight \<and>
     (\<forall>i < kMaxHeight. path (sl_next l i) sl_head (filter (\<lambda>n. i < h n) ns)) \<and>
     sorted_wrt (\<lambda>a b. cmp (sl_key l a) (sl_key l b) < 0) ns"

text \<open>The keys of the list in order: what the list stands for.\<close>

definition sl_keys :: "'k SkipList \<Rightarrow> nat list \<Rightarrow> 'k list" where
  "sl_keys l ns = map (sl_key l) ns"

lemma sl_inv_ctor: "sl_inv cmp (SkipList_ctor k0) [] h"
  by (simp add: sl_inv_def SkipList_ctor_def kMaxHeight_def sl_next_def)

abbreviation before :: "('k \<Rightarrow> 'k \<Rightarrow> int) \<Rightarrow> 'k SkipList \<Rightarrow> 'k \<Rightarrow> nat \<Rightarrow> bool" where
  "before cmp l key n \<equiv> cmp (sl_key l n) key < 0"

lemma path_suffix:
  assumes "path nx sl_head (filter P (A @ B))" "p = last (sl_head # A)" "A \<noteq> [] \<Longrightarrow> P p"
  shows "path nx p (filter P B)"
proof (cases A rule: rev_cases)
  case (snoc A' a)
  then have "path nx sl_head (filter P A' @ a # filter P B)" using assms by simp
  then show ?thesis using assms snoc path_split by fastforce
qed (use assms in simp)

lemma last_filter: "P (last (x # xs)) \<or> xs = [] \<Longrightarrow> last (x # filter P xs) = last (x # xs)"
  by (cases xs rule: rev_cases) auto

section \<open>Searching\<close>

text \<open>
  All three searches move right while the next node satisfies a predicate \<open>Q\<close>, and
  drop a level otherwise.  The list is \<open>L @ R\<close> where \<open>Q\<close> holds on \<open>L\<close> only; the search
  stands on the last node of \<open>A\<close>, with \<open>M\<close> still to pass.
\<close>

definition stands :: "(nat \<Rightarrow> nat) \<Rightarrow> nat list \<Rightarrow> nat list \<Rightarrow> nat list \<Rightarrow> nat \<Rightarrow> nat \<Rightarrow> bool" where
  "stands h L A M p i \<longleftrightarrow> L = A @ M \<and> p = last (sl_head # A) \<and> (A \<noteq> [] \<longrightarrow> i < h p)"

definition first_of :: "nat list \<Rightarrow> nat option" where
  "first_of xs = (case xs of [] \<Rightarrow> None | x # _ \<Rightarrow> Some x)"

definition pred_at :: "(nat \<Rightarrow> nat) \<Rightarrow> nat list \<Rightarrow> nat \<Rightarrow> nat" where
  "pred_at h L i = last (sl_head # filter (\<lambda>n. i < h n) L)"

lemma stands_start: "stands h L [] L sl_head i"
  by (simp add: stands_def)

lemma stands_down: "stands h L A M p i \<Longrightarrow> stands h L A M p (i - 1)"
  by (auto simp: stands_def)

lemma search_step:
  assumes path: "path nx sl_head (filter (\<lambda>n. i < h n) (L @ R))"
    and st: "stands h L A M p i"
    and L: "\<forall>n \<in> set L. Q n" and R: "\<forall>n \<in> set R. \<not> Q n"
    and pos: "\<forall>n \<in> set (L @ R). 0 < h n"
  shows "(\<exists>x A' M'. nx p = Some x \<and> Q x \<and> stands h L A' M' x i \<and> length M' < length M) \<or>
    ((\<forall>x. nx p = Some x \<longrightarrow> \<not> Q x) \<and> p = pred_at h L i \<and> (i = 0 \<longrightarrow> nx p = first_of R \<and> p = last (sl_head # L)))"
proof -
  let ?P = "\<lambda>n. i < h n"
  have LA: "L = A @ M" and p: "p = last (sl_head # A)" and hp: "A \<noteq> [] \<Longrightarrow> ?P p"
    using st by (auto simp: stands_def)
  have chain: "path nx p (filter ?P (M @ R))"
    using path_suffix [of nx ?P A "M @ R" p] path LA p hp by simp
  show ?thesis
  proof (cases "filter ?P M")
    case Nil
    then have c: "path nx p (filter ?P R)" using chain by simp
    have "p = pred_at h L i"
      using last_filter [of ?P sl_head A] p hp LA Nil by (auto simp: pred_at_def)
    moreover have "\<forall>x. nx p = Some x \<longrightarrow> \<not> Q x"
    proof (intro allI impI)
      fix x assume "nx p = Some x"
      then have "x \<in> set (filter ?P R)" using c by (cases "filter ?P R") auto
      then show "\<not> Q x" using R by auto
    qed
    moreover have "i = 0 \<longrightarrow> nx p = first_of R \<and> p = last (sl_head # L)"
    proof
      assume "i = 0"
      then have "M = []" "filter ?P R = R" using Nil pos LA by (auto simp: filter_empty_conv filter_id_conv)
      then show "nx p = first_of R \<and> p = last (sl_head # L)"
        using c p LA by (cases R) (auto simp: first_of_def)
    qed
    ultimately show ?thesis by blast
  next
    case (Cons x xs)
    then obtain M1 M2 where M: "M = M1 @ x # M2" "?P x" by (auto simp: filter_eq_Cons_iff)
    have "nx p = Some x" using chain Cons by simp
    moreover have "Q x" using L LA M by auto
    moreover have "stands h L (A @ M1 @ [x]) M2 x i" using LA M by (simp add: stands_def)
    moreover have "length M2 < length M" using M by simp
    ultimately show ?thesis by blast
  qed
qed

lemma find_ge_loop_correct:
  assumes paths: "\<forall>j \<le> i. path (sl_next l j) sl_head (filter (\<lambda>n. j < h n) (L @ R))"
    and L: "\<forall>n \<in> set L. before cmp l key n" and R: "\<forall>n \<in> set R. \<not> before cmp l key n"
    and pos: "\<forall>n \<in> set (L @ R). 0 < h n"
    and st: "stands h L A M p i" and len: "i < length prev"
  shows "\<exists>prev'. find_ge_loop cmp l key p i prev = Some (first_of R, prev') \<and>
    length prev' = length prev \<and> (\<forall>j \<le> i. prev' ! j = Some (pred_at h L j)) \<and>
    (\<forall>j > i. prev' ! j = prev ! j)"
  using paths st len
proof (induction "i + length M" arbitrary: i A M p prev rule: less_induct)
  case less
  have "path (sl_next l i) sl_head (filter (\<lambda>n. i < h n) (L @ R))" using less.prems by simp
  from search_step [OF this less.prems(2) L R pos]
  consider (adv) x A' M' where "sl_next l i p = Some x" "before cmp l key x"
        "stands h L A' M' x i" "length M' < length M"
    | (stop) "\<forall>x. sl_next l i p = Some x \<longrightarrow> \<not> before cmp l key x" "p = pred_at h L i"
        "i = 0 \<longrightarrow> sl_next l i p = first_of R"
    by blast
  then show ?case
  proof cases
    case adv
    then have "find_ge_loop cmp l key p i prev = find_ge_loop cmp l key x i prev"
      by (subst find_ge_loop.simps) (simp add: key_is_after_node_def Let_def)
    then show ?thesis using less.hyps [of i M' A' x prev] adv less.prems by simp
  next
    case stop
    then have noadv: "\<not> key_is_after_node cmp l key (sl_next l i p)"
      by (auto simp: key_is_after_node_def split: option.splits)
    show ?thesis
    proof (cases "i = 0")
      case True
      then show ?thesis
        using noadv stop less.prems by (subst find_ge_loop.simps) (auto simp: Let_def nth_list_update)
    next
      case False
      let ?prev = "prev[i := Some p]"
      have "find_ge_loop cmp l key p i prev = find_ge_loop cmp l key p (i - 1) ?prev"
        using noadv False by (subst find_ge_loop.simps) (simp add: Let_def)
      moreover obtain prev' where prev': "find_ge_loop cmp l key p (i - 1) ?prev = Some (first_of R, prev')"
          "length prev' = length ?prev" "\<forall>j \<le> i - 1. prev' ! j = Some (pred_at h L j)"
          "\<forall>j > i - 1. prev' ! j = ?prev ! j"
        using less.hyps [of "i - 1" M A p ?prev] False stands_down less.prems by fastforce
      moreover have "prev' ! j = Some (pred_at h L j)" if "j \<le> i" for j
        using prev'(3,4) stop(2) less.prems(3) False that by (cases "j = i") auto
      moreover have "prev' ! j = prev ! j" if "i < j" for j using prev'(4) that by simp
      ultimately show ?thesis by auto
    qed
  qed
qed

lemma find_lt_loop_correct:
  assumes paths: "\<forall>j \<le> i. path (sl_next l j) sl_head (filter (\<lambda>n. j < h n) (L @ R))"
    and L: "\<forall>n \<in> set L. before cmp l key n" and R: "\<forall>n \<in> set R. \<not> before cmp l key n"
    and pos: "\<forall>n \<in> set (L @ R). 0 < h n" and st: "stands h L A M p i"
  shows "find_lt_loop cmp l key p i = Some (last (sl_head # L))"
  using paths st
proof (induction "i + length M" arbitrary: i A M p rule: less_induct)
  case less
  have "path (sl_next l i) sl_head (filter (\<lambda>n. i < h n) (L @ R))" using less.prems by simp
  from search_step [OF this less.prems(2) L R pos]
  consider (adv) x A' M' where "sl_next l i p = Some x" "before cmp l key x"
        "stands h L A' M' x i" "length M' < length M"
    | (stop) "\<forall>x. sl_next l i p = Some x \<longrightarrow> \<not> before cmp l key x"
        "i = 0 \<longrightarrow> p = last (sl_head # L)"
    by blast
  then show ?case
  proof cases
    case adv
    then have "find_lt_loop cmp l key p i = find_lt_loop cmp l key x i"
      by (subst find_lt_loop.simps) (simp add: key_is_after_node_def Let_def)
    then show ?thesis using less.hyps [of i M' A' x] adv less.prems by simp
  next
    case stop
    then have noadv: "\<not> key_is_after_node cmp l key (sl_next l i p)"
      by (auto simp: key_is_after_node_def split: option.splits)
    show ?thesis
    proof (cases "i = 0")
      case False
      then have "find_lt_loop cmp l key p i = find_lt_loop cmp l key p (i - 1)"
        using noadv by (subst find_lt_loop.simps) (simp add: Let_def)
      then show ?thesis using less.hyps [of "i - 1" M A p] False stands_down less.prems by simp
    qed (use noadv stop in \<open>subst find_lt_loop.simps, simp add: Let_def\<close>)
  qed
qed

lemma find_last_loop_correct:
  assumes paths: "\<forall>j \<le> i. path (sl_next l j) sl_head (filter (\<lambda>n. j < h n) L)"
    and pos: "\<forall>n \<in> set L. 0 < h n" and st: "stands h L A M p i"
  shows "find_last_loop l p i = Some (last (sl_head # L))"
  using paths st
proof (induction "i + length M" arbitrary: i A M p rule: less_induct)
  case less
  have "path (sl_next l i) sl_head (filter (\<lambda>n. i < h n) (L @ []))" using less.prems by simp
  from search_step [OF this less.prems(2), of "\<lambda>_. True"] pos
  consider (adv) x A' M' where "sl_next l i p = Some x" "stands h L A' M' x i" "length M' < length M"
    | (stop) "sl_next l i p = None" "i = 0 \<longrightarrow> p = last (sl_head # L)"
    by (cases "sl_next l i p") auto
  then show ?case
  proof cases
    case adv
    then have "find_last_loop l p i = find_last_loop l x i"
      by (subst find_last_loop.simps) simp
    then show ?thesis using less.hyps [of i M' A' x] adv less.prems by simp
  next
    case stop
    show ?thesis
    proof (cases "i = 0")
      case False
      then have "find_last_loop l p i = find_last_loop l p (i - 1)"
        using stop by (subst find_last_loop.simps) simp
      then show ?thesis using less.hyps [of "i - 1" M A p] False stands_down less.prems by simp
    qed (use stop in \<open>subst find_last_loop.simps, simp\<close>)
  qed
qed

section \<open>Inserting\<close>

lemma sl_next_set_next:
  "n < length (sl_nodes l) \<Longrightarrow> level < length (node_next (sl_nodes l ! n)) \<Longrightarrow>
   sl_next (set_next l level n x) k m = (if m = n \<and> k = level then x else sl_next l k m)"
  by (auto simp: sl_next_def set_next_def nth_list_update)

lemma set_next_frame [simp]:
  "sl_max_height (set_next l level n x) = sl_max_height l"
  "length (sl_nodes (set_next l level n x)) = length (sl_nodes l)"
  "length (node_next (sl_nodes (set_next l level n x) ! m)) = length (node_next (sl_nodes l ! m))"
  "sl_key (set_next l level n x) m = sl_key l m"
  by (auto simp: set_next_def sl_key_def nth_update_if)

text \<open>Both stores of a level.\<close>

definition link_level :: "nat option list \<Rightarrow> nat \<Rightarrow> 'k SkipList \<Rightarrow> nat \<Rightarrow> 'k SkipList" where
  "link_level prev node l i = publish_level prev node (fill_level prev node l i) i"

lemmas link_defs = link_level_def fill_level_def publish_level_def

lemma link_level_frame [simp]:
  "sl_max_height (link_level prev node l i) = sl_max_height l"
  "length (sl_nodes (link_level prev node l i)) = length (sl_nodes l)"
  "length (node_next (sl_nodes (link_level prev node l i) ! m)) = length (node_next (sl_nodes l ! m))"
  "sl_key (link_level prev node l i) m = sl_key l m"
  by (simp_all add: link_defs)

lemma sl_next_link_level:
  assumes "node < length (sl_nodes l)" "p < length (sl_nodes l)" "prev ! i = Some p"
    "i < length (node_next (sl_nodes l ! node))" "i < length (node_next (sl_nodes l ! p))"
  shows "sl_next (link_level prev node l i) k =
    (if k = i then (sl_next l i)(node := sl_next l i p, p := Some node) else sl_next l k)"
  using assms by (auto simp: link_defs sl_next_set_next fun_eq_iff)

text \<open>The list while a node is being spliced in: \<open>j\<close> levels are published.\<close>

definition splicing :: "'k SkipList \<Rightarrow> nat option list \<Rightarrow> nat \<Rightarrow> nat \<Rightarrow> 'k SkipList" where
  "splicing l prev node j = foldl (link_level prev node) l [0..<j]"

lemma splicing_Suc: "splicing l prev node (Suc j) = link_level prev node (splicing l prev node j) j"
  by (simp add: splicing_def)

lemma last_splice_stores: "last (l # splice_stores prev node l levels) = foldl (link_level prev node) l levels"
  by (induction levels arbitrary: l) (auto simp: link_level_def Let_def)

lemma splicing_frame [simp]:
  "sl_max_height (splicing l prev node j) = sl_max_height l"
  "length (sl_nodes (splicing l prev node j)) = length (sl_nodes l)"
  "length (node_next (sl_nodes (splicing l prev node j) ! m)) = length (node_next (sl_nodes l ! m))"
  "sl_key (splicing l prev node j) m = sl_key l m"
  by (induction j) (simp_all add: splicing_def)

lemma pred_at_mem: "pred_at h L i = sl_head \<or> pred_at h L i \<in> set L \<and> i < h (pred_at h L i)"
proof (cases "filter (\<lambda>n. i < h n) L = []")
  case False
  then have "last (filter (\<lambda>n. i < h n) L) \<in> set (filter (\<lambda>n. i < h n) L)" by (rule last_in_set)
  then show ?thesis using False by (simp add: pred_at_def)
qed (simp add: pred_at_def)

lemma sl_inv_node:
  "sl_inv cmp l ns h \<Longrightarrow> n = sl_head \<or> n \<in> set ns \<Longrightarrow>
     n < length (sl_nodes l) \<and> (n = sl_head \<longrightarrow> length (node_next (sl_nodes l ! n)) = kMaxHeight) \<and>
     (n \<in> set ns \<longrightarrow> h n \<le> length (node_next (sl_nodes l ! n)))"
  by (auto simp: sl_inv_def)

lemma sl_inv_path: "sl_inv cmp l ns h \<Longrightarrow> i < kMaxHeight \<Longrightarrow> path (sl_next l i) sl_head (filter (\<lambda>n. i < h n) ns)"
  by (simp add: sl_inv_def)

lemma sl_inv_path_0: "sl_inv cmp l ns h \<Longrightarrow> path (sl_next l 0) sl_head ns"
proof -
  assume inv: "sl_inv cmp l ns h"
  then have "filter (\<lambda>n. 0 < h n) ns = ns" by (simp add: sl_inv_def)
  then show ?thesis using sl_inv_path [OF inv, of 0] by (simp add: kMaxHeight_def)
qed

lemma splicing_paths:
  assumes inv: "sl_inv cmp l (L @ R) h"
    and node: "node \<notin> set (sl_head # L @ R)" "node < length (sl_nodes l)"
      "length (node_next (sl_nodes l ! node)) = height" "height \<le> kMaxHeight"
    and prev: "\<forall>i < height. prev ! i = Some (pred_at h L i)"
    and j: "j \<le> height" and i: "i < kMaxHeight"
  shows "path (sl_next (splicing l prev node j) i) sl_head
    (if i < j then filter (\<lambda>n. i < h n) L @ node # filter (\<lambda>n. i < h n) R
     else filter (\<lambda>n. i < h n) (L @ R))"
  using j
proof (induction j)
  case 0
  then show ?case using inv i by (simp add: splicing_def sl_inv_def)
next
  case (Suc j)
  let ?l = "splicing l prev node j" and ?p = "pred_at h L j"
  have p: "?p < length (sl_nodes ?l)" "j < length (node_next (sl_nodes ?l ! ?p))"
    using pred_at_mem [of h L j] sl_inv_node [OF inv, of ?p] Suc.prems node(4)
    by (auto intro: less_le_trans)
  have nx: "sl_next (splicing l prev node (Suc j)) i =
      (if i = j then (sl_next ?l j)(node := sl_next ?l j ?p, ?p := Some node) else sl_next ?l i)"
    unfolding splicing_Suc using p node prev Suc.prems by (intro sl_next_link_level) auto
  show ?case
  proof (cases "i = j")
    case True
    let ?P = "\<lambda>n. j < h n"
    have "path (sl_next ?l j) sl_head (filter ?P L @ filter ?P R)" using Suc True by simp
    moreover have "distinct (sl_head # filter ?P L @ filter ?P R)" "node \<notin> set (sl_head # filter ?P L @ filter ?P R)"
      using inv node by (auto simp: sl_inv_def)
    ultimately have "path ((sl_next ?l j)(node := sl_next ?l j ?p, ?p := Some node)) sl_head
        (filter ?P L @ node # filter ?P R)"
      unfolding pred_at_def by (rule path_insert)
    then show ?thesis using True nx by (simp add: fun_upd_def)
  next
    case False
    then have "i < Suc j \<longleftrightarrow> i < j" by auto
    then show ?thesis using Suc False nx by simp
  qed
qed

text \<open>
  At every moment of an insertion the list satisfies the invariant: without the
  new node before its first level is published, with it afterwards, at the
  height published so far.
\<close>

lemma splicing_inv:
  assumes inv: "sl_inv cmp l (L @ R) h"
    and node: "node \<notin> set (sl_head # L @ R)" "node < length (sl_nodes l)"
      "length (node_next (sl_nodes l ! node)) = height" "height \<le> kMaxHeight"
    and prev: "\<forall>i < height. prev ! i = Some (pred_at h L i)"
    and key: "\<forall>n \<in> set L. cmp (sl_key l n) (sl_key l node) < 0" "\<forall>n \<in> set R. cmp (sl_key l node) (sl_key l n) < 0"
    and j: "j \<le> height" "height \<le> sl_max_height l"
  shows "sl_inv cmp (splicing l prev node j) (if j = 0 then L @ R else L @ node # R) (h(node := j))"
proof (cases "j = 0")
  case True
  have "filter (\<lambda>n. i < (h(node := 0)) n) (L @ R) = filter (\<lambda>n. i < h n) (L @ R)" for i
    using node(1) by (intro filter_cong) auto
  then show ?thesis using inv True node(1) by (auto simp: sl_inv_def splicing_def)
next
  case False
  have eq: "filter (\<lambda>n. i < (h(node := j)) n) L = filter (\<lambda>n. i < h n) L"
    "filter (\<lambda>n. i < (h(node := j)) n) R = filter (\<lambda>n. i < h n) R" for i
    using node(1) by (auto intro!: filter_cong)
  have "filter (\<lambda>n. i < (h(node := j)) n) (L @ node # R) =
      (if i < j then filter (\<lambda>n. i < h n) L @ node # filter (\<lambda>n. i < h n) R
       else filter (\<lambda>n. i < h n) (L @ R))" for i
    unfolding filter_append filter.simps eq fun_upd_same by simp
  then have "path (sl_next (splicing l prev node j) i) sl_head (filter (\<lambda>n. i < (h(node := j)) n) (L @ node # R))"
    if "i < kMaxHeight" for i
    using splicing_paths [OF inv node prev j(1) that] by presburger
  then show ?thesis using inv node key j False by (auto simp: sl_inv_def sorted_wrt_append)
qed

lemma random_height_bounds:
  "random_height_loop rng d k = (height, d') \<Longrightarrow> 0 < k \<Longrightarrow> k \<le> kMaxHeight \<Longrightarrow>
   0 < height \<and> height \<le> kMaxHeight"
  by (induction rng d k rule: random_height_loop.induct)
    (subst (asm) (2) random_height_loop.simps, auto split: if_splits)

lemma fold_heads:
  "b \<le> length prev \<Longrightarrow> j < b \<Longrightarrow>
   foldl (\<lambda>p i. p[i := Some sl_head]) prev [a..<b] ! j = (if a \<le> j then Some sl_head else prev ! j)"
proof (induction b)
  case (Suc b)
  have len: "length (foldl (\<lambda>p i. p[i := Some sl_head]) prev [a..<b]) = length prev"
    by (induction b) auto
  show ?case
  proof (cases "a \<le> b")
    case True
    then show ?thesis using Suc len by (auto simp: nth_list_update less_Suc_eq)
  next
    case False
    then show ?thesis using Suc by auto
  qed
qed simp

lemma first_of_simps [simp]: "first_of [] = None" "first_of (x # xs) = Some x"
  by (simp_all add: first_of_def)

section \<open>The contract of the comparator\<close>

locale skip_order =
  fixes cmp :: "'k \<Rightarrow> 'k \<Rightarrow> int"
  assumes cmp_swap: "0 < cmp a b \<longleftrightarrow> cmp b a < 0"
    and cmp_trans: "cmp a b < 0 \<Longrightarrow> cmp b d < 0 \<Longrightarrow> cmp a d < 0"
begin

abbreviation below :: "'k SkipList \<Rightarrow> nat list \<Rightarrow> 'k \<Rightarrow> nat list" where
  "below l ns key \<equiv> takeWhile (before cmp l key) ns"

abbreviation onward :: "'k SkipList \<Rightarrow> nat list \<Rightarrow> 'k \<Rightarrow> nat list" where
  "onward l ns key \<equiv> dropWhile (before cmp l key) ns"

lemma onward_not_before:
  assumes "sl_inv cmp l ns h" "n \<in> set (onward l ns key)"
  shows "\<not> before cmp l key n"
proof -
  have s: "sorted_wrt (\<lambda>a b. cmp (sl_key l a) (sl_key l b) < 0) (onward l ns key)"
    using assms(1) by (auto simp: sl_inv_def sorted_wrt_dropWhile)
  obtain x xs where x: "onward l ns key = x # xs" using assms(2) by (cases "onward l ns key") auto
  then have "\<not> before cmp l key x" by (simp add: dropWhile_eq_Cons_conv)
  then show ?thesis using assms(2) s x cmp_trans by fastforce
qed

lemma below_before: "n \<in> set (below l ns key) \<Longrightarrow> before cmp l key n"
  by (auto dest: set_takeWhileD)

lemma find_from_any_level:
  assumes inv: "sl_inv cmp l ns h" and "lv < kMaxHeight"
  shows "\<exists>prev. find_ge_loop cmp l key sl_head lv (replicate kMaxHeight None) =
      Some (first_of (onward l ns key), prev) \<and> length prev = kMaxHeight \<and>
      (\<forall>j \<le> lv. prev ! j = Some (pred_at h (below l ns key) j))"
proof -
  have paths: "\<forall>j \<le> lv. path (sl_next l j) sl_head
      (filter (\<lambda>n. j < h n) (below l ns key @ onward l ns key))"
    and pos: "\<forall>n \<in> set (below l ns key @ onward l ns key). 0 < h n"
    using inv assms(2) by (auto simp: sl_inv_def)
  have "\<forall>n \<in> set (below l ns key). before cmp l key n"
    "\<forall>n \<in> set (onward l ns key). \<not> before cmp l key n"
    using below_before onward_not_before [OF inv] by blast+
  from find_ge_loop_correct [where cmp = cmp and key = key and prev = "replicate kMaxHeight None",
      OF paths this pos stands_start]
  show ?thesis using assms(2) by auto
qed

lemma find_greater_or_equal_correct:
  assumes "sl_inv cmp l ns h"
  shows "\<exists>prev. find_greater_or_equal cmp l key = Some (first_of (onward l ns key), prev) \<and>
      length prev = kMaxHeight \<and> (\<forall>j < sl_max_height l. prev ! j = Some (pred_at h (below l ns key) j))"
proof -
  have "sl_max_height l - 1 < kMaxHeight" "j < sl_max_height l \<longleftrightarrow> j \<le> sl_max_height l - 1" for j
    using assms by (auto simp: sl_inv_def)
  then show ?thesis
    using find_from_any_level [OF assms, of "sl_max_height l - 1" key]
    by (simp add: find_greater_or_equal_def)
qed

lemma find_less_than_correct:
  assumes inv: "sl_inv cmp l ns h"
  shows "find_less_than cmp l key = Some (last (sl_head # below l ns key))"
  unfolding find_less_than_def
proof (rule find_lt_loop_correct [OF _ _ _ _ stands_start])
  show "\<forall>j \<le> sl_max_height l - 1.
      path (sl_next l j) sl_head (filter (\<lambda>n. j < h n) (below l ns key @ onward l ns key))"
    "\<forall>n \<in> set (below l ns key @ onward l ns key). 0 < h n"
    using inv by (auto simp: sl_inv_def)
qed (use below_before onward_not_before [OF inv] in blast)+

lemma find_last_correct:
  assumes inv: "sl_inv cmp l ns h"
  shows "find_last l = Some (last (sl_head # ns))"
  unfolding find_last_def
proof (rule find_last_loop_correct [OF _ _ stands_start])
  show "\<forall>j \<le> sl_max_height l - 1. path (sl_next l j) sl_head (filter (\<lambda>n. j < h n) ns)"
    "\<forall>n \<in> set ns. 0 < h n"
    using inv by (auto simp: sl_inv_def)
qed

end

lemma sl_inv_extend:
  assumes "sl_inv cmp l ns h" "sl_max_height l \<le> m" "m \<le> kMaxHeight"
    "sl_nodes l' = sl_nodes l @ new" "sl_max_height l' = m"
  shows "sl_inv cmp l' ns h"
proof -
  have old: "n < length (sl_nodes l) \<Longrightarrow> sl_next l' i n = sl_next l i n \<and> sl_key l' n = sl_key l n \<and>
      sl_nodes l' ! n = sl_nodes l ! n" for n i
    using assms(4) by (simp add: sl_next_def sl_key_def nth_append)
  have lt: "n < length (sl_nodes l)" if "n \<in> set (sl_head # ns)" for n
    using assms(1) that by (auto simp: sl_inv_def)
  have "path (sl_next l' i) sl_head (filter (\<lambda>n. i < h n) ns) \<longleftrightarrow>
        path (sl_next l i) sl_head (filter (\<lambda>n. i < h n) ns)" for i
    using old lt by (intro path_cong) auto
  moreover have "sorted_wrt (\<lambda>a b. cmp (sl_key l' a) (sl_key l' b) < 0) ns \<longleftrightarrow>
        sorted_wrt (\<lambda>a b. cmp (sl_key l a) (sl_key l b) < 0) ns"
    using old lt by (simp add: sorted_wrt_iff_nth_less)
  moreover have "sl_nodes l' ! n = sl_nodes l ! n" "n < length (sl_nodes l')" if "n \<in> set (sl_head # ns)" for n
    using old lt [OF that] assms(4) by auto
  ultimately show ?thesis
    using assms(1-3,5) by (auto simp: sl_inv_def intro: le_trans)
qed

lemma pred_at_head: "\<forall>n \<in> set L. h n \<le> i \<Longrightarrow> pred_at h L i = sl_head"
  by (auto simp: pred_at_def filter_empty_conv not_less)

context skip_order
begin

text \<open>An insertion as its preparation and its splice loop.\<close>

lemma insert_prepared:
  assumes inv: "sl_inv cmp l ns h"
  obtains l2 l3 prev height where
    "insert_stores cmp rng l key = Some (l2 # l3 # splice_stores prev (length (sl_nodes l)) l3 [0..<height])"
    "sl_inv cmp l2 ns h" "sl_nodes l2 = sl_nodes l"
    "sl_inv cmp l3 ns h" "0 < height" "height \<le> kMaxHeight" "height \<le> sl_max_height l3"
    "sl_nodes l3 = sl_nodes l @ [\<lparr>node_key = key, node_next = replicate height None\<rparr>]"
    "\<forall>i < height. prev ! i = Some (pred_at h (below l ns key) i)"
proof -
  obtain prev where f: "find_greater_or_equal cmp l key = Some (first_of (onward l ns key), prev)"
      "length prev = kMaxHeight" "\<forall>j < sl_max_height l. prev ! j = Some (pred_at h (below l ns key) j)"
    using find_greater_or_equal_correct [OF inv] by blast
  obtain height d where rh: "random_height_loop rng (sl_draws l) 1 = (height, d)" by fastforce
  have hb: "0 < height" "height \<le> kMaxHeight"
    using random_height_bounds [OF rh] by (auto simp: kMaxHeight_def)
  let ?m = "max height (sl_max_height l)"
  let ?prev = "if sl_max_height l < height
     then foldl (\<lambda>p i. p[i := Some sl_head]) prev [sl_max_height l..<height] else prev"
  let ?l2 = "l\<lparr>sl_draws := d, sl_max_height := ?m\<rparr>"
  let ?l3 = "?l2\<lparr>sl_nodes := sl_nodes l @ [\<lparr>node_key = key, node_next = replicate height None\<rparr>]\<rparr>"
  have "insert_stores cmp rng l key = Some (?l2 # ?l3 # splice_stores ?prev (length (sl_nodes l)) ?l3 [0..<height])"
    using f(1) rh by (auto simp: insert_stores_def random_height_def raise_height_def new_node_def max_def)
  moreover have m: "sl_max_height l \<le> ?m" "?m \<le> kMaxHeight" using inv hb by (simp_all add: sl_inv_def)
  moreover have "sl_inv cmp ?l2 ns h" by (rule sl_inv_extend [OF inv m, of _ "[]"]) simp_all
  moreover have "sl_inv cmp ?l3 ns h" by (rule sl_inv_extend [OF inv m]) simp_all
  moreover have "\<forall>i < height. ?prev ! i = Some (pred_at h (below l ns key) i)"
  proof (intro allI impI)
    fix i assume i: "i < height"
    have "pred_at h (below l ns key) i = sl_head" if "sl_max_height l \<le> i"
      using inv that by (intro pred_at_head) (auto simp: sl_inv_def dest!: set_takeWhileD intro: le_trans)
    then show "?prev ! i = Some (pred_at h (below l ns key) i)"
      using f(2,3) i hb fold_heads [of height prev i "sl_max_height l"] by (auto simp: not_le)
  qed
  ultimately show thesis using that hb by simp
qed

lemma insert_steps:
  assumes inv: "sl_inv cmp l ns h" and new: "\<forall>n \<in> set ns. cmp (sl_key l n) key \<noteq> 0"
  obtains l2 l3 prev height where
    "insert_stores cmp rng l key = Some (l2 # l3 # splice_stores prev (length (sl_nodes l)) l3 [0..<height])"
    "sl_inv cmp l2 ns h" "sl_nodes l2 = sl_nodes l" "sl_insert cmp rng l key = Some (splicing l3 prev (length (sl_nodes l)) height)" "0 < height"
    "\<And>n. n \<in> set ns \<Longrightarrow> sl_key l3 n = sl_key l n" "sl_key l3 (length (sl_nodes l)) = key"
    "\<And>j. j \<le> height \<Longrightarrow> sl_inv cmp (splicing l3 prev (length (sl_nodes l)) j)
       (if j = 0 then ns else below l ns key @ length (sl_nodes l) # onward l ns key)
       (h(length (sl_nodes l) := j))"
    "length (sl_nodes l) < length (sl_nodes l3)" "length (node_next (sl_nodes l3 ! length (sl_nodes l))) = height"
proof -
  let ?node = "length (sl_nodes l)" and ?L = "below l ns key" and ?R = "onward l ns key"
  obtain l2 l3 prev height where p:
      "insert_stores cmp rng l key = Some (l2 # l3 # splice_stores prev ?node l3 [0..<height])"
      "sl_inv cmp l2 ns h" "sl_nodes l2 = sl_nodes l"
      "sl_inv cmp l3 ns h" "0 < height" "height \<le> kMaxHeight" "height \<le> sl_max_height l3"
      "sl_nodes l3 = sl_nodes l @ [\<lparr>node_key = key, node_next = replicate height None\<rparr>]"
      "\<forall>i < height. prev ! i = Some (pred_at h ?L i)"
    using insert_prepared [OF inv] by blast
  have ins: "sl_insert cmp rng l key = Some (splicing l3 prev ?node height)"
    using last_splice_stores [of l3 prev ?node "[0..<height]"] by (simp add: sl_insert_def p(1) splicing_def)
  have lt: "n < length (sl_nodes l)" if "n \<in> set (sl_head # ns)" for n
    using inv that by (auto simp: sl_inv_def)
  have keys: "sl_key l3 n = sl_key l n" if "n \<in> set ns" for n
    using p(8) lt that by (auto simp: sl_key_def nth_append)
  have node: "sl_key l3 ?node = key" using p(8) by (simp add: sl_key_def)
  have "\<forall>n \<in> set ?L. cmp (sl_key l3 n) (sl_key l3 ?node) < 0"
    using below_before keys node by (metis set_takeWhileD)
  moreover have "\<forall>n \<in> set ?R. cmp (sl_key l3 ?node) (sl_key l3 n) < 0"
  proof
    fix n assume n: "n \<in> set ?R"
    then have "n \<in> set ns" by (rule set_dropWhileD)
    moreover have "\<not> before cmp l key n" using onward_not_before [OF inv n] .
    ultimately have "0 < cmp (sl_key l n) key" using new by force
    then show "cmp (sl_key l3 ?node) (sl_key l3 n) < 0"
      using cmp_swap keys [OF \<open>n \<in> set ns\<close>] node by simp
  qed
  moreover have "sl_inv cmp l3 (?L @ ?R) h" using p(4) by simp
  moreover have "?node \<notin> set (sl_head # ?L @ ?R)" using lt by auto
  ultimately have "sl_inv cmp (splicing l3 prev ?node j) (if j = 0 then ?L @ ?R else ?L @ ?node # ?R) (h(?node := j))"
    if "j \<le> height" for j
    using p that by (intro splicing_inv [where height = height]) auto
  then have steps: "sl_inv cmp (splicing l3 prev ?node j) (if j = 0 then ns else ?L @ ?node # ?R) (h(?node := j))"
    if "j \<le> height" for j
    using that by (simp only: takeWhile_dropWhile_id)
  show thesis by (rule that [OF p(1-3) ins p(5)], erule keys, rule node, erule steps) (use p(8) in simp_all)
qed

end

section \<open>Readers beside a writer\<close>

text \<open>
  The list may change under a reader: nodes come, none goes, and a node is linked into
  ever more levels.
\<close>

definition grows :: "'k SkipList \<Rightarrow> nat list \<Rightarrow> (nat \<Rightarrow> nat) \<Rightarrow> 'k SkipList \<Rightarrow> nat list \<Rightarrow> (nat \<Rightarrow> nat) \<Rightarrow> bool" where
  "grows l ns h l' ns' h' \<longleftrightarrow> (\<forall>n \<in> set ns. n \<in> set ns' \<and> h n \<le> h' n \<and> sl_key l' n = sl_key l n)"

fun good_stores :: "('k \<Rightarrow> 'k \<Rightarrow> int) \<Rightarrow> 'k SkipList \<Rightarrow> nat list \<Rightarrow> (nat \<Rightarrow> nat) \<Rightarrow> 'k SkipList list \<Rightarrow> bool" where
  "good_stores cmp l ns h [] \<longleftrightarrow> True"
| "good_stores cmp l ns h (l' # stores) \<longleftrightarrow>
     (\<exists>ns' h'. sl_inv cmp l' ns' h' \<and> grows l ns h l' ns' h' \<and> good_stores cmp l' ns' h' stores)"

lemma grows_refl: "grows l ns h l ns h"
  by (simp add: grows_def)

text \<open>Filling a pointer of a level the node is not linked into yet changes no chain.\<close>

lemma fill_level_inv:
  assumes inv: "sl_inv cmp l ns h" and node: "node < length (sl_nodes l)" "i < length (node_next (sl_nodes l ! node))"
    "node \<noteq> sl_head" "node \<in> set ns \<Longrightarrow> h node \<le> i"
  shows "sl_inv cmp (fill_level prev node l i) ns h"
proof -
  have "path (sl_next (fill_level prev node l i) k) sl_head (filter (\<lambda>n. k < h n) ns) \<longleftrightarrow>
      path (sl_next l k) sl_head (filter (\<lambda>n. k < h n) ns)" for k
    using node by (intro path_cong) (auto simp: fill_level_def sl_next_set_next)
  then show ?thesis using inv by (simp add: sl_inv_def fill_level_def)
qed

lemma good_splice:
  assumes inv: "\<And>j. j \<le> height \<Longrightarrow> sl_inv cmp (splicing l prev node j) (if j = 0 then ns else ns') (h(node := j))"
    and node: "node < length (sl_nodes l)" "length (node_next (sl_nodes l ! node)) = height" "node \<noteq> sl_head" "node \<notin> set ns"
    and sub: "set ns \<subseteq> set ns'" and j: "j \<le> height"
  shows "good_stores cmp (splicing l prev node j) (if j = 0 then ns else ns') (h(node := j))
    (splice_stores prev node (splicing l prev node j) [j..<height])"
  using j
proof (induction "height - j" arbitrary: j)
  case (Suc d)
  let ?l = "splicing l prev node j" and ?f = "fill_level prev node (splicing l prev node j) j"
  let ?ns = "if j = 0 then ns else ns'"
  have j: "j < height" using Suc.hyps(2) by simp
  have f: "sl_inv cmp ?f ?ns (h(node := j))"
    by (rule fill_level_inv [OF inv [OF Suc.prems]]) (use node j in auto)
  have next_l: "publish_level prev node ?f j = splicing l prev node (Suc j)" by (simp add: splicing_Suc link_level_def)
  have rest: "good_stores cmp (splicing l prev node (Suc j)) ns' (h(node := Suc j))
      (splice_stores prev node (splicing l prev node (Suc j)) [Suc j..<height])"
    using Suc.hyps(1) [of "Suc j"] Suc.hyps(2) j by simp
  have p: "sl_inv cmp (splicing l prev node (Suc j)) ns' (h(node := Suc j))" using inv [of "Suc j"] j by simp
  have "grows ?l ?ns (h(node := j)) ?f ?ns (h(node := j))" by (simp add: grows_def fill_level_def)
  moreover have "grows ?f ?ns (h(node := j)) (splicing l prev node (Suc j)) ns' (h(node := Suc j))"
    using sub node(4) by (auto simp: grows_def fill_level_def)
  ultimately have "good_stores cmp ?l ?ns (h(node := j))
      (?f # splicing l prev node (Suc j) # splice_stores prev node (splicing l prev node (Suc j)) [Suc j..<height])"
    using f p rest unfolding good_stores.simps by blast
  then show ?case unfolding upt_conv_Cons [OF j] splice_stores.simps Let_def next_l .
qed simp

context skip_order
begin

lemma good_insert:
  assumes inv: "sl_inv cmp l ns h" and new: "\<forall>n \<in> set ns. cmp (sl_key l n) key \<noteq> 0"
    and st: "insert_stores cmp rng l key = Some stores"
  shows "good_stores cmp l ns h stores"
proof -
  let ?node = "length (sl_nodes l)" and ?ns' = "below l ns key @ length (sl_nodes l) # onward l ns key"
  obtain l2 l3 prev height where p:
    "insert_stores cmp rng l key = Some (l2 # l3 # splice_stores prev ?node l3 [0..<height])"
    "sl_inv cmp l2 ns h" "sl_nodes l2 = sl_nodes l" "sl_insert cmp rng l key = Some (splicing l3 prev ?node height)" "0 < height"
    "\<And>n. n \<in> set ns \<Longrightarrow> sl_key l3 n = sl_key l n" "sl_key l3 ?node = key"
    "\<And>j. j \<le> height \<Longrightarrow> sl_inv cmp (splicing l3 prev ?node j) (if j = 0 then ns else ?ns') (h(?node := j))"
    "?node < length (sl_nodes l3)" "length (node_next (sl_nodes l3 ! ?node)) = height"
    by (rule insert_steps [OF inv new, of rng], rule that)
  have node: "?node \<noteq> sl_head" "?node \<notin> set ns" using inv by (auto simp: sl_inv_def)
  have "set ns = set (below l ns key) \<union> set (onward l ns key)" by (metis set_append takeWhile_dropWhile_id)
  then have "set ns \<subseteq> set ?ns'" by auto
  from good_splice [OF p(8-10) node this, of 0]
  have "good_stores cmp l3 ns (h(?node := 0)) (splice_stores prev ?node l3 [0..<height])" by (simp add: splicing_def)
  moreover have "sl_inv cmp l3 ns (h(?node := 0))" using p(8) [of 0] by (simp add: splicing_def)
  moreover have "grows l ns h l2 ns h" "grows l2 ns h l3 ns (h(?node := 0))"
    using p(3,6) node by (auto simp: grows_def sl_key_def)
  ultimately have "good_stores cmp l ns h (l2 # l3 # splice_stores prev ?node l3 [0..<height])"
    using p(2) unfolding good_stores.simps by blast
  moreover have "stores = l2 # l3 # splice_stores prev ?node l3 [0..<height]" using st p(1) by simp
  ultimately show ?thesis by (simp only:)
qed

end

text \<open>
  A search stands on the head or on a node before its target that is linked at its level,
  and every turn took it down a level or past a node.
\<close>

definition search_ok :: "('k \<Rightarrow> 'k \<Rightarrow> int) \<Rightarrow> 'k \<Rightarrow> nat \<Rightarrow> 'k SkipList \<Rightarrow> nat list \<Rightarrow> (nat \<Rightarrow> nat) \<Rightarrow> ge_search \<Rightarrow> nat \<Rightarrow> bool" where
  "search_ok cmp target lv l ns h s n \<longleftrightarrow>
     (case s of
        Searching p i \<Rightarrow> (p = sl_head \<or> p \<in> set ns \<and> before cmp l target p \<and> i < h p) \<and> i \<le> lv \<and>
          n + i \<le> lv + card {m \<in> set ns. p \<noteq> sl_head \<and> (m = p \<or> cmp (sl_key l m) (sl_key l p) < 0)}
      | Found r \<Rightarrow> n \<le> lv + length ns + 1)"

lemma search_ok_turns:
  assumes "search_ok cmp target lv l ns h s n" "distinct ns"
  shows "n \<le> lv + length ns + 1"
proof (cases s)
  case (Searching p i)
  have "card {m \<in> set ns. p \<noteq> sl_head \<and> (m = p \<or> cmp (sl_key l m) (sl_key l p) < 0)} \<le> card (set ns)"
    by (rule card_mono) auto
  then show ?thesis using assms Searching by (simp add: search_ok_def distinct_card)
qed (use assms in \<open>simp add: search_ok_def\<close>)

lemma search_ok_grows:
  assumes ok: "search_ok cmp target lv l ns h s n" and g: "grows l ns h l' ns' h'" and d: "distinct ns" "distinct ns'"
  shows "search_ok cmp target lv l' ns' h' s n"
proof -
  have sub: "set ns \<subseteq> set ns'" and key: "\<And>m. m \<in> set ns \<Longrightarrow> sl_key l' m = sl_key l m" using g by (auto simp: grows_def)
  show ?thesis
  proof (cases s)
    case (Found r)
    have "length ns \<le> length ns'" using card_mono [OF _ sub] d by (simp add: distinct_card)
    then show ?thesis using ok Found by (simp add: search_ok_def)
  next
    case (Searching p i)
    have st: "p = sl_head \<or> p \<in> set ns" using ok Searching by (auto simp: search_ok_def)
    have "{m \<in> set ns. p \<noteq> sl_head \<and> (m = p \<or> cmp (sl_key l m) (sl_key l p) < 0)} \<subseteq>
        {m \<in> set ns'. p \<noteq> sl_head \<and> (m = p \<or> cmp (sl_key l' m) (sl_key l' p) < 0)}"
      using sub key st by auto
    from card_mono [OF _ this] show ?thesis using ok g Searching
      by (auto simp: search_ok_def grows_def)
  qed
qed

lemma path_nodes_next: "path nx p xs \<Longrightarrow> nx p = first_of xs"
  by (cases xs) simp_all

lemma first_of_Some: "first_of xs = Some x \<Longrightarrow> x \<in> set xs"
  by (cases xs) simp_all

context skip_order
begin

lemma cmp_irrefl: "\<not> cmp a a < 0"
  using cmp_swap [of a a] by linarith

text \<open>Where a search stands, the nodes before it and the nodes it has yet to pass.\<close>

lemma search_stands:
  assumes inv: "sl_inv cmp l ns h" and ok: "search_ok cmp target lv l ns h (Searching p i) n" and i: "i < kMaxHeight"
  obtains A B where "ns = A @ B" "A = [] \<longleftrightarrow> p = sl_head" "A \<noteq> [] \<Longrightarrow> p = last A \<and> before cmp l target p"
    "sl_next l i p = first_of (filter (\<lambda>n. i < h n) B)"
proof -
  have st: "p = sl_head \<or> p \<in> set ns \<and> before cmp l target p \<and> i < h p" using ok by (simp add: search_ok_def)
  have h0: "sl_head \<notin> set ns" using inv by (simp add: sl_inv_def)
  obtain A B where AB: "ns = A @ B" "A = [] \<longleftrightarrow> p = sl_head" "A \<noteq> [] \<Longrightarrow> p = last A \<and> before cmp l target p \<and> i < h p"
  proof (cases "p = sl_head")
    case True
    then show thesis using that [of "[]" ns] by simp
  next
    case False
    then obtain A B where "ns = A @ p # B" using st split_list by metis
    then show thesis using that [of "A @ [p]" B] False st by simp
  qed
  have "path (sl_next l i) sl_head (filter (\<lambda>n. i < h n) (A @ B))" using sl_inv_path [OF inv i] AB(1) by simp
  then have "path (sl_next l i) p (filter (\<lambda>n. i < h n) B)"
    by (rule path_suffix) (use AB in auto)
  from path_nodes_next [OF this] show thesis using that [of A B] AB by blast
qed

lemma search_turn_ok:
  assumes inv: "sl_inv cmp l ns h" and ok: "search_ok cmp target lv l ns h (Searching p i) n" and lv: "lv < kMaxHeight"
  shows "search_ok cmp target lv l ns h (search_turn cmp l target (Searching p i)) (n + 1)"
    and "search_turn cmp l target (Searching p i) = Found r \<Longrightarrow> r = first_of (onward l ns target)"
proof -
  have i: "i < kMaxHeight" using ok lv by (simp add: search_ok_def)
  let ?P = "\<lambda>n. i < h n" and ?C = "\<lambda>p. {m \<in> set ns. p \<noteq> sl_head \<and> (m = p \<or> cmp (sl_key l m) (sl_key l p) < 0)}"
  obtain A B where AB: "ns = A @ B" "A = [] \<longleftrightarrow> p = sl_head" "A \<noteq> [] \<Longrightarrow> p = last A \<and> before cmp l target p"
    and nx: "sl_next l i p = first_of (filter ?P B)"
    using search_stands [OF inv ok i] by metis
  have d: "distinct ns" "sl_head \<notin> set ns" and so: "sorted_wrt (\<lambda>a b. cmp (sl_key l a) (sl_key l b) < 0) ns"
    and pos: "\<forall>m \<in> set ns. 0 < h m" using inv by (auto simp: sl_inv_def)
  have adv: "search_ok cmp target lv l ns h (Searching x i) (n + 1)" if x: "sl_next l i p = Some x" "before cmp l target x" for x
  proof -
    have xB: "x \<in> set B" "?P x" using first_of_Some [of "filter ?P B" x] x(1) nx by auto
    have lt: "p = sl_head \<or> cmp (sl_key l p) (sl_key l x) < 0"
      using so AB xB(1) last_in_set [of A] by (auto simp: AB(1) sorted_wrt_append)
    then have "?C p \<subseteq> ?C x" "x \<in> ?C x" "x \<notin> ?C p"
      using d AB(1) xB(1) cmp_trans cmp_irrefl by auto
    then have "card (?C p) < card (?C x)" by (intro psubset_card_mono) auto
    then show ?thesis using ok x(2) xB AB(1) by (auto simp: search_ok_def)
  qed
  have "card (?C p) \<le> length ns" using card_mono [of "set ns" "?C p"] d by (simp add: distinct_card)
  then show "search_ok cmp target lv l ns h (search_turn cmp l target (Searching p i)) (n + 1)"
    using ok adv by (auto simp: search_turn_def key_is_after_node_def Let_def search_ok_def split: option.splits)
  assume "search_turn cmp l target (Searching p i) = Found r"
  then have r: "i = 0" "r = first_of (filter ?P B)" "\<not> key_is_after_node cmp l target r"
    using nx by (auto simp: search_turn_def Let_def split: if_splits)
  have B: "filter ?P B = B" using pos r(1) AB(1) by (auto simp: filter_id_conv)
  have bA: "before cmp l target m" if "m \<in> set A" for m
  proof (cases "A = []")
    case False
    have "m = last A \<or> cmp (sl_key l m) (sl_key l (last A)) < 0"
      using so that False by (cases A rule: rev_cases) (auto simp: AB(1) sorted_wrt_append)
    then show ?thesis using AB(3) [OF False] cmp_trans by blast
  qed (use that in simp)
  have on: "onward l ns target = onward l B target" unfolding AB(1) by (rule dropWhile_append2 [OF bA])
  show "r = first_of (onward l ns target)"
    unfolding on using r(2,3) B by (cases B) (auto simp: key_is_after_node_def)
qed

lemma beside_writer_inv:
  assumes "beside_writer cmp rng target l0 lv l stores s n" "sl_inv cmp l0 ns0 h0" "lv < kMaxHeight"
  shows "\<exists>ns h. sl_inv cmp l ns h \<and> good_stores cmp l ns h stores \<and> search_ok cmp target lv l ns h s n \<and>
    grows l0 ns0 h0 l ns h"
  using assms(1)
proof induction
  case Start
  have "search_ok cmp target lv l0 ns0 h0 (Searching sl_head lv) 0" by (simp add: search_ok_def)
  then show ?case using assms(2) grows_refl by (metis good_stores.simps(1))
next
  case (Insert l s n key stores)
  then obtain ns h where ih: "sl_inv cmp l ns h" "search_ok cmp target lv l ns h s n" "grows l0 ns0 h0 l ns h" by blast
  have "\<forall>m \<in> set ns. 0 < m \<and> m < length (sl_nodes l)" using ih(1) unfolding sl_inv_def by (auto intro: gr0I)
  then have "good_stores cmp l ns h stores" using good_insert [OF ih(1) _ Insert.hyps(2)] Insert.hyps(3) by blast
  then show ?case using ih by blast
next
  case (Store l l' stores s n)
  then obtain ns h ns' h' where ih: "sl_inv cmp l ns h" "search_ok cmp target lv l ns h s n" "grows l0 ns0 h0 l ns h"
    and st: "sl_inv cmp l' ns' h'" "grows l ns h l' ns' h'" "good_stores cmp l' ns' h' stores" by auto
  have "distinct ns" "distinct ns'" using ih(1) st(1) by (auto simp: sl_inv_def)
  then have "search_ok cmp target lv l' ns' h' s n" by (rule search_ok_grows [OF ih(2) st(2)])
  moreover have "grows l0 ns0 h0 l' ns' h'" using ih(3) st(2) by (auto simp: grows_def intro: le_trans)
  ultimately show ?case using st by blast
next
  case (Turn l stores p i n)
  then obtain ns h where "sl_inv cmp l ns h" "good_stores cmp l ns h stores" "search_ok cmp target lv l ns h (Searching p i) n"
    "grows l0 ns0 h0 l ns h" by blast
  then show ?case using search_turn_ok(1) assms(3) by blast
qed

end

end
