(* ===== verification/Arena.thy ===== *)
theory Arena
  imports Ambar_Prelude
begin

text \<open>
  src/arena.hpp and src/arena.cpp: the bump allocator under the memtable.  A
  pointer is a block number and an offset in that block; blocks come from
  \<open>new[]\<close> and start at an address suitable for any scalar, so the alignment of a
  pointer is that of its offset.  \<open>al\<close> is alignof(std::max\_align\_t).
\<close>

type_synonym ptr = "nat \<times> nat"

record Arena =
  ar_ptr :: "ptr option"
  ar_remaining :: nat
  ar_blocks :: "nat list"
  ar_usage :: nat

definition Arena_ctor :: Arena where
  "Arena_ctor = \<lparr>ar_ptr = None, ar_remaining = 0, ar_blocks = [], ar_usage = 0\<rparr>"

definition kArenaBlockSize :: nat where
  "kArenaBlockSize = 4096"

definition kAlign :: "nat \<Rightarrow> nat" where
  "kAlign al = (if 8 < al then al else 8)"

definition allocate_new_block :: "Arena \<Rightarrow> nat \<Rightarrow> ptr \<times> Arena" where
  "allocate_new_block a block_bytes =
     ((length (ar_blocks a), 0),
      a\<lparr>ar_blocks := ar_blocks a @ [block_bytes], ar_usage := ar_usage a + block_bytes + 8\<rparr>)"

definition bump :: "Arena \<Rightarrow> nat \<Rightarrow> Arena" where
  "bump a bytes =
     a\<lparr>ar_ptr := map_option (\<lambda>(b, off). (b, off + bytes)) (ar_ptr a),
       ar_remaining := ar_remaining a - bytes\<rparr>"

definition allocate_fallback :: "Arena \<Rightarrow> nat \<Rightarrow> ptr \<times> Arena" where
  "allocate_fallback a bytes =
     (if kArenaBlockSize div 4 < bytes then allocate_new_block a bytes
      else case allocate_new_block a kArenaBlockSize of (p, a1) \<Rightarrow>
        (p, bump (a1\<lparr>ar_ptr := Some p, ar_remaining := kArenaBlockSize\<rparr>) bytes))"

text \<open>With nothing remaining and no bytes asked for, the null pointer itself comes back.\<close>

definition allocate :: "Arena \<Rightarrow> nat \<Rightarrow> ptr option \<times> Arena" where
  "allocate a bytes =
     (if bytes \<le> ar_remaining a then (ar_ptr a, bump a bytes)
      else case allocate_fallback a bytes of (p, a') \<Rightarrow> (Some p, a'))"

definition allocate_aligned :: "nat \<Rightarrow> Arena \<Rightarrow> nat \<Rightarrow> ptr option \<times> Arena" where
  "allocate_aligned al a bytes =
     (let current = (case ar_ptr a of None \<Rightarrow> 0 | Some (_, off) \<Rightarrow> off mod kAlign al);
          slop = (if current = 0 then 0 else kAlign al - current);
          needed = bytes + slop
      in if needed \<le> ar_remaining a
         then (map_option (\<lambda>(b, off). (b, off + slop)) (ar_ptr a), bump a needed)
         else case allocate_fallback a bytes of (p, a') \<Rightarrow> (Some p, a'))"

section \<open>Regions\<close>

text \<open>A region is a pointer and a size; an arena's regions lie in its blocks and never meet.\<close>

type_synonym region = "ptr \<times> nat"

fun apart :: "region \<Rightarrow> region \<Rightarrow> bool" where
  "apart ((b, off), n) ((b', off'), n') \<longleftrightarrow> b \<noteq> b' \<or> off + n \<le> off' \<or> off' + n' \<le> off"

fun in_block :: "Arena \<Rightarrow> region \<Rightarrow> bool" where
  "in_block a ((b, off), n) \<longleftrightarrow> b < length (ar_blocks a) \<and> off + n \<le> ar_blocks a ! b"

definition free_ok :: "Arena \<Rightarrow> region list \<Rightarrow> bool" where
  "free_ok a rs \<longleftrightarrow>
     (case ar_ptr a of
        None \<Rightarrow> ar_remaining a = 0
      | Some p \<Rightarrow> in_block a (p, ar_remaining a) \<and>
          (\<forall>r \<in> set rs. fst (fst r) = fst p \<longrightarrow> snd (fst r) + snd r \<le> snd p))"

definition arena_inv :: "Arena \<Rightarrow> region list \<Rightarrow> bool" where
  "arena_inv a rs \<longleftrightarrow> (\<forall>r \<in> set rs. in_block a r) \<and> sorted_wrt apart rs \<and> free_ok a rs"

lemma arena_inv_ctor: "arena_inv Arena_ctor []"
  by (simp add: arena_inv_def free_ok_def Arena_ctor_def)

text \<open>Carving \<open>n\<close> bytes after \<open>slop\<close> out of the free area.\<close>

lemma arena_inv_bump:
  assumes inv: "arena_inv a rs" and p: "ar_ptr a = Some (b, off)" and n: "slop + n \<le> ar_remaining a"
  shows "arena_inv (bump a (slop + n)) (((b, off + slop), n) # rs)"
proof -
  have "apart ((b, off + slop), n) r" if "r \<in> set rs" for r
    using inv p that by (cases r; cases "fst r") (force simp: arena_inv_def free_ok_def)
  moreover have "in_block (bump a k) r = in_block a r" for k r
    by (cases r; cases "fst r") (simp add: bump_def)
  ultimately show ?thesis
    using inv p n by (force simp: arena_inv_def free_ok_def bump_def)
qed

lemma in_block_new:
  "in_block a r \<Longrightarrow> allocate_new_block a n = (p, a') \<Longrightarrow> in_block a' r"
  by (cases r; cases "fst r") (auto simp: allocate_new_block_def nth_append)

lemma arena_inv_new_block:
  assumes inv: "arena_inv a rs" and nb: "allocate_new_block a n = (p, a')"
  shows "arena_inv a' ((p, n) # rs)"
proof -
  have p: "p = (length (ar_blocks a), 0)" "ar_ptr a' = ar_ptr a" "ar_remaining a' = ar_remaining a"
      "ar_blocks a' = ar_blocks a @ [n]"
    using nb by (auto simp: allocate_new_block_def)
  have old: "fst (fst r) < length (ar_blocks a)" if "in_block a r" for r
    using that by (cases r; cases "fst r") simp
  have "apart (p, n) r" if "r \<in> set rs" for r
    using inv that old [of r] p(1) by (cases r; cases "fst r") (force simp: arena_inv_def)
  moreover have "in_block a' r" if "in_block a r" for r using in_block_new [OF that nb] .
  moreover have "free_ok a' ((p, n) # rs)"
    using inv p old by (auto simp: arena_inv_def free_ok_def nth_append split: option.splits)
  ultimately show ?thesis using inv p by (auto simp: arena_inv_def)
qed

lemma arena_inv_fallback:
  assumes inv: "arena_inv a rs" and f: "allocate_fallback a n = (p, a')"
  shows "arena_inv a' ((p, n) # rs) \<and> snd p = 0"
proof (cases "kArenaBlockSize div 4 < n")
  case True
  then show ?thesis
    using f arena_inv_new_block [OF inv] by (auto simp: allocate_fallback_def allocate_new_block_def)
next
  case False
  obtain a1 where a1: "allocate_new_block a kArenaBlockSize = (p, a1)"
      "a' = bump (a1\<lparr>ar_ptr := Some p, ar_remaining := kArenaBlockSize\<rparr>) n"
    using f False by (auto simp: allocate_fallback_def split: prod.splits)
  let ?a = "a1\<lparr>ar_ptr := Some p, ar_remaining := kArenaBlockSize\<rparr>"
  have p: "p = (length (ar_blocks a), 0)" using a1(1) by (auto simp: allocate_new_block_def)
  have "arena_inv ?a rs"
  proof -
    have "in_block ?a r = in_block a1 r" for r by (cases r; cases "fst r") simp
    moreover have "fst (fst r) \<noteq> fst p" if "r \<in> set rs" for r
      using inv that p by (cases r; cases "fst r") (force simp: arena_inv_def)
    moreover have "in_block a1 (p, kArenaBlockSize)" "\<forall>r \<in> set rs. in_block a1 r" "sorted_wrt apart rs"
      using arena_inv_new_block [OF inv a1(1)] by (auto simp: arena_inv_def)
    ultimately show ?thesis by (auto simp: arena_inv_def free_ok_def)
  qed
  from arena_inv_bump [OF this, of "fst p" "snd p" 0 n] show ?thesis
    using False a1(2) p by (simp add: kArenaBlockSize_def)
qed

lemma allocate_inv:
  assumes inv: "arena_inv a rs" and n: "0 < n" and al: "allocate a n = (q, a')"
  shows "\<exists>p. q = Some p \<and> arena_inv a' ((p, n) # rs)"
proof (cases "n \<le> ar_remaining a")
  case True
  then obtain b off where p: "ar_ptr a = Some (b, off)"
    using inv n by (cases "ar_ptr a") (auto simp: arena_inv_def free_ok_def)
  have "q = ar_ptr a" "a' = bump a n" using al True by (simp_all add: allocate_def)
  then show ?thesis using True arena_inv_bump [OF inv p, of 0 n] p by simp
next
  case False
  then show ?thesis using al arena_inv_fallback [OF inv] by (auto simp: allocate_def split: prod.splits)
qed

lemma allocate_aligned_inv:
  assumes inv: "arena_inv a rs" and n: "0 < n" and al: "allocate_aligned al a n = (q, a')"
  shows "\<exists>p. q = Some p \<and> arena_inv a' ((p, n) # rs) \<and> snd p mod kAlign al = 0"
proof -
  let ?cur = "case ar_ptr a of None \<Rightarrow> 0 | Some (_, off) \<Rightarrow> off mod kAlign al"
  let ?slop = "if ?cur = 0 then 0 else kAlign al - ?cur"
  show ?thesis
  proof (cases "n + ?slop \<le> ar_remaining a")
    case True
    then obtain b off where p: "ar_ptr a = Some (b, off)"
      using inv n by (cases "ar_ptr a") (auto simp: arena_inv_def free_ok_def)
    have q: "q = Some (b, off + ?slop)" "a' = bump a (?slop + n)"
      using al True p by (auto simp: allocate_aligned_def Let_def add.commute)
    have "off mod kAlign al \<le> kAlign al" by (simp add: kAlign_def less_imp_le)
    then have "(off + ?slop) mod kAlign al = 0"
      using p by (auto simp: mod_add_left_eq [of off, symmetric])
    then show ?thesis
      using arena_inv_bump [OF inv p, of ?slop n] True q by (simp add: add.commute)
  next
    case False
    obtain p a'' where f: "allocate_fallback a n = (p, a'')" by fastforce
    then have "q = Some p" "a' = a''"
      using al False unfolding allocate_aligned_def Let_def by simp_all
    then show ?thesis using arena_inv_fallback [OF inv f] by simp
  qed
qed

section \<open>Properties\<close>

text \<open>A request: any alignment, or aligned; the flag says which.\<close>

type_synonym request = "bool \<times> nat"

fun serve :: "nat \<Rightarrow> Arena \<Rightarrow> request list \<Rightarrow> (ptr option list \<times> Arena)" where
  "serve al a [] = ([], a)"
| "serve al a ((aligned, n) # qs) =
     (case (if aligned then allocate_aligned al a n else allocate a n) of (p, a') \<Rightarrow>
      case serve al a' qs of (ps, a'') \<Rightarrow> (p # ps, a''))"

lemma serve_inv:
  assumes "arena_inv a rs" "\<forall>q \<in> set qs. 0 < snd q" "serve al a qs = (ps, a')"
  shows "\<exists>xs. ps = map Some xs \<and> length xs = length qs \<and>
    arena_inv a' (rev (zip xs (map snd qs)) @ rs) \<and>
    (\<forall>i < length qs. fst (qs ! i) \<longrightarrow> snd (xs ! i) mod kAlign al = 0)"
  using assms
proof (induction qs arbitrary: a rs ps)
  case (Cons q qs)
  obtain aligned n where q: "q = (aligned, n)" by fastforce
  obtain p1 a1 where a1: "(if aligned then allocate_aligned al a n else allocate a n) = (p1, a1)" by fastforce
  obtain ps' where ps': "serve al a1 qs = (ps', a')" "ps = p1 # ps'"
    using Cons.prems(3) q a1 by (auto split: prod.splits)
  have n: "0 < n" using Cons.prems(2) q by simp
  then obtain p where p: "p1 = Some p" "arena_inv a1 ((p, n) # rs)" "aligned \<longrightarrow> snd p mod kAlign al = 0"
    using a1 allocate_inv [OF Cons.prems(1) n] allocate_aligned_inv [OF Cons.prems(1) n]
    by (cases aligned) fastforce+
  then obtain xs where xs: "ps' = map Some xs" "length xs = length qs"
      "arena_inv a' (rev (zip xs (map snd qs)) @ (p, n) # rs)"
      "\<forall>i < length qs. fst (qs ! i) \<longrightarrow> snd (xs ! i) mod kAlign al = 0"
    using Cons.IH [OF p(2) _ ps'(1)] Cons.prems(2) by auto
  then show ?case
    using p q ps' by (intro exI [of _ "p # xs"]) (auto simp: nth_Cons split: nat.splits)
qed simp

text \<open>
  C28. Memory handed out by an arena is never handed out twice.  For any sequence
  of requests of at least one byte each, served by allocate or allocate\_aligned in any order, every request
  gets a pointer; the regions lie inside the blocks obtained from new, any two of
  them are disjoint, and every aligned request starts at an aligned address.
\<close>

theorem arena_regions_disjoint:
  assumes "\<forall>q \<in> set qs. 0 < snd q" "serve al Arena_ctor qs = (ps, a)"
  shows "\<exists>xs. ps = map Some xs \<and> length xs = length qs \<and>
    (\<forall>i < length qs. in_block a (xs ! i, snd (qs ! i)) \<and> (fst (qs ! i) \<longrightarrow> snd (xs ! i) mod kAlign al = 0)) \<and>
    (\<forall>i < length qs. \<forall>j < i. apart (xs ! i, snd (qs ! i)) (xs ! j, snd (qs ! j)))"
proof -
  obtain xs where xs: "ps = map Some xs" "length xs = length qs"
      "arena_inv a (rev (zip xs (map snd qs)))"
      "\<forall>i < length qs. fst (qs ! i) \<longrightarrow> snd (xs ! i) mod kAlign al = 0"
    using serve_inv [OF arena_inv_ctor assms] by auto
  let ?zs = "zip xs (map snd qs)"
  have z: "?zs ! i = (xs ! i, snd (qs ! i))" "length ?zs = length qs" if "i < length qs" for i
    using that xs(2) by simp_all
  have "in_block a (?zs ! i)" if "i < length qs" for i
    using xs(3) z(2) [OF that] that by (metis arena_inv_def nth_mem set_rev)
  moreover have "apart (?zs ! i) (?zs ! j)" if "i < length qs" "j < i" for i j
  proof -
    have "sorted_wrt (\<lambda>x y. apart y x) ?zs" using xs(3) by (simp add: arena_inv_def sorted_wrt_rev)
    then show ?thesis using z(2) [OF that(1)] that sorted_wrt_nth_less by metis
  qed
  ultimately show ?thesis using xs z by (intro exI [of _ xs]) simp
qed

theorem arena_regions_disjoint_witness:
  "\<exists>xs. fst (serve 16 Arena_ctor [(False, 3), (True, 40), (False, 2000)]) = map Some xs \<and>
     apart (xs ! 1, 40) (xs ! 0, 3)"
proof -
  let ?qs = "[(False, 3), (True, 40), (False, 2000)] :: request list"
  obtain ps a where s: "serve 16 Arena_ctor ?qs = (ps, a)" by fastforce
  then obtain xs where xs: "ps = map Some xs"
      "\<forall>i < length ?qs. \<forall>j < i. apart (xs ! i, snd (?qs ! i)) (xs ! j, snd (?qs ! j))"
    using arena_regions_disjoint [of ?qs 16 ps a] by auto
  have "apart (xs ! 1, snd (?qs ! 1)) (xs ! 0, snd (?qs ! 0))" by (rule xs(2) [rule_format]) simp_all
  then show ?thesis using s xs(1) by (intro exI [of _ xs]) simp
qed

end
