(* ===== verification/Memtable.thy ===== *)
theory Memtable
  imports Comparator Skiplist Arena
begin

text \<open>
  src/memtable.hpp and src/memtable.cpp: the in-memory table.  A record is
  \<open>varint(klen) | internal key | varint(vlen) | value\<close> in the arena, and the skip
  list orders records by their internal keys.  A skip list key is the pointer to
  a record; records never change once written, so the pointer is modelled by the
  bytes that start there.
\<close>

section \<open>Records\<close>

definition read_length_prefixed :: "bytes \<Rightarrow> (bytes \<times> bytes) option" where
  "read_length_prefixed data =
     (case decode_varint32_exact data of
        None \<Rightarrow> None
      | Some (len, start) \<Rightarrow> Some (take (unat len) start, drop (unat len) start))"

definition rec_key :: "bytes \<Rightarrow> bytes" where
  "rec_key entry = fst (the (read_length_prefixed entry))"

definition rec_value :: "bytes \<Rightarrow> bytes" where
  "rec_value entry = fst (the (read_length_prefixed (snd (the (read_length_prefixed entry)))))"

definition mem_compare :: "bytes \<Rightarrow> bytes \<Rightarrow> int" where
  "mem_compare a b = compare_internal_keys (rec_key a) (rec_key b)"

record MemTable =
  mt_arena :: Arena
  mt_table :: "bytes SkipList"

text \<open>The size of a node with the given height: the key pointer and its next pointers.\<close>

definition node_size :: "nat \<Rightarrow> nat" where
  "node_size height = 16 + 8 * (height - 1)"

definition MemTable_ctor :: "nat \<Rightarrow> MemTable" where
  "MemTable_ctor al =
     \<lparr>mt_arena = snd (allocate_aligned al Arena_ctor (node_size kMaxHeight)),
      mt_table = SkipList_ctor []\<rparr>"

definition approximate_memory_usage :: "MemTable \<Rightarrow> nat" where
  "approximate_memory_usage mt = ar_usage (mt_arena mt)"

definition mem_encode :: "u64 \<Rightarrow> ValueType \<Rightarrow> bytes \<Rightarrow> bytes \<Rightarrow> bytes" where
  "mem_encode seq type key value =
     (let key_size = length key + 8;
          value_size = length value;
          e1 = put_varint32 [] (word_of_nat key_size);
          e2 = append_internal_key e1 \<lparr>user_key = key, sequence = seq, key_type = type\<rparr>;
          e3 = put_varint32 e2 (word_of_nat value_size)
      in e3 @ value)"

definition mem_add ::
    "nat \<Rightarrow> (nat \<Rightarrow> u32) \<Rightarrow> MemTable \<Rightarrow> u64 \<Rightarrow> ValueType \<Rightarrow> bytes \<Rightarrow> bytes \<Rightarrow> MemTable option" where
  "mem_add al rng mt seq type key value =
     (let encoded = mem_encode seq type key value;
          a1 = snd (allocate (mt_arena mt) (length encoded));
          height = fst (random_height rng (mt_table mt));
          a2 = snd (allocate_aligned al a1 (node_size height))
      in case sl_insert mem_compare rng (mt_table mt) encoded of
           None \<Rightarrow> None
         | Some table \<Rightarrow> Some \<lparr>mt_arena = a2, mt_table = table\<rparr>)"

text \<open>
  MemTable::get.  The outer option is the search returning; inside it, \<^term>\<open>None\<close> is
  false (this memtable has nothing to say) and \<^term>\<open>Some (s, v)\<close> is true with the
  status and the value.
\<close>

definition mem_get :: "MemTable \<Rightarrow> LookupKey \<Rightarrow> (status \<times> bytes) option option" where
  "mem_get mt key =
     (case it_seek mem_compare (mt_table mt) (lk_memtable_key key) of
        None \<Rightarrow> None
      | Some None \<Rightarrow> Some None
      | Some (Some n) \<Rightarrow>
          let entry = sl_key (mt_table mt) n;
              internal_key = rec_key entry
          in if extract_user_key internal_key \<noteq> lk_user_key key then Some None
             else if extract_value_type internal_key = value_type_byte kDeletion
             then Some (Some (Status kNotFound ''deleted'', []))
             else Some (Some (status_ok, rec_value entry)))"

section \<open>Iterator\<close>

definition mi_seek :: "MemTable \<Rightarrow> bytes \<Rightarrow> sl_iter option" where
  "mi_seek mt internal_key =
     it_seek mem_compare (mt_table mt)
       (put_varint32 [] (word_of_nat (length internal_key)) @ internal_key)"

definition mi_seek_to_first :: "MemTable \<Rightarrow> sl_iter" where
  "mi_seek_to_first mt = it_seek_to_first (mt_table mt)"

definition mi_seek_to_last :: "MemTable \<Rightarrow> sl_iter option" where
  "mi_seek_to_last mt = it_seek_to_last (mt_table mt)"

definition mi_next :: "MemTable \<Rightarrow> sl_iter \<Rightarrow> sl_iter" where
  "mi_next mt it = it_next (mt_table mt) it"

definition mi_prev :: "MemTable \<Rightarrow> sl_iter \<Rightarrow> sl_iter option" where
  "mi_prev mt it = it_prev mem_compare (mt_table mt) it"

definition mi_key :: "MemTable \<Rightarrow> sl_iter \<Rightarrow> bytes" where
  "mi_key mt it = rec_key (sl_key (mt_table mt) (the it))"

definition mi_value :: "MemTable \<Rightarrow> sl_iter \<Rightarrow> bytes" where
  "mi_value mt it = rec_value (sl_key (mt_table mt) (the it))"

section \<open>What a memtable stands for\<close>

record entry =
  e_key :: bytes
  e_seq :: u64
  e_type :: ValueType
  e_value :: bytes

definition wf_entry :: "entry \<Rightarrow> bool" where
  "wf_entry e \<longleftrightarrow> e_seq e \<le> kMaxSequenceNumber \<and> length (e_key e) + 8 < 2 ^ 32 \<and> length (e_value e) < 2 ^ 32"

definition ikey :: "entry \<Rightarrow> bytes" where
  "ikey e = make_internal_key (e_key e) (e_seq e) (e_type e)"

definition enc :: "entry \<Rightarrow> bytes" where
  "enc e = mem_encode (e_seq e) (e_type e) (e_key e) (e_value e)"

text \<open>Entries in the order of their internal keys.\<close>

definition e_less :: "entry \<Rightarrow> entry \<Rightarrow> bool" where
  "e_less a b \<longleftrightarrow> compare_internal_keys (ikey a) (ikey b) < 0"

definition mem_insert :: "entry \<Rightarrow> entry list \<Rightarrow> entry list" where
  "mem_insert e es = takeWhile (\<lambda>x. e_less x e) es @ e # dropWhile (\<lambda>x. e_less x e) es"

text \<open>The newest version of a user key that a snapshot may see.\<close>

definition visible :: "bytes \<Rightarrow> u64 \<Rightarrow> entry \<Rightarrow> bool" where
  "visible uk snapshot e \<longleftrightarrow> e_key e = uk \<and> e_seq e \<le> snapshot"

definition newest :: "bytes \<Rightarrow> u64 \<Rightarrow> entry set \<Rightarrow> entry \<Rightarrow> bool" where
  "newest uk snapshot E e \<longleftrightarrow> e \<in> E \<and> visible uk snapshot e \<and> (\<forall>x \<in> E. visible uk snapshot x \<longrightarrow> e_seq x \<le> e_seq e)"

definition answer_of :: "entry \<Rightarrow> status \<times> bytes" where
  "answer_of e = (case e_type e of kDeletion \<Rightarrow> (Status kNotFound ''deleted'', []) | kValue \<Rightarrow> (status_ok, e_value e))"

text \<open>No two entries share user key and sequence number.\<close>

definition version :: "entry \<Rightarrow> bytes \<times> u64" where
  "version e = (e_key e, e_seq e)"

definition mt_inv :: "MemTable \<Rightarrow> entry list \<Rightarrow> bool" where
  "mt_inv mt es \<longleftrightarrow> (\<forall>e \<in> set es. wf_entry e) \<and> distinct (map version es) \<and>
     (\<exists>ns h. sl_inv mem_compare (mt_table mt) ns h \<and> sl_keys (mt_table mt) ns = map enc es)"

interpretation mem: skip_order mem_compare
  by unfold_locales (auto simp: mem_compare_def cik_greater intro: cik_trans)

lemma read_length_prefixed_put:
  "length s < 2 ^ 32 \<Longrightarrow>
   read_length_prefixed (put_varint (word_of_nat (length s) :: u32) @ s @ rest) = Some (s, rest)"
  by (simp add: read_length_prefixed_def)

lemma enc_layout:
  "enc e = put_varint (word_of_nat (length (ikey e)) :: u32) @ ikey e @
           put_varint (word_of_nat (length (e_value e)) :: u32) @ e_value e"
  by (simp add: enc_def mem_encode_def Let_def put_varint32_def ikey_def make_internal_key_def
      append_internal_key_def put_fixed64_def)

lemma length_ikey [simp]: "length (ikey e) = length (e_key e) + 8"
  by (simp add: ikey_def)

lemma read_length_prefixed_enc:
  assumes "wf_entry e"
  shows "read_length_prefixed (enc e) =
    Some (ikey e, put_varint (word_of_nat (length (e_value e)) :: u32) @ e_value e)"
proof -
  have "length (ikey e) < 2 ^ 32" using assms by (simp add: wf_entry_def)
  then show ?thesis unfolding enc_layout by (rule read_length_prefixed_put)
qed

lemma rec_key_enc [simp]: "wf_entry e \<Longrightarrow> rec_key (enc e) = ikey e"
  by (simp add: rec_key_def read_length_prefixed_enc)

lemma rec_value_enc [simp]: "wf_entry e \<Longrightarrow> rec_value (enc e) = e_value e"
  using read_length_prefixed_put [of "e_value e" "[]"]
  by (simp add: rec_value_def read_length_prefixed_enc wf_entry_def)

lemma mem_compare_enc: "wf_entry a \<Longrightarrow> wf_entry b \<Longrightarrow> mem_compare (enc a) (enc b) < 0 \<longleftrightarrow> e_less a b"
  by (simp add: mem_compare_def e_less_def)

lemma e_less_iff:
  "wf_entry a \<Longrightarrow> wf_entry b \<Longrightarrow> e_less a b \<longleftrightarrow>
     e_key a < e_key b \<or> e_key a = e_key b \<and>
       (e_seq b < e_seq a \<or> e_seq a = e_seq b \<and> e_type a = kValue \<and> e_type b = kDeletion)"
  by (simp add: e_less_def ikey_def internal_key_order wf_entry_def)

section \<open>Adding\<close>

lemma mt_inv_ctor: "mt_inv (MemTable_ctor al) []"
  using sl_inv_ctor [of mem_compare "[]"] by (auto simp: mt_inv_def MemTable_ctor_def sl_keys_def)

text \<open>A record or a lookup key splits the list where the entry with its internal key does.\<close>

lemma sl_keys_split:
  assumes "sl_keys l ns = map enc es" "\<forall>e \<in> set es. wf_entry e" "rec_key K = ikey e"
  shows "map (sl_key l) (mem.below l ns K) = map enc (takeWhile (\<lambda>x. e_less x e) es)"
    "map (sl_key l) (mem.onward l ns K) = map enc (dropWhile (\<lambda>x. e_less x e) es)"
proof -
  have cmp: "mem_compare (enc x) K < 0 \<longleftrightarrow> e_less x e" if "x \<in> set es" for x
    using assms(2,3) that by (simp add: mem_compare_def e_less_def)
  have "takeWhile (\<lambda>k. mem_compare k K < 0) (sl_keys l ns) = map enc (takeWhile (\<lambda>x. e_less x e) es)"
    unfolding assms(1) takeWhile_map o_def
    by (intro arg_cong [of _ _ "map enc"] takeWhile_cong) (auto simp: cmp)
  moreover have "dropWhile (\<lambda>k. mem_compare k K < 0) (sl_keys l ns) = map enc (dropWhile (\<lambda>x. e_less x e) es)"
    unfolding assms(1) dropWhile_map o_def
    by (intro arg_cong [of _ _ "map enc"] dropWhile_cong) (auto simp: cmp)
  ultimately show "map (sl_key l) (mem.below l ns K) = map enc (takeWhile (\<lambda>x. e_less x e) es)"
    "map (sl_key l) (mem.onward l ns K) = map enc (dropWhile (\<lambda>x. e_less x e) es)"
    by (simp_all add: sl_keys_def takeWhile_map dropWhile_map o_def)
qed

lemma mem_compare_zero:
  assumes "wf_entry a" "wf_entry b" "mem_compare (enc a) (enc b) = 0"
  shows "version a = version b"
proof -
  have "ikey a = ikey b"
    using assms key_eqI [of "ikey a" "ikey b"] by (simp add: mem_compare_def cik_eq)
  then have "extract_user_key (ikey a) = extract_user_key (ikey b)"
    "extract_sequence (ikey a) = extract_sequence (ikey b)" by simp_all
  then show ?thesis using assms by (simp add: ikey_def wf_entry_def version_def)
qed

lemma mem_insert_versions:
  "distinct (map version es) \<Longrightarrow> version e \<notin> version ` set es \<Longrightarrow> distinct (map version (mem_insert e es))"
proof -
  assume *: "distinct (map version es)" "version e \<notin> version ` set es"
  have "distinct (map version (takeWhile (\<lambda>x. e_less x e) es @ dropWhile (\<lambda>x. e_less x e) es))"
    using * by simp
  then show ?thesis using *(2)
    by (auto simp: mem_insert_def dest: set_takeWhileD set_dropWhileD simp del: takeWhile_dropWhile_id)
qed

lemma set_mem_insert [simp]: "set (mem_insert e es) = insert e (set es)"
proof -
  have "set (takeWhile P es) \<union> set (dropWhile P es) = set es" for P
    by (metis set_append takeWhile_dropWhile_id)
  then show ?thesis by (simp add: mem_insert_def)
qed

lemma mem_add_inv:
  assumes inv: "mt_inv mt es" and e: "wf_entry e"
    and new: "version e \<notin> version ` set es"
  shows "\<exists>mt'. mem_add al rng mt (e_seq e) (e_type e) (e_key e) (e_value e) = Some mt' \<and>
    mt_inv mt' (mem_insert e es)"
proof -
  let ?l = "mt_table mt" and ?node = "length (sl_nodes (mt_table mt))"
  obtain ns h where ns: "sl_inv mem_compare ?l ns h" "sl_keys ?l ns = map enc es"
    and wf: "\<forall>e \<in> set es. wf_entry e" using inv by (auto simp: mt_inv_def)
  have "\<forall>n \<in> set ns. mem_compare (sl_key ?l n) (enc e) \<noteq> 0"
  proof
    fix n assume "n \<in> set ns"
    then have "sl_key ?l n \<in> set (map enc es)" unfolding ns(2) [symmetric] by (simp add: sl_keys_def)
    then obtain x where "x \<in> set es" "sl_key ?l n = enc x" by auto
    then show "mem_compare (sl_key ?l n) (enc e) \<noteq> 0"
      using mem_compare_zero [of x e] wf e new by (metis image_eqI)
  qed
  then obtain l3 prev height where st:
      "sl_insert mem_compare rng ?l (enc e) = Some (splicing l3 prev ?node height)" "0 < height"
      "\<And>n. n \<in> set ns \<Longrightarrow> sl_key l3 n = sl_key ?l n" "sl_key l3 ?node = enc e"
      "\<And>j. j \<le> height \<Longrightarrow> sl_inv mem_compare (splicing l3 prev ?node j)
         (if j = 0 then ns else mem.below ?l ns (enc e) @ ?node # mem.onward ?l ns (enc e))
         (h(?node := j))"
    by (rule mem.insert_steps [OF ns(1), where rng = rng]) (rule that)
  let ?ns = "mem.below ?l ns (enc e) @ ?node # mem.onward ?l ns (enc e)"
  have old: "map (sl_key l3) xs = map (sl_key ?l) xs" if "set xs \<subseteq> set ns" for xs
    using that st(3) by auto
  have "map (sl_key l3) (mem.below ?l ns (enc e)) = map enc (takeWhile (\<lambda>x. e_less x e) es)"
    "map (sl_key l3) (mem.onward ?l ns (enc e)) = map enc (dropWhile (\<lambda>x. e_less x e) es)"
    using sl_keys_split [OF ns(2) wf rec_key_enc [OF e]] by (subst old; auto dest: set_takeWhileD set_dropWhileD)+
  moreover have "sl_key (splicing l3 prev ?node height) = sl_key l3" by (rule ext) simp
  ultimately have "sl_keys (splicing l3 prev ?node height) ?ns = map enc (mem_insert e es)"
    using st(4) by (simp add: sl_keys_def mem_insert_def)
  moreover have "sl_inv mem_compare (splicing l3 prev ?node height) ?ns (h(?node := height))"
    using st(5) [of height] st(2) by simp
  moreover have "\<forall>x \<in> set (mem_insert e es). wf_entry x" "distinct (map version (mem_insert e es))"
    using wf e inv new mem_insert_versions by (auto simp: mt_inv_def)
  ultimately show ?thesis
    using st(1) by (auto simp: mem_add_def enc_def mt_inv_def Let_def)
qed

section \<open>Looking up\<close>

lemma mt_sorted: "mt_inv mt es \<Longrightarrow> sorted_wrt e_less es"
proof -
  assume inv: "mt_inv mt es"
  then obtain ns h where ns: "sl_inv mem_compare (mt_table mt) ns h" "sl_keys (mt_table mt) ns = map enc es"
    by (auto simp: mt_inv_def)
  have "sorted_wrt (\<lambda>a b. mem_compare a b < 0) (sl_keys (mt_table mt) ns)"
    using ns(1) by (simp add: sl_inv_def sl_keys_def sorted_wrt_map)
  then have "sorted_wrt (\<lambda>a b. mem_compare (enc a) (enc b) < 0) es"
    unfolding ns(2) by (simp add: sorted_wrt_map)
  then show ?thesis
    using inv by (auto simp: mt_inv_def mem_compare_enc elim!: sorted_wrt_mono_rel [rotated])
qed

lemma seek_entry:
  assumes "mt_inv mt es" "rec_key K = ikey t"
  shows "\<exists>it. it_seek mem_compare (mt_table mt) K = Some it \<and>
    map_option (sl_key (mt_table mt)) it =
      (case dropWhile (\<lambda>x. e_less x t) es of [] \<Rightarrow> None | x # _ \<Rightarrow> Some (enc x))"
proof -
  let ?l = "mt_table mt"
  obtain ns h where ns: "sl_inv mem_compare ?l ns h" "sl_keys ?l ns = map enc es"
    and wf: "\<forall>e \<in> set es. wf_entry e" using assms(1) by (auto simp: mt_inv_def)
  have "it_seek mem_compare ?l K = Some (first_of (mem.onward ?l ns K))"
    using mem.find_greater_or_equal_correct [OF ns(1), of K] by (auto simp: it_seek_def)
  moreover have "map_option (sl_key ?l) (first_of xs) = (case ys of [] \<Rightarrow> None | y # _ \<Rightarrow> Some (enc y))"
    if "map (sl_key ?l) xs = map enc ys" for xs ys
    using that by (cases xs; cases ys) auto
  ultimately show ?thesis using sl_keys_split(2) [OF ns(2) wf assms(2)] by auto
qed

lemma newest_first:
  assumes es: "sorted_wrt e_less es" "\<forall>e \<in> set es. wf_entry e"
    and t: "wf_entry t" "e_type t = kValue"
    and e: "newest (e_key t) (e_seq t) (set es) e"
    and uniq: "distinct (map version es)"
  shows "\<exists>xs. dropWhile (\<lambda>x. e_less x t) es = e # xs"
proof -
  have vis: "\<not> e_less x t \<longleftrightarrow> e_key t < e_key x \<or> visible (e_key t) (e_seq t) x" if "x \<in> set es" for x
    using es(2) t that by (cases "e_type x") (auto simp: e_less_iff visible_def not_less)
  have e_in: "e \<in> set es" "\<not> e_less e t" using e vis by (auto simp: newest_def)
  then have "dropWhile (\<lambda>x. e_less x t) es \<noteq> []" by (auto simp: dropWhile_eq_Nil_conv)
  then obtain y ys where y: "dropWhile (\<lambda>x. e_less x t) es = y # ys" by (meson list.exhaust)
  then have y_in: "y \<in> set es" "\<not> e_less y t"
    by (metis list.set_intros(1) set_dropWhileD, simp add: dropWhile_eq_Cons_conv)
  have "e \<in> set (y # ys)"
    using e_in y by (metis UnE set_append set_takeWhileD takeWhile_dropWhile_id)
  moreover have "sorted_wrt e_less (y # ys)" using sorted_wrt_dropWhile [OF es(1)] y by metis
  ultimately have "e = y \<or> e_less y e" by auto
  then have "e_key y \<le> e_key e" using es(2) e_in y_in by (auto simp: e_less_iff)
  then have "visible (e_key t) (e_seq t) y"
    using vis [OF y_in(1)] y_in(2) e by (auto simp: newest_def visible_def)
  then have "e_key y = e_key e" "e_seq y \<le> e_seq e" using e y_in by (auto simp: newest_def visible_def)
  moreover have "e = y \<or> e_seq e \<le> e_seq y"
    using \<open>e = y \<or> e_less y e\<close> es(2) e_in y_in calculation(1) by (auto simp: e_less_iff)
  ultimately have "version e = version y" by (auto simp: version_def)
  then have "e = y" using uniq e_in y_in by (auto simp: distinct_map dest: inj_onD)
  then show ?thesis using y by blast
qed

lemma none_visible_first:
  assumes "sorted_wrt e_less es" "\<forall>e \<in> set es. wf_entry e" "wf_entry t" "e_type t = kValue"
    and "\<forall>x \<in> set es. \<not> visible (e_key t) (e_seq t) x"
    and "dropWhile (\<lambda>x. e_less x t) es = y # ys"
  shows "e_key y \<noteq> e_key t"
proof -
  have y: "y \<in> set es" "\<not> e_less y t"
    using assms(6) by (metis list.set_intros(1) set_dropWhileD, simp add: dropWhile_eq_Cons_conv)
  then have "\<not> (e_key y = e_key t \<and> e_seq y \<le> e_seq t)" using assms(5) by (auto simp: visible_def)
  then show ?thesis using y assms(2-4) by (auto simp: e_less_iff)
qed

lemma lookup_rec_key:
  assumes "length uk + 8 < 2 ^ 32"
  shows "rec_key (lk_memtable_key (LookupKey_ctor uk snapshot)) = make_lookup_key uk snapshot"
proof -
  have "length (make_lookup_key uk snapshot) < 2 ^ 32" using assms by (simp add: make_lookup_key_def)
  from read_length_prefixed_put [OF this, of "[]"] show ?thesis
    by (simp add: rec_key_def make_lookup_key_def)
qed

lemma mem_get_entry:
  assumes inv: "mt_inv mt es" and t: "wf_entry t" "e_type t = kValue"
  shows "mem_get mt (LookupKey_ctor (e_key t) (e_seq t)) =
    Some (case dropWhile (\<lambda>x. e_less x t) es of
            [] \<Rightarrow> None
          | x # _ \<Rightarrow> if e_key x = e_key t then Some (answer_of x) else None)"
proof -
  let ?lk = "LookupKey_ctor (e_key t) (e_seq t)"
  have K: "rec_key (lk_memtable_key ?lk) = ikey t"
    using t by (simp add: lookup_rec_key wf_entry_def make_lookup_key_def ikey_def kValueTypeForSeek_def
        del: LookupKey_parts)
  obtain it where it: "it_seek mem_compare (mt_table mt) (lk_memtable_key ?lk) = Some it"
      "map_option (sl_key (mt_table mt)) it =
        (case dropWhile (\<lambda>x. e_less x t) es of [] \<Rightarrow> None | x # _ \<Rightarrow> Some (enc x))"
    using seek_entry [OF inv K] by blast
  show ?thesis
  proof (cases "dropWhile (\<lambda>x. e_less x t) es")
    case Nil
    have "it = None" using it(2) unfolding Nil by simp
    then show ?thesis unfolding Nil using it(1) by (simp add: mem_get_def del: LookupKey_parts)
  next
    case (Cons x xs)
    then have "x \<in> set es" by (metis list.set_intros(1) set_dropWhileD)
    then have x: "wf_entry x" using inv by (simp add: mt_inv_def)
    obtain n where n: "it = Some n" "sl_key (mt_table mt) n = enc x" using it(2) Cons by auto
    have "extract_user_key (ikey x) = e_key x" "extract_value_type (ikey x) = value_type_byte (e_type x)"
      by (simp_all add: ikey_def)
    then show ?thesis
      using it(1) n x Cons LookupKey_parts(2) [of "e_key t" "e_seq t"]
      by (cases "e_type x") (simp_all add: mem_get_def Let_def answer_of_def del: LookupKey_parts)
  qed
qed

lemma mem_get_correct:
  assumes inv: "mt_inv mt es" and t: "snapshot \<le> kMaxSequenceNumber" "length uk + 8 < 2 ^ 32"
  shows "newest uk snapshot (set es) e \<Longrightarrow>
      mem_get mt (LookupKey_ctor uk snapshot) = Some (Some (answer_of e))"
    and "\<forall>x \<in> set es. \<not> visible uk snapshot x \<Longrightarrow> mem_get mt (LookupKey_ctor uk snapshot) = Some None"
proof -
  let ?t = "\<lparr>e_key = uk, e_seq = snapshot, e_type = kValue, e_value = []\<rparr>"
  have wf: "wf_entry ?t" "\<forall>e \<in> set es. wf_entry e" "distinct (map version es)"
    using t inv by (auto simp: wf_entry_def mt_inv_def)
  note get = mem_get_entry [OF inv wf(1), simplified]
  show "mem_get mt (LookupKey_ctor uk snapshot) = Some (Some (answer_of e))"
    if new: "newest uk snapshot (set es) e"
  proof -
    obtain xs where "dropWhile (\<lambda>x. e_less x ?t) es = e # xs"
      using newest_first [OF mt_sorted [OF inv] wf(2) wf(1) _ _ wf(3), of e] new by auto
    then show ?thesis using get new by (simp add: newest_def visible_def)
  qed
  show "mem_get mt (LookupKey_ctor uk snapshot) = Some None"
    if none: "\<forall>x \<in> set es. \<not> visible uk snapshot x"
    using none_visible_first [OF mt_sorted [OF inv] wf(2) wf(1)] none get
    by (auto split: list.splits)
qed

section \<open>Sequences of additions\<close>

fun mem_adds :: "nat \<Rightarrow> (nat \<Rightarrow> u32) \<Rightarrow> MemTable \<Rightarrow> entry list \<Rightarrow> MemTable option" where
  "mem_adds al rng mt [] = Some mt"
| "mem_adds al rng mt (e # es) =
     (case mem_add al rng mt (e_seq e) (e_type e) (e_key e) (e_value e) of
        None \<Rightarrow> None
      | Some mt' \<Rightarrow> mem_adds al rng mt' es)"

lemma mem_adds_inv:
  assumes "mt_inv mt old" "\<forall>e \<in> set es. wf_entry e" "distinct (map version (old @ es))"
  shows "\<exists>mt'. mem_adds al rng mt es = Some mt' \<and> mt_inv mt' (fold mem_insert es old)"
  using assms
proof (induction es arbitrary: mt old)
  case (Cons e es)
  have "version e \<notin> version ` set old" using Cons.prems(3) by (auto simp: image_iff)
  then obtain mt1 where mt1: "mem_add al rng mt (e_seq e) (e_type e) (e_key e) (e_value e) = Some mt1"
      "mt_inv mt1 (mem_insert e old)"
    using mem_add_inv [OF Cons.prems(1), of e] Cons.prems(2) by (meson list.set_intros(1))
  have "distinct (map version (mem_insert e old @ es))"
    using Cons.prems(3) mt1(2) by (auto simp: mt_inv_def)
  then show ?case using Cons.IH [OF mt1(2)] Cons.prems(2) mt1(1) by simp
qed simp

lemma set_fold_mem_insert: "set (fold mem_insert es old) = set es \<union> set old"
  by (induction es arbitrary: old) auto

lemma mem_adds_new:
  "\<forall>e \<in> set es. wf_entry e \<Longrightarrow> distinct (map version es) \<Longrightarrow>
   \<exists>mt. mem_adds al rng (MemTable_ctor al) es = Some mt \<and> mt_inv mt (fold mem_insert es [])"
  using mem_adds_inv [OF mt_inv_ctor, of es al rng] by simp

text \<open>The flush walks the memtable from its first entry to its last.\<close>

partial_function (option) mi_collect :: "MemTable \<Rightarrow> sl_iter \<Rightarrow> (bytes \<times> bytes) list option" where
  "mi_collect mt it =
     (if it = None then Some []
      else Option.bind (mi_collect mt (mi_next mt it))
             (\<lambda>rest. Some ((mi_key mt it, mi_value mt it) # rest)))"

lemma mi_collect_path:
  assumes "path (sl_next (mt_table mt) 0) p ns" "map (sl_key (mt_table mt)) ns = map enc es"
    "\<forall>e \<in> set es. wf_entry e"
  shows "mi_collect mt (sl_next (mt_table mt) 0 p) = Some (map (\<lambda>e. (ikey e, e_value e)) es)"
  using assms
proof (induction ns arbitrary: p es)
  case Nil
  then show ?case by (subst mi_collect.simps) simp
next
  case (Cons n ns)
  then obtain e es' where es: "es = e # es'" "sl_key (mt_table mt) n = enc e" "map (sl_key (mt_table mt)) ns = map enc es'"
    by (cases es) auto
  then have "mi_collect mt (sl_next (mt_table mt) 0 n) = Some (map (\<lambda>e. (ikey e, e_value e)) es')"
    using Cons by simp
  then show ?case
    using Cons.prems es by (subst mi_collect.simps) (simp add: mi_next_def it_next_def mi_key_def mi_value_def)
qed

lemma mi_collect_entries:
  assumes "mt_inv mt es"
  shows "mi_collect mt (mi_seek_to_first mt) = Some (map (\<lambda>e. (ikey e, e_value e)) es)"
proof -
  obtain ns h where ns: "sl_inv mem_compare (mt_table mt) ns h" "sl_keys (mt_table mt) ns = map enc es"
    and wf: "\<forall>e \<in> set es. wf_entry e" using assms by (auto simp: mt_inv_def)
  have "path (sl_next (mt_table mt) 0) sl_head ns" using sl_inv_path_0 [OF ns(1)] .
  from mi_collect_path [OF this _ wf] show ?thesis
    using ns(2) by (simp add: mi_seek_to_first_def it_seek_to_first_def sl_keys_def)
qed

section \<open>Properties\<close>

text \<open>
  C15. A memtable lookup returns the newest visible version.  After any additions
  with distinct (user key, sequence number) pairs, every addition and the lookup
  itself return; if some version of the key is at or below the snapshot, the
  lookup answers with the newest such version -- its value, or not-found for a
  tombstone -- and otherwise it answers nothing.  Sequence numbers and the snapshot fit
  their 56 bits, and internal keys and values are shorter than 4 GiB.
\<close>

theorem memtable_get_newest:
  assumes "\<forall>e \<in> set es. wf_entry e" "distinct (map version es)"
    and "snapshot \<le> kMaxSequenceNumber" "length uk + 8 < 2 ^ 32"
  shows "\<exists>mt. mem_adds al rng (MemTable_ctor al) es = Some mt \<and>
    (\<forall>e. newest uk snapshot (set es) e \<longrightarrow>
       mem_get mt (LookupKey_ctor uk snapshot) = Some (Some (answer_of e))) \<and>
    ((\<forall>e \<in> set es. \<not> visible uk snapshot e) \<longrightarrow> mem_get mt (LookupKey_ctor uk snapshot) = Some None)"
proof -
  obtain mt where mt: "mem_adds al rng (MemTable_ctor al) es = Some mt" "mt_inv mt (fold mem_insert es [])"
    using mem_adds_new [OF assms(1,2)] by blast
  have "set (fold mem_insert es []) = set es" by (simp add: set_fold_mem_insert)
  then show ?thesis
    using mt mem_get_correct [OF mt(2) assms(3,4)] by auto
qed

theorem memtable_get_newest_witness:
  "\<exists>mt. mem_adds 16 (\<lambda>_. 1) (MemTable_ctor 16)
      [\<lparr>e_key = [97], e_seq = 1, e_type = kValue, e_value = [5]\<rparr>,
       \<lparr>e_key = [97], e_seq = 2, e_type = kDeletion, e_value = []\<rparr>] = Some mt \<and>
     mem_get mt (LookupKey_ctor [97] 1) = Some (Some (status_ok, [5]))"
proof -
  let ?es = "[\<lparr>e_key = [97], e_seq = 1, e_type = kValue, e_value = [5]\<rparr>,
       \<lparr>e_key = [97], e_seq = 2, e_type = kDeletion, e_value = []\<rparr>] :: entry list"
  have "\<forall>e \<in> set ?es. wf_entry e" "distinct (map version ?es)"
    by (auto simp: wf_entry_def version_def kMaxSequenceNumber_def)
  moreover have "newest [97] 1 (set ?es) (?es ! 0)"
    by (auto simp: newest_def visible_def)
  ultimately show ?thesis
    using memtable_get_newest [of ?es 1 "[97]" 16 "\<lambda>_. 1"]
    by (fastforce simp: answer_of_def kMaxSequenceNumber_def)
qed

text \<open>
  C26. A reader needs no lock.  Let one writer insert any new records, store by store, and
  let a search run beside it, load by load, in any interleaving.  At every moment,
  between the store that fills a pointer of a new node and the store that publishes the node
  included, the list is complete: sorted, every level a chain of the nodes linked into it,
  with every record it held when the search began.  The search has then taken at most
  one turn per level and per record, whichever height it loaded at its start, and the turn
  that ends it returns the first record at or after its target in the list of that moment.
  Loads and stores take effect one at a time and in order.
\<close>

theorem memtable_readers_see_complete_list:
  assumes "sl_inv mem_compare l0 ns0 h0" "lv < kMaxHeight"
    and "beside_writer mem_compare rng target l0 lv l stores s n"
  shows "\<exists>ns h. sl_inv mem_compare l ns h \<and> (\<forall>x \<in> set ns0. x \<in> set ns \<and> sl_key l x = sl_key l0 x) \<and>
    n \<le> lv + length ns + 1 \<and>
    (\<forall>p i r. s = Searching p i \<and> search_turn mem_compare l target s = Found r \<longrightarrow>
       r = first_of (dropWhile (before mem_compare l target) ns))"
proof -
  obtain ns h where i: "sl_inv mem_compare l ns h" "search_ok mem_compare target lv l ns h s n" "grows l0 ns0 h0 l ns h"
    using mem.beside_writer_inv [OF assms(3,1,2)] by blast
  have "distinct ns" using i(1) by (simp add: sl_inv_def)
  then have "n \<le> lv + length ns + 1" by (rule search_ok_turns [OF i(2)])
  then show ?thesis using i mem.search_turn_ok(2) [OF i(1) _ assms(2)] by (auto simp: grows_def)
qed

text \<open>One record has filled its pointer and is not published yet.\<close>

definition half_inserted :: "bytes SkipList \<Rightarrow> bytes SkipList list \<Rightarrow> bool" where
  "half_inserted l stores \<longleftrightarrow>
     (\<exists>l2 l3 l4. insert_stores mem_compare (\<lambda>_. 1) (SkipList_ctor []) [9] = Some [l2, l3, l, l4] \<and> stores = [l4])"

theorem memtable_readers_see_complete_list_witness:
  "\<exists>l stores ns h. half_inserted l stores \<and> sl_inv mem_compare l ns h \<and>
     first_of (dropWhile (before mem_compare l [9]) ns) = None"
proof -
  have h: "random_height_loop (\<lambda>_. 1) 0 1 = (1, 1)" by (subst random_height_loop.simps) (simp add: kMaxHeight_def kBranching_def)
  have f: "find_greater_or_equal mem_compare (SkipList_ctor []) [9] = Some (None, (replicate kMaxHeight None)[0 := Some 0])"
    unfolding find_greater_or_equal_def
    by (subst find_ge_loop.simps) (simp add: SkipList_ctor_def sl_next_def key_is_after_node_def kMaxHeight_def)
  define l0 where "l0 = SkipList_ctor ([] :: bytes)"
  define l2 where "l2 = l0\<lparr>sl_draws := 1\<rparr>"
  define l3 where "l3 = snd (new_node l2 [9] 1)"
  define l where "l = fill_level ((replicate kMaxHeight None)[0 := Some 0]) 1 l3 0"
  define l4 where "l4 = publish_level ((replicate kMaxHeight None)[0 := Some 0]) 1 l 0"
  have "random_height (\<lambda>_. 1) l0 = (1, l2)" "raise_height l2 1 prev = (prev, l2)" "new_node l2 [9] 1 = (1, l3)" for prev
    by (simp_all add: random_height_def raise_height_def l0_def l2_def l3_def new_node_def SkipList_ctor_def h [simplified])
  then have st: "insert_stores mem_compare (\<lambda>_. 1) (SkipList_ctor []) [9] = Some [l2, l3, l, l4]"
    using f by (simp add: insert_stores_def l0_def [symmetric] l_def l4_def Let_def)
  have nx: "sl_next l 0 0 = None"
    by (simp add: l_def fill_level_def set_next_def l3_def l2_def l0_def new_node_def SkipList_ctor_def sl_next_def kMaxHeight_def)
  let ?run = "beside_writer mem_compare (\<lambda>_. 1) [9] (SkipList_ctor []) 0"
  have "?run (SkipList_ctor []) [l2, l3, l, l4] (Searching sl_head 0) 0"
    by (rule Insert [OF Start st]) (auto simp: SkipList_ctor_def)
  then have run: "?run l [l4] (Searching sl_head 0) 0" by (blast intro: Store)
  have "search_turn mem_compare l [9] (Searching sl_head 0) = Found None"
    using nx by (simp add: search_turn_def key_is_after_node_def)
  then obtain ns hh where "sl_inv mem_compare l ns hh" "first_of (dropWhile (before mem_compare l [9]) ns) = None"
    using memtable_readers_see_complete_list [OF sl_inv_ctor _ run] by (fastforce simp: kMaxHeight_def)
  then show ?thesis using st unfolding half_inserted_def by blast
qed

end
