(* ===== verification/Write_Batch.thy ===== *)
theory Write_Batch
  imports Memtable
begin

text \<open>
  include/ambar/write_batch.hpp, src/write_batch.cpp and
  src/write_batch_internal.hpp: a batch is one string, a twelve-byte header
  (sequence number, count) followed by tagged records.  A handler is the list of
  the operations delivered to it, in order.
\<close>

record WriteBatch =
  wb_rep :: bytes

datatype batch_op = OpPut bytes bytes | OpDel bytes

definition kHeader :: nat where
  "kHeader = 12"

definition wb_clear :: WriteBatch where
  "wb_clear = \<lparr>wb_rep = replicate kHeader 0\<rparr>"

definition wb_count :: "WriteBatch \<Rightarrow> u32" where
  "wb_count b = decode_fixed32 (drop 8 (wb_rep b))"

definition wb_set_count :: "WriteBatch \<Rightarrow> u32 \<Rightarrow> WriteBatch" where
  "wb_set_count b n = b\<lparr>wb_rep := take 8 (wb_rep b) @ encode_fixed32 n @ drop 12 (wb_rep b)\<rparr>"

definition wb_sequence :: "WriteBatch \<Rightarrow> u64" where
  "wb_sequence b = decode_fixed64 (wb_rep b)"

definition wb_set_sequence :: "WriteBatch \<Rightarrow> u64 \<Rightarrow> WriteBatch" where
  "wb_set_sequence b seq = b\<lparr>wb_rep := encode_fixed64 seq @ drop 8 (wb_rep b)\<rparr>"

definition wb_put :: "WriteBatch \<Rightarrow> bytes \<Rightarrow> bytes \<Rightarrow> WriteBatch" where
  "wb_put b key value =
     (let b1 = wb_set_count b (wb_count b + 1);
          r1 = wb_rep b1 @ [value_type_byte kValue];
          r2 = put_length_prefixed r1 key
      in b1\<lparr>wb_rep := put_length_prefixed r2 value\<rparr>)"

definition wb_del :: "WriteBatch \<Rightarrow> bytes \<Rightarrow> WriteBatch" where
  "wb_del b key =
     (let b1 = wb_set_count b (wb_count b + 1);
          r1 = wb_rep b1 @ [value_type_byte kDeletion]
      in b1\<lparr>wb_rep := put_length_prefixed r1 key\<rparr>)"

definition wb_set_contents :: "WriteBatch \<Rightarrow> bytes \<Rightarrow> status \<times> WriteBatch" where
  "wb_set_contents b contents =
     (if length contents < kHeader
      then (corruption ''write batch: log record smaller than header'', b)
      else (status_ok, b\<lparr>wb_rep := contents\<rparr>))"

definition wb_append :: "WriteBatch \<Rightarrow> WriteBatch \<Rightarrow> WriteBatch" where
  "wb_append dst src =
     (let dst1 = wb_set_count dst (wb_count dst + wb_count src)
      in dst1\<lparr>wb_rep := wb_rep dst1 @ drop kHeader (wb_rep src)\<rparr>)"

text \<open>
  The loop of iterate: what was delivered so far, and how it ended -- an error, or
  the number of records found.
\<close>

function iterate_loop :: "bytes \<Rightarrow> u32 \<Rightarrow> batch_op list \<Rightarrow> batch_op list \<times> (status + u32)" where
  "iterate_loop input found done =
     (case input of
        [] \<Rightarrow> (done, Inr found)
      | tag # rest \<Rightarrow>
          if tag = value_type_byte kValue
          then (case get_length_prefixed rest of
                  None \<Rightarrow> (done, Inl (corruption ''write batch: truncated put record''))
                | Some (key, r1) \<Rightarrow>
                    (case get_length_prefixed r1 of
                       None \<Rightarrow> (done, Inl (corruption ''write batch: truncated put record''))
                     | Some (value, r2) \<Rightarrow> iterate_loop r2 (found + 1) (done @ [OpPut key value])))
          else if tag = value_type_byte kDeletion
          then (case get_length_prefixed rest of
                  None \<Rightarrow> (done, Inl (corruption ''write batch: truncated delete record''))
                | Some (key, r1) \<Rightarrow> iterate_loop r1 (found + 1) (done @ [OpDel key]))
          else (done, Inl (corruption ''write batch: unknown record tag'')))"
  by auto
termination
  by (relation "measure (\<lambda>(input, found, done). length input)")
    (auto dest!: get_length_prefixed_shorter)

declare iterate_loop.simps [simp del]

definition wb_iterate :: "WriteBatch \<Rightarrow> batch_op list \<times> status" where
  "wb_iterate b =
     (if length (wb_rep b) < kHeader
      then ([], corruption ''write batch is smaller than its header'')
      else case iterate_loop (drop kHeader (wb_rep b)) 0 [] of
             (ops, Inl s) \<Rightarrow> (ops, s)
           | (ops, Inr found) \<Rightarrow>
               if found \<noteq> wb_count b
               then (ops, corruption ''write batch: record count does not match header'')
               else (ops, status_ok))"

text \<open>MemTableInserter: one operation takes one sequence number.\<close>

fun inserter_step ::
    "nat \<Rightarrow> (nat \<Rightarrow> u32) \<Rightarrow> (u64 \<times> MemTable) option \<Rightarrow> batch_op \<Rightarrow> (u64 \<times> MemTable) option" where
  "inserter_step al rng None op = None"
| "inserter_step al rng (Some (seq, mt)) (OpPut key value) =
     map_option (Pair (seq + 1)) (mem_add al rng mt seq kValue key value)"
| "inserter_step al rng (Some (seq, mt)) (OpDel key) =
     map_option (Pair (seq + 1)) (mem_add al rng mt seq kDeletion key [])"

definition insert_into ::
    "nat \<Rightarrow> (nat \<Rightarrow> u32) \<Rightarrow> WriteBatch \<Rightarrow> MemTable \<Rightarrow> (status \<times> u64 \<times> MemTable) option" where
  "insert_into al rng b mt =
     (case wb_iterate b of (ops, s) \<Rightarrow>
        map_option (Pair s) (foldl (inserter_step al rng) (Some (wb_sequence b, mt)) ops))"

section \<open>What a batch stands for\<close>

primrec enc_op :: "batch_op \<Rightarrow> bytes" where
  "enc_op (OpPut k v) = value_type_byte kValue # put_length_prefixed [] k @ put_length_prefixed [] v"
| "enc_op (OpDel k) = value_type_byte kDeletion # put_length_prefixed [] k"

primrec wf_op :: "batch_op \<Rightarrow> bool" where
  "wf_op (OpPut k v) \<longleftrightarrow> length k < 2 ^ 32 \<and> length v < 2 ^ 32"
| "wf_op (OpDel k) \<longleftrightarrow> length k < 2 ^ 32"

definition wb_inv :: "WriteBatch \<Rightarrow> batch_op list \<Rightarrow> bool" where
  "wb_inv b ops \<longleftrightarrow> kHeader \<le> length (wb_rep b) \<and>
     drop kHeader (wb_rep b) = concat (map enc_op ops) \<and>
     wb_count b = word_of_nat (length ops) \<and> (\<forall>op \<in> set ops. wf_op op)"

text \<open>Operations applied to a batch in turn.\<close>

primrec wb_apply :: "batch_op \<Rightarrow> WriteBatch \<Rightarrow> WriteBatch" where
  "wb_apply (OpPut k v) b = wb_put b k v"
| "wb_apply (OpDel k) b = wb_del b k"

definition wb_build :: "batch_op list \<Rightarrow> WriteBatch" where
  "wb_build ops = fold wb_apply ops wb_clear"

lemma wb_count_set [simp]:
  "kHeader \<le> length (wb_rep b) \<Longrightarrow> wb_count (wb_set_count b n) = n"
  "kHeader \<le> length (wb_rep b) \<Longrightarrow> kHeader \<le> length (wb_rep (wb_set_count b n))"
  "kHeader \<le> length (wb_rep b) \<Longrightarrow> drop kHeader (wb_rep (wb_set_count b n)) = drop kHeader (wb_rep b)"
  by (simp_all add: wb_count_def wb_set_count_def kHeader_def)

lemma wb_count_extend:
  "kHeader \<le> length (wb_rep a) \<Longrightarrow> wb_rep b = wb_rep a @ s \<Longrightarrow> wb_count b = wb_count a"
  by (simp add: wb_count_def decode_fixed32_def kHeader_def nth_append)

lemma wb_inv_clear: "wb_inv wb_clear []"
  by (simp add: wb_inv_def wb_clear_def kHeader_def wb_count_def decode_fixed32_def)

lemma wb_inv_snoc:
  assumes "wb_inv b ops" "wf_op op"
    "wb_rep b' = wb_rep (wb_set_count b (wb_count b + 1)) @ enc_op op"
  shows "wb_inv b' (ops @ [op])"
proof -
  have h: "kHeader \<le> length (wb_rep b)" using assms(1) by (simp add: wb_inv_def)
  then have "wb_count b' = wb_count b + 1" using wb_count_extend [OF _ assms(3)] by simp
  then show ?thesis
    using assms h by (simp add: wb_inv_def trans_le_add1)
qed

lemma wb_inv_apply: "wb_inv b ops \<Longrightarrow> wf_op op \<Longrightarrow> wb_inv (wb_apply op b) (ops @ [op])"
  by (cases op; rule wb_inv_snoc; assumption?)
    (simp_all add: wb_put_def wb_del_def Let_def put_length_prefixed_append [of "_ @ _"]
      put_length_prefixed_append [of "_ # _"])

lemma wb_inv_build:
  assumes "\<forall>op \<in> set ops. wf_op op" shows "wb_inv (wb_build ops) ops"
proof -
  have "wb_inv b old \<Longrightarrow> wb_inv (fold wb_apply ops b) (old @ ops)" for b old
    using assms
  proof (induction ops arbitrary: b old)
    case (Cons op ops)
    then show ?case using Cons.IH [OF wb_inv_apply [of b old op]] by simp
  qed simp
  from this [OF wb_inv_clear] show ?thesis by (simp add: wb_build_def)
qed

section \<open>Iterating\<close>

lemma iterate_enc_op:
  "wf_op op \<Longrightarrow> iterate_loop (enc_op op @ rest) found done = iterate_loop rest (found + 1) (done @ [op])"
  by (cases op) (subst iterate_loop.simps, simp)+

lemma iterate_enc_ops:
  "\<forall>op \<in> set ops. wf_op op \<Longrightarrow>
   iterate_loop (concat (map enc_op ops)) found done = (done @ ops, Inr (found + word_of_nat (length ops)))"
proof (induction ops arbitrary: found "done")
  case Nil
  then show ?case by (subst iterate_loop.simps) simp
next
  case (Cons op ops)
  then show ?case by (simp add: iterate_enc_op add.assoc)
qed

lemma wb_iterate_inv: "wb_inv b ops \<Longrightarrow> wb_iterate b = (ops, status_ok)"
  by (simp add: wb_inv_def wb_iterate_def iterate_enc_ops)

lemma wb_inv_append:
  assumes "wb_inv a xs" "wb_inv b ys"
  shows "wb_inv (wb_append a b) (xs @ ys)"
proof -
  let ?a = "wb_set_count a (wb_count a + wb_count b)"
  have h: "kHeader \<le> length (wb_rep a)" using assms(1) by (simp add: wb_inv_def)
  have r: "wb_rep (wb_append a b) = wb_rep ?a @ drop kHeader (wb_rep b)"
    by (simp add: wb_append_def Let_def)
  then have "wb_count (wb_append a b) = wb_count a + wb_count b"
    using wb_count_extend [OF _ r] h by simp
  then show ?thesis using assms h r by (auto simp: wb_inv_def trans_le_add1)
qed

lemma wb_sequence_set [simp]: "wb_sequence (wb_set_sequence b seq) = seq"
  by (simp add: wb_sequence_def wb_set_sequence_def)

lemma wb_inv_set_sequence: "wb_inv b ops \<Longrightarrow> wb_inv (wb_set_sequence b seq) ops"
  by (auto simp: wb_inv_def wb_set_sequence_def kHeader_def wb_count_def drop_drop)

section \<open>Inserting into a memtable\<close>

primrec op_entry :: "u64 \<Rightarrow> batch_op \<Rightarrow> entry" where
  "op_entry seq (OpPut k v) = \<lparr>e_key = k, e_seq = seq, e_type = kValue, e_value = v\<rparr>"
| "op_entry seq (OpDel k) = \<lparr>e_key = k, e_seq = seq, e_type = kDeletion, e_value = []\<rparr>"

text \<open>The i-th operation of a batch takes the batch's sequence number plus i.\<close>

primrec op_entries :: "u64 \<Rightarrow> batch_op list \<Rightarrow> entry list" where
  "op_entries seq [] = []"
| "op_entries seq (op # ops) = op_entry seq op # op_entries (seq + 1) ops"

lemma op_entries_nth: "i < length ops \<Longrightarrow> op_entries seq ops ! i = op_entry (seq + word_of_nat i) (ops ! i)"
  by (induction ops arbitrary: seq i) (auto simp: nth_Cons add.assoc split: nat.splits)

lemma length_op_entries [simp]: "length (op_entries seq ops) = length ops"
  by (induction ops arbitrary: seq) auto

lemma inserter_step_entry:
  "inserter_step al rng (Some (seq, mt)) op =
     map_option (Pair (seq + 1))
       (mem_add al rng mt (e_seq (op_entry seq op)) (e_type (op_entry seq op))
          (e_key (op_entry seq op)) (e_value (op_entry seq op)))"
  by (cases op) simp_all

lemma inserter_fold_None: "foldl (inserter_step al rng) None ops = None"
  by (induction ops) auto

lemma inserter_fold:
  "foldl (inserter_step al rng) (Some (seq, mt)) ops =
     map_option (Pair (seq + word_of_nat (length ops))) (mem_adds al rng mt (op_entries seq ops))"
proof (induction ops arbitrary: seq mt)
  case (Cons op ops)
  show ?case
  proof (cases "mem_add al rng mt (e_seq (op_entry seq op)) (e_type (op_entry seq op))
      (e_key (op_entry seq op)) (e_value (op_entry seq op))")
    case None
    then show ?thesis
      using inserter_step_entry [of al rng seq mt op] by (simp add: inserter_fold_None del: inserter_step.simps)
  next
    case (Some mt')
    then show ?thesis
      using inserter_step_entry [of al rng seq mt op] Cons.IH [of "seq + 1" mt']
      by (simp add: add.assoc del: inserter_step.simps)
  qed
qed simp

lemma insert_into_inv:
  assumes "wb_inv b ops" "mt_inv mt old" "\<forall>e \<in> set (op_entries (wb_sequence b) ops). wf_entry e"
    "distinct (map version (old @ op_entries (wb_sequence b) ops))"
  shows "\<exists>mt'. insert_into al rng b mt = Some (status_ok, wb_sequence b + word_of_nat (length ops), mt') \<and>
    mt_inv mt' (fold mem_insert (op_entries (wb_sequence b) ops) old)"
  using mem_adds_inv [OF assms(2-4), of al rng] wb_iterate_inv [OF assms(1)]
  by (auto simp: insert_into_def inserter_fold)




section \<open>Properties\<close>

text \<open>
  C27. A write batch delivers what was put into it.  For any operations whose keys and
  values are shorter than 4 GiB, a batch built by put and del -- also after its sequence
  number was patched in -- iterates without error and delivers exactly those operations
  in order; a batch appended to another delivers the operations of the first and then
  those of the second.
\<close>

theorem write_batch_round_trip:
  assumes "\<forall>op \<in> set xs. wf_op op" "\<forall>op \<in> set ys. wf_op op"
  shows "wb_iterate (wb_set_sequence (wb_build xs) seq) = (xs, status_ok) \<and>
    wb_iterate (wb_append (wb_build xs) (wb_build ys)) = (xs @ ys, status_ok)"
  using wb_iterate_inv wb_inv_set_sequence wb_inv_append wb_inv_build assms by metis

theorem write_batch_round_trip_witness:
  "wb_iterate (wb_append (wb_build [OpPut [1] [2, 3]]) (wb_build [OpDel [1]])) =
     ([OpPut [1] [2, 3], OpDel [1]], status_ok)"
  using write_batch_round_trip [of "[OpPut [1] [2, 3]]" "[OpDel [1]]" 0] by simp



end
