(* ===== verification/Filename.thy ===== *)
theory Filename
  imports Ambar_Prelude
begin

text \<open>
  src/filename.cpp and src/filename.hpp: the names of a database's files, and the
  parser that decides what a directory entry is.
\<close>

datatype FileType = kLog | kLock | kTable | kDescriptor | kCurrent | kTemp | kInfoLog

section \<open>Names\<close>

text \<open>The conversion \<open>%06llu\<close> of snprintf.\<close>

definition pad6 :: "u64 \<Rightarrow> string" where
  "pad6 number = (let s = to_string (unat number) in replicate (6 - length s) CHR ''0'' @ s)"

definition numbered :: "string \<Rightarrow> u64 \<Rightarrow> string \<Rightarrow> string" where
  "numbered dbname number ext = dbname @ ''/'' @ pad6 number @ ''.'' @ ext"

definition log_file_name :: "string \<Rightarrow> u64 \<Rightarrow> string" where
  "log_file_name dbname number = numbered dbname number ''log''"

definition table_file_name :: "string \<Rightarrow> u64 \<Rightarrow> string" where
  "table_file_name dbname number = numbered dbname number ''sst''"

definition descriptor_file_name :: "string \<Rightarrow> u64 \<Rightarrow> string" where
  "descriptor_file_name dbname number = dbname @ ''/MANIFEST-'' @ pad6 number"

definition current_file_name :: "string \<Rightarrow> string" where
  "current_file_name dbname = dbname @ ''/CURRENT''"

definition lock_file_name :: "string \<Rightarrow> string" where
  "lock_file_name dbname = dbname @ ''/LOCK''"

definition temp_file_name :: "string \<Rightarrow> u64 \<Rightarrow> string" where
  "temp_file_name dbname number = numbered dbname number ''dbtmp''"

definition info_log_file_name :: "string \<Rightarrow> string" where
  "info_log_file_name dbname = dbname @ ''/LOG''"

section \<open>Parsing\<close>

definition is_digit :: "char \<Rightarrow> bool" where
  "is_digit c \<longleftrightarrow> 48 \<le> (of_char c :: nat) \<and> (of_char c :: nat) \<le> 57"

fun parse_digits :: "string \<Rightarrow> u64 \<Rightarrow> u64 option" where
  "parse_digits [] result = Some result"
| "parse_digits (c # rest) result =
     (if \<not> is_digit c then None
      else let digit = word_of_nat (of_char c - 48) in
           if (- 1 - digit) div 10 < result then None
           else parse_digits rest (result * 10 + digit))"

definition parse_number :: "string \<Rightarrow> u64 option" where
  "parse_number text = (if text = [] \<or> 20 < length text then None else parse_digits text 0)"

definition parse_file_name :: "string \<Rightarrow> (u64 \<times> FileType) option" where
  "parse_file_name filename =
     (if filename = ''CURRENT'' then Some (0, kCurrent)
      else if filename = ''LOCK'' then Some (0, kLock)
      else if filename = ''LOG'' \<or> filename = ''LOG.old'' then Some (0, kInfoLog)
      else if take 9 filename = ''MANIFEST-'' then
        (case parse_number (drop 9 filename) of None \<Rightarrow> None | Some value \<Rightarrow> Some (value, kDescriptor))
      else
        let before = takeWhile (\<lambda>c. c \<noteq> CHR ''.'') filename in
        if before = filename \<or> before = [] then None
        else case parse_number before of
               None \<Rightarrow> None
             | Some value \<Rightarrow>
                 let ext = drop (length before + 1) filename in
                 if ext = ''log'' then Some (value, kLog)
                 else if ext = ''sst'' then Some (value, kTable)
                 else if ext = ''dbtmp'' then Some (value, kTemp)
                 else None)"

section \<open>Decimal numbers\<close>

definition dec_value :: "string \<Rightarrow> nat" where
  "dec_value = foldl (\<lambda>a c. 10 * a + (of_char c - 48)) 0"

lemma dec_value_snoc: "dec_value (s @ [c]) = 10 * dec_value s + (of_char c - 48)"
  by (simp add: dec_value_def)

lemma of_char_digit: "d < 10 \<Longrightarrow> (of_char (char_of (48 + d) :: char) :: nat) = 48 + d"
  by (simp add: of_char_of)

lemma to_string_digits: "\<forall>c \<in> set (to_string n). is_digit c"
  by (induction n rule: to_string.induct) (subst to_string.simps, auto simp: is_digit_def of_char_digit)

lemma dec_value_to_string: "dec_value (to_string n) = n"
proof (induction n rule: to_string.induct)
  case (1 n)
  show ?case
  proof (cases "n < 10")
    case True
    then show ?thesis by (subst to_string.simps) (simp add: dec_value_def of_char_digit)
  next
    case False
    then show ?thesis using "1.IH"
      by (subst to_string.simps) (simp add: dec_value_snoc of_char_digit)
  qed
qed

lemma length_to_string: "n < 10 ^ Suc k \<Longrightarrow> length (to_string n) \<le> Suc k"
proof (induction k arbitrary: n)
  case 0
  then show ?case by (subst to_string.simps) simp
next
  case (Suc k)
  then show ?case using Suc.IH [of "n div 10"]
    by (subst to_string.simps) (auto simp: less_mult_imp_div_less)
qed

lemma to_string_not_Nil: "to_string n \<noteq> []"
  by (subst to_string.simps) simp

lemma dec_value_zeros: "dec_value (replicate k CHR ''0'' @ s) = dec_value s"
proof -
  have "dec_value (replicate k CHR ''0'') = 0" by (induction k) (simp_all add: dec_value_def)
  then show ?thesis by (simp add: dec_value_def)
qed

text \<open>The parser computes the number, or refuses one that does not fit.\<close>

lemma parse_digits_value:
  assumes "\<forall>c \<in> set s. is_digit c"
  shows "parse_digits s r =
    (let v = foldl (\<lambda>a c. 10 * a + (of_char c - 48)) (unat r) s in if v < 2 ^ 64 then Some (word_of_nat v) else None)"
  using assms
proof (induction s arbitrary: r)
  case Nil
  show ?case using unsigned_less [of r, where 'a = nat] by simp
next
  case (Cons c s)
  define d :: nat where "d = of_char c - 48"
  have d: "d < 10" "is_digit c" using Cons.prems by (auto simp: is_digit_def d_def)
  have grow: "v \<le> foldl (\<lambda>a c. 10 * a + (of_char c - 48)) v s" for v :: nat
  proof (induction s arbitrary: v)
    case (Cons c s)
    show ?case using Cons [of "10 * v + (of_char c - 48)"] by simp
  qed simp
  have lim: "unat ((- 1 - word_of_nat d :: u64) div 10) = (2 ^ 64 - 1 - d) div 10"
  proof -
    have "unat (- 1 - word_of_nat d :: u64) = 2 ^ 64 - 1 - d"
      using d(1) by (subst unat_sub) (auto simp: word_le_nat_alt unsigned_minus_1_eq_mask mask_eq_exp_minus_1)
    then show ?thesis by (simp add: unat_div)
  qed
  show ?case
  proof (cases "unat r \<le> (2 ^ 64 - 1 - d) div 10")
    case True
    then have "unat r * 10 \<le> 2 ^ 64 - 1 - d" by (simp add: less_eq_div_iff_mult_less_eq)
    then have fit: "10 * unat r + d < 2 ^ 64" using d(1) by simp
    have "unat (r * 10 + word_of_nat d :: u64) = 10 * unat r + d"
      using fit by (simp add: unat_word_ariths)
    then show ?thesis using True Cons.IH [of "r * 10 + word_of_nat d"] Cons.prems lim d
      by (simp add: d_def [symmetric] word_less_nat_alt Let_def)
  next
    case False
    then have "\<not> unat r * 10 \<le> 2 ^ 64 - 1 - d" by (simp add: less_eq_div_iff_mult_less_eq)
    then have "2 ^ 64 \<le> 10 * unat r + d" using d(1) by simp
    then have "\<not> foldl (\<lambda>a c. 10 * a + (of_char c - 48)) (10 * unat r + d) s < 2 ^ 64"
      using grow [of "10 * unat r + d"] by linarith
    then show ?thesis using False lim d by (simp add: d_def [symmetric] word_less_nat_alt Let_def)
  qed
qed

lemma parse_digits_reject: "\<exists>c \<in> set s. \<not> is_digit c \<Longrightarrow> parse_digits s r = None"
  by (induction s arbitrary: r) (auto simp: Let_def)

text \<open>
  C33. A file number is parsed exactly: the parser accepts a string of one to twenty decimal
  digits whose value fits in 64 bits, and returns that value; everything else, a
  number that would wrap included, it refuses.
\<close>

theorem parse_number_exact:
  "parse_number digits =
     (if digits \<noteq> [] \<and> length digits \<le> 20 \<and> (\<forall>c \<in> set digits. is_digit c) \<and> dec_value digits < 2 ^ 64
      then Some (word_of_nat (dec_value digits)) else None)"
  using parse_digits_value [of digits 0] parse_digits_reject [of digits 0]
  by (cases "\<forall>c \<in> set digits. is_digit c") (auto simp: parse_number_def dec_value_def Let_def)

theorem parse_number_exact_witness:
  "parse_number ''000042'' = Some 42 \<and> parse_number ''18446744073709551617'' = None"
  unfolding parse_number_exact by (simp add: dec_value_def is_digit_def)

lemma pad6_digits: "\<forall>c \<in> set (pad6 n). is_digit c"
  using to_string_digits by (auto simp: pad6_def Let_def is_digit_def)

lemma parse_pad6: "parse_number (pad6 n) = Some n"
proof -
  have "unat n < 2 ^ 64" using unsigned_less [of n, where 'a = nat] by simp
  then have "unat n < 10 ^ Suc 19" by (rule less_trans) simp
  then have "length (pad6 n) \<le> 20" using length_to_string [of "unat n" 19] by (simp add: pad6_def Let_def)
  moreover have "dec_value (pad6 n) = unat n" by (simp add: pad6_def Let_def dec_value_zeros dec_value_to_string)
  moreover have "pad6 n \<noteq> []" using to_string_not_Nil by (simp add: pad6_def Let_def)
  ultimately show ?thesis
    using parse_digits_value [OF pad6_digits, of n 0] \<open>unat n < 2 ^ 64\<close>
    by (auto simp: parse_number_def dec_value_def Let_def not_less)
qed

lemma pad6_Cons: "\<exists>c rest. pad6 n = c # rest \<and> is_digit c"
proof -
  have "pad6 n \<noteq> []" using to_string_not_Nil by (simp add: pad6_def Let_def)
  then show ?thesis using pad6_digits [of n] by (cases "pad6 n") auto
qed

lemma parse_numbered:
  "parse_file_name (pad6 n @ CHR ''.'' # ext) =
     (if ext = ''log'' then Some (n, kLog) else if ext = ''sst'' then Some (n, kTable)
      else if ext = ''dbtmp'' then Some (n, kTemp) else None)"
proof -
  let ?f = "pad6 n @ CHR ''.'' # ext"
  have nodot: "\<forall>c \<in> set (pad6 n). c \<noteq> CHR ''.''" using pad6_digits [of n] by (auto simp: is_digit_def)
  then have tw: "takeWhile (\<lambda>c. c \<noteq> CHR ''.'') ?f = pad6 n" by (simp add: takeWhile_append2)
  obtain c rest where c: "pad6 n = c # rest" "is_digit c" using pad6_Cons by blast
  then have "c \<noteq> CHR ''C''" "c \<noteq> CHR ''L''" "c \<noteq> CHR ''M''" by (auto simp: is_digit_def)
  then have "?f \<noteq> ''CURRENT''" "?f \<noteq> ''LOCK''" "?f \<noteq> ''LOG''" "?f \<noteq> ''LOG.old''" "take 9 ?f \<noteq> ''MANIFEST-''"
    using c(1) by auto
  then show ?thesis unfolding parse_file_name_def by (simp add: tw parse_pad6 c(1) [symmetric] Let_def) (use c(1) in simp)
qed

text \<open>
  C32. Every name the engine gives a file is recognised when the directory is read back,
  with the number and the type it was made from.
\<close>

theorem file_name_round_trip:
  "parse_file_name (drop (length dbname + 1) (log_file_name dbname number)) = Some (number, kLog) \<and>
   parse_file_name (drop (length dbname + 1) (table_file_name dbname number)) = Some (number, kTable) \<and>
   parse_file_name (drop (length dbname + 1) (temp_file_name dbname number)) = Some (number, kTemp) \<and>
   parse_file_name (drop (length dbname + 1) (descriptor_file_name dbname number)) = Some (number, kDescriptor) \<and>
   parse_file_name (drop (length dbname + 1) (current_file_name dbname)) = Some (0, kCurrent) \<and>
   parse_file_name (drop (length dbname + 1) (lock_file_name dbname)) = Some (0, kLock) \<and>
   parse_file_name (drop (length dbname + 1) (info_log_file_name dbname)) = Some (0, kInfoLog)"
  by (simp add: log_file_name_def table_file_name_def temp_file_name_def descriptor_file_name_def current_file_name_def
      lock_file_name_def info_log_file_name_def numbered_def parse_numbered)
    (simp add: parse_file_name_def parse_pad6)

end
