(* ===== verification/Directory.thy ===== *)
theory Directory
  imports Files Filename
begin

text \<open>
  The directory operations of src/file.cpp and set_current_file of src/filename.cpp.
  A directory binds names to files.  What a power cut leaves of a binding is one of the
  values it had since the directory was last synced.  \<open>d_os\<close> says what the operating
  system answers to the n-th call on the directory, \<open>d_file_os\<close> what it answers to the
  calls on the n-th file that is opened.
\<close>

record Directory =
  d_live :: "string \<Rightarrow> nat option"
  d_durable :: "string \<Rightarrow> nat option set"
  d_files :: "nat \<Rightarrow> WritableFile"
  d_next :: nat
  d_calls :: nat
  d_os :: "nat \<Rightarrow> string option"
  d_file_os :: "nat \<Rightarrow> nat \<Rightarrow> (nat \<times> string) option"

definition bind_name :: "string \<Rightarrow> nat option \<Rightarrow> Directory \<Rightarrow> Directory" where
  "bind_name path b d =
     d\<lparr>d_live := (d_live d)(path := b), d_durable := (d_durable d)(path := insert b (d_durable d path))\<rparr>"

text \<open>
  Opening for writing, not appending: a file there is truncated, a new one made otherwise.
  The stream is made after that, and when it cannot be, the file stays as open left it.
\<close>

definition create_or_truncate :: "string \<Rightarrow> Directory \<Rightarrow> nat \<times> Directory" where
  "create_or_truncate path d =
     (case d_live d path of
        Some i \<Rightarrow> (i, d\<lparr>d_files := (d_files d)(i := open_writable path (d_file_os d i))\<rparr>)
      | None \<Rightarrow>
          let i = d_next d in
          (i, bind_name path (Some i)
             (d\<lparr>d_files := (d_files d)(i := open_writable path (d_file_os d i)), d_next := i + 1\<rparr>)))"

definition dir_open :: "string \<Rightarrow> Directory \<Rightarrow> (status + nat) \<times> Directory" where
  "dir_open path d =
     (let d1 = d\<lparr>d_calls := d_calls d + 1\<rparr> in
      case d_os d (d_calls d) of
        Some e \<Rightarrow> (Inl (io_error (errno_message ''cannot open for writing'' path e)), d1)
      | None \<Rightarrow>
          (case create_or_truncate path d1 of (i, d2) \<Rightarrow>
             let d3 = d2\<lparr>d_calls := d_calls d2 + 1\<rparr> in
             case d_os d2 (d_calls d2) of
               Some e \<Rightarrow> (Inl (io_error (errno_message ''cannot open for writing'' path e)), d3)
             | None \<Rightarrow> (Inr i, d3)))"

text \<open>An operation of the file itself.\<close>

definition on_file_do :: "nat \<Rightarrow> (WritableFile \<Rightarrow> status \<times> WritableFile) \<Rightarrow> Directory \<Rightarrow> status \<times> Directory" where
  "on_file_do i f d = (case f (d_files d i) of (s, x) \<Rightarrow> (s, d\<lparr>d_files := (d_files d)(i := x)\<rparr>))"

definition remove_file :: "string \<Rightarrow> Directory \<Rightarrow> status \<times> Directory" where
  "remove_file path d =
     (let d' = d\<lparr>d_calls := d_calls d + 1\<rparr> in
      case d_os d (d_calls d) of
        Some e \<Rightarrow> (io_error (''cannot remove '' @ quoted path @ '': '' @ e), d')
      | None \<Rightarrow> (status_ok, if d_live d path = None then d' else bind_name path None d'))"

definition rename_file :: "string \<Rightarrow> string \<Rightarrow> Directory \<Rightarrow> status \<times> Directory" where
  "rename_file source target d =
     (let d' = d\<lparr>d_calls := d_calls d + 1\<rparr>;
          message = ''cannot rename '' @ quoted source @ '' to '' @ quoted target @ '': '' in
      case (d_os d (d_calls d), d_live d source) of
        (Some e, _) \<Rightarrow> (io_error (message @ e), d')
      | (None, None) \<Rightarrow> (io_error (message @ ''No such file or directory''), d')
      | (None, Some i) \<Rightarrow> (status_ok, bind_name source None (bind_name target (Some i) d')))"

definition sync_directory :: "string \<Rightarrow> Directory \<Rightarrow> status \<times> Directory" where
  "sync_directory path d =
     (let d1 = d\<lparr>d_calls := d_calls d + 1\<rparr>; d2 = d\<lparr>d_calls := d_calls d + 2\<rparr> in
      case d_os d (d_calls d) of
        Some e \<Rightarrow> (io_error (errno_message ''cannot open directory'' path e), d1)
      | None \<Rightarrow>
          (case d_os d (d_calls d + 1) of
             Some e \<Rightarrow> (io_error (errno_message ''cannot sync directory'' path e), d2)
           | None \<Rightarrow> (status_ok, d2\<lparr>d_durable := (\<lambda>n. {d_live d n})\<rparr>)))"

section \<open>CURRENT\<close>

definition bytes_of :: "string \<Rightarrow> bytes" where
  "bytes_of = map (\<lambda>c. word_of_nat (of_char c))"

text \<open>
  One call of a sequence: skipped when an earlier one failed, and the state after it
  recorded, for a power cut may come between any two.
\<close>

definition then_do ::
    "(Directory \<Rightarrow> status \<times> Directory) \<Rightarrow> status \<times> Directory \<times> Directory list \<Rightarrow> status \<times> Directory \<times> Directory list" where
  "then_do f r =
     (case r of (s, d, past) \<Rightarrow>
        if is_ok s then (case f d of (s', d') \<Rightarrow> (s', d', past @ [d'])) else (s, d, past))"

definition write_temp ::
    "string \<Rightarrow> bytes \<Rightarrow> Directory \<Rightarrow> status \<times> Directory \<times> Directory list" where
  "write_temp temp base d =
     (case dir_open temp d of
        (Inl s, d') \<Rightarrow> (s, d', [d, d'])
      | (Inr i, d') \<Rightarrow>
          then_do (on_file_do i wf_close)
            (then_do (on_file_do i wf_sync)
              (then_do (on_file_do i (\<lambda>f. wf_append f (bytes_of [CHR 0x0A])))
                (then_do (on_file_do i (\<lambda>f. wf_append f base)) (status_ok, d', [d, d'])))))"

text \<open>
  The status, the directory, and every state on the way.  The destructor of a file left
  open by an error closes it, which makes nothing durable.
\<close>

definition set_current_file ::
    "string \<Rightarrow> u64 \<Rightarrow> Directory \<Rightarrow> status \<times> Directory \<times> Directory list" where
  "set_current_file dbname descriptor_number d =
     (let manifest = descriptor_file_name dbname descriptor_number;
          base = bytes_of (drop (length dbname + 1) manifest);
          temp = temp_file_name dbname descriptor_number;
          r = then_do (sync_directory dbname)
                (then_do (rename_file temp (current_file_name dbname)) (write_temp temp base d))
      in case r of (s, d', past) \<Rightarrow>
           if is_ok s then (s, d', past)
           else case remove_file temp d' of (_, d'') \<Rightarrow> (s, d'', past @ [d'']))"

section \<open>What a power cut leaves\<close>

text \<open>
  As before, and a file that was synced whole and not written since is found as it was: its
  length is synced with it.
\<close>

definition after_power_cut :: "WritableFile \<Rightarrow> bytes \<Rightarrow> bool" where
  "after_power_cut f contents \<longleftrightarrow> survives_power_cut f contents \<and>
     (wf_synced f = length (wf_data f) \<longrightarrow> contents = wf_data f)"

definition may_hold :: "Directory \<Rightarrow> string \<Rightarrow> bytes \<Rightarrow> bool" where
  "may_hold d path contents \<longleftrightarrow> (\<exists>i. Some i \<in> d_durable d path \<and> after_power_cut (d_files d i) contents)"

text \<open>The durable CURRENT of \<open>d\<close> is untouched in \<open>x\<close>.\<close>

definition keeps :: "string \<Rightarrow> Directory \<Rightarrow> Directory \<Rightarrow> bool" where
  "keeps cur d x \<longleftrightarrow> d_durable x cur = d_durable d cur \<and>
     (\<forall>i. Some i \<in> d_durable d cur \<longrightarrow> d_files x i = d_files d i)"

lemma keeps_may_hold: "keeps cur d x \<Longrightarrow> may_hold x cur c \<longleftrightarrow> may_hold d cur c"
  by (auto simp: keeps_def may_hold_def)

lemma keeps_on_file:
  "keeps cur d x \<Longrightarrow> Some i \<notin> d_durable d cur \<Longrightarrow> on_file_do i f x = (s, x') \<Longrightarrow> keeps cur d x'"
  by (auto simp: keeps_def on_file_do_def split: prod.splits)

lemma on_file_do_result:
  "on_file_do i f x = (s, x') \<Longrightarrow> f (d_files x i) = (s, d_files x' i) \<and> d_live x' = d_live x"
  by (auto simp: on_file_do_def split: prod.splits)

text \<open>What holds along a sequence of calls, and of its last state if all succeed.\<close>

definition along ::
    "(Directory \<Rightarrow> bool) \<Rightarrow> (Directory \<Rightarrow> bool) \<Rightarrow> status \<times> Directory \<times> Directory list \<Rightarrow> bool" where
  "along P Q r \<longleftrightarrow> (case r of (s, d, past) \<Rightarrow>
     (\<forall>x \<in> set past. P x) \<and> past \<noteq> [] \<and> last past = d \<and> (is_ok s \<longrightarrow> Q d))"

lemma along_then:
  assumes "along P Q r" "\<And>d s d'. P d \<Longrightarrow> Q d \<Longrightarrow> f d = (s, d') \<Longrightarrow> P d' \<and> (is_ok s \<longrightarrow> Q' d')"
  shows "along P Q' (then_do f r)"
proof -
  obtain s d past where r: "r = (s, d, past)" by (cases r)
  obtain s' d' where f: "f d = (s', d')" by fastforce
  have "past \<noteq> []" "last past = d" "\<forall>x \<in> set past. P x" using assms(1) by (simp_all add: r along_def)
  then have "P d" using last_in_set [of past] by auto
  then show ?thesis using assms(1) assms(2) [OF _ _ f] by (auto simp: r f along_def then_do_def)
qed

lemma along_weaken: "along P Q r \<Longrightarrow> (\<And>d. P d \<Longrightarrow> P' d) \<Longrightarrow> along P' Q r"
  by (auto simp: along_def)

lemma along_on_file:
  assumes "along (keeps cur d) Q r" "Some i \<notin> d_durable d cur"
    and "\<And>x x' s. Q x \<Longrightarrow> f (d_files x i) = (s, d_files x' i) \<Longrightarrow> d_live x' = d_live x \<Longrightarrow> is_ok s \<Longrightarrow> Q' x'"
  shows "along (keeps cur d) Q' (then_do (on_file_do i f) r)"
  by (rule along_then [OF assms(1)]) (use assms(2,3) keeps_on_file on_file_do_result in blast)

lemma wf_close_keeps: "wf_close f = (s, f') \<Longrightarrow> wf_data f' = wf_data f \<and> wf_synced f' = wf_synced f"
  by (auto simp: wf_close_def Let_def split: if_splits option.splits)

definition written :: "string \<Rightarrow> nat \<Rightarrow> bytes \<Rightarrow> Directory \<Rightarrow> bool" where
  "written temp i data d \<longleftrightarrow> d_live d temp = Some i \<and> wf_open (d_files d i) \<and> wf_data (d_files d i) = data"

lemma create_or_truncate_fresh:
  assumes "\<forall>i. Some i \<in> d_durable d cur \<longrightarrow> i < d_next d \<and> d_live d temp \<noteq> Some i" "temp \<noteq> cur"
    and "create_or_truncate temp d = (i, d')"
  shows "keeps cur d d' \<and> Some i \<notin> d_durable d cur \<and> written temp i [] d'"
  using assms by (auto simp: create_or_truncate_def Let_def keeps_def bind_name_def written_def open_writable_def split: option.splits)

lemma dir_open_fresh:
  assumes old: "\<forall>i. Some i \<in> d_durable d cur \<longrightarrow> i < d_next d \<and> d_live d temp \<noteq> Some i" and ne: "temp \<noteq> cur"
    and "dir_open temp d = (r, d')"
  shows "keeps cur d d' \<and> (case r of Inl s \<Rightarrow> \<not> is_ok s | Inr i \<Rightarrow> Some i \<notin> d_durable d cur \<and> written temp i [] d')"
proof -
  let ?d1 = "d\<lparr>d_calls := d_calls d + 1\<rparr>"
  obtain i d2 where c: "create_or_truncate temp ?d1 = (i, d2)" by fastforce
  have "keeps cur ?d1 d2 \<and> Some i \<notin> d_durable ?d1 cur \<and> written temp i [] d2"
    by (rule create_or_truncate_fresh [OF _ ne c]) (use old in simp)
  then show ?thesis using assms(3) c
    by (auto simp: dir_open_def Let_def keeps_def written_def split: option.splits)
qed

lemma write_temp_along:
  assumes old: "\<forall>i. Some i \<in> d_durable d cur \<longrightarrow> i < d_next d \<and> d_live d temp \<noteq> Some i" and ne: "temp \<noteq> cur"
  shows "\<exists>i. along (keeps cur d) (\<lambda>x. d_live x temp = Some i \<and> wf_data (d_files x i) = base @ bytes_of [CHR 0x0A] \<and>
            wf_synced (d_files x i) = length (wf_data (d_files x i))) (write_temp temp base d)
     \<and> Some i \<notin> d_durable d cur"
proof (cases "dir_open temp d")
  case (Pair r d1)
  show ?thesis
  proof (cases r)
    case (Inl s)
    have "keeps cur d d1" "\<not> is_ok s" using dir_open_fresh [OF old ne Pair] Inl by simp_all
    moreover have "Some (d_next d) \<notin> d_durable d cur" using old by auto
    ultimately show ?thesis using Pair Inl by (auto simp: write_temp_def along_def keeps_def)
  next
    case (Inr i)
    have i: "Some i \<notin> d_durable d cur" and k: "keeps cur d d1" and w: "written temp i [] d1"
      using dir_open_fresh [OF old ne Pair] Inr by simp_all
    have start: "along (keeps cur d) (written temp i []) (status_ok, d1, [d, d1])"
      using k w by (auto simp: along_def keeps_def)
    have app: "along (keeps cur d) (written temp i (data @ y)) (then_do (on_file_do i (\<lambda>f. wf_append f y)) r)"
      if "along (keeps cur d) (written temp i data) r" for data y r
      by (rule along_on_file [OF that i]) (auto simp: written_def dest: wf_append_ok)
    have syn: "along (keeps cur d) (\<lambda>x. written temp i data x \<and> wf_synced (d_files x i) = length (wf_data (d_files x i)))
        (then_do (on_file_do i wf_sync) r)"
      if "along (keeps cur d) (written temp i data) r" for data r
      by (rule along_on_file [OF that i]) (auto simp: written_def dest: wf_sync_ok)
    have clo: "along (keeps cur d) (\<lambda>x. d_live x temp = Some i \<and> wf_data (d_files x i) = data \<and>
            wf_synced (d_files x i) = length (wf_data (d_files x i)))
        (then_do (on_file_do i wf_close) r)"
      if "along (keeps cur d) (\<lambda>x. written temp i data x \<and> wf_synced (d_files x i) = length (wf_data (d_files x i))) r"
      for data r
      by (rule along_on_file [OF that i]) (auto simp: written_def dest!: wf_close_keeps)
    show ?thesis
      using clo [OF syn [OF app [OF app [OF start, of base], of "bytes_of [CHR 0x0A]"]]] i
      by (auto simp: write_temp_def Pair Inr)
  qed
qed

text \<open>CURRENT may already be the new file, which then is complete on the device.\<close>

definition switching :: "string \<Rightarrow> Directory \<Rightarrow> nat \<Rightarrow> bytes \<Rightarrow> Directory \<Rightarrow> bool" where
  "switching cur d i data x \<longleftrightarrow>
     d_durable x cur \<subseteq> insert (Some i) (d_durable d cur) \<and>
     (\<forall>j. Some j \<in> d_durable d cur \<longrightarrow> d_files x j = d_files d j) \<and>
     (Some i \<in> d_durable x cur \<longrightarrow>
        wf_data (d_files x i) = data \<and> wf_synced (d_files x i) = length (wf_data (d_files x i)))"

lemma switching_may_hold:
  assumes "switching cur d i data x" "may_hold x cur c"
  shows "may_hold d cur c \<or> c = data"
proof -
  obtain j where j: "Some j \<in> d_durable x cur" "after_power_cut (d_files x j) c"
    using assms(2) by (auto simp: may_hold_def)
  show ?thesis
  proof (cases "j = i")
    case True
    then show ?thesis using j assms(1) by (auto simp: switching_def after_power_cut_def)
  next
    case False
    then have "Some j \<in> d_durable d cur" using j assms(1) by (auto simp: switching_def)
    then show ?thesis using j(2) assms(1) unfolding may_hold_def switching_def by metis
  qed
qed

lemma keeps_switching: "Some i \<notin> d_durable d cur \<Longrightarrow> keeps cur d x \<Longrightarrow> switching cur d i data x"
  by (auto simp: keeps_def switching_def)

lemma set_current_along:
  assumes old: "\<forall>i. Some i \<in> d_durable d cur \<longrightarrow> i < d_next d \<and> d_live d temp \<noteq> Some i" and ne: "temp \<noteq> cur"
  obtains i where "Some i \<notin> d_durable d cur"
    "along (switching cur d i (base @ bytes_of [CHR 0x0A]))
       (\<lambda>x. d_durable x cur = {Some i} \<and> d_live x cur = Some i)
       (then_do (sync_directory dbname) (then_do (rename_file temp cur) (write_temp temp base d)))"
proof -
  let ?new = "base @ bytes_of [CHR 0x0A]"
  obtain i where i: "Some i \<notin> d_durable d cur"
    and w: "along (keeps cur d) (\<lambda>x. d_live x temp = Some i \<and> wf_data (d_files x i) = ?new \<and>
            wf_synced (d_files x i) = length (wf_data (d_files x i))) (write_temp temp base d)"
    using write_temp_along [OF assms] by blast
  have "along (switching cur d i ?new) (\<lambda>x. d_live x cur = Some i \<and> Some i \<in> d_durable x cur)
      (then_do (rename_file temp cur) (write_temp temp base d))"
    by (rule along_then [OF along_weaken [OF w keeps_switching [OF i]]])
      (use ne in \<open>auto simp: switching_def rename_file_def bind_name_def Let_def split: option.splits\<close>)
  then have "along (switching cur d i ?new) (\<lambda>x. d_durable x cur = {Some i} \<and> d_live x cur = Some i)
       (then_do (sync_directory dbname) (then_do (rename_file temp cur) (write_temp temp base d)))"
    by (rule along_then) (auto simp: switching_def sync_directory_def Let_def split: option.splits)
  with i show thesis by (rule that)
qed

lemma switching_remove:
  "switching cur d i data x \<Longrightarrow> temp \<noteq> cur \<Longrightarrow> remove_file temp x = (s, x') \<Longrightarrow> switching cur d i data x'"
  by (auto simp: switching_def remove_file_def bind_name_def Let_def split: option.splits if_splits)

lemma temp_not_current: "temp_file_name dbname n \<noteq> current_file_name dbname"
proof -
  obtain c rest where "pad6 n = c # rest" "is_digit c" using pad6_Cons by blast
  then show ?thesis by (auto simp: temp_file_name_def current_file_name_def numbered_def is_digit_def)
qed

text \<open>
  C13. Pointing CURRENT at a new manifest is atomic.  Whichever call fails, and wherever a
  power cut falls, CURRENT afterwards holds what it could have held before, or the
  complete name of the new manifest and its newline; it is never torn, empty or missing
  if it was not before.  When the call reports success only the new name is left.
\<close>

theorem set_current_file_atomic:
  assumes "set_current_file dbname number d = (s, d', past)"
    and "\<forall>i. Some i \<in> d_durable d (current_file_name dbname) \<longrightarrow>
      i < d_next d \<and> d_live d (temp_file_name dbname number) \<noteq> Some i"
    and "cur = current_file_name dbname"
    and "name = bytes_of (drop (length dbname + 1) (descriptor_file_name dbname number) @ [CHR 0x0A])"
  shows "(\<forall>x \<in> set past. (\<forall>c. may_hold x cur c \<longrightarrow> may_hold d cur c \<or> c = name) \<and>
            (None \<in> d_durable x cur \<longrightarrow> None \<in> d_durable d cur)) \<and>
     last past = d' \<and>
     (is_ok s \<longrightarrow> None \<notin> d_durable d' cur \<and> (\<forall>c. may_hold d' cur c \<longleftrightarrow> c = name))"
proof -
  let ?temp = "temp_file_name dbname number"
  let ?base = "bytes_of (drop (length dbname + 1) (descriptor_file_name dbname number))"
  let ?r = "then_do (sync_directory dbname) (then_do (rename_file ?temp (current_file_name dbname)) (write_temp ?temp ?base d))"
  have name: "name = ?base @ bytes_of [CHR 0x0A]" using assms(4) by (simp add: bytes_of_def)
  obtain i where i: "Some i \<notin> d_durable d cur"
    and al: "along (switching cur d i name) (\<lambda>x. d_durable x cur = {Some i} \<and> d_live x cur = Some i) ?r"
    unfolding name assms(3) by (rule set_current_along [OF assms(2) temp_not_current])
  obtain s0 d0 past0 where r: "?r = (s0, d0, past0)" by (cases ?r)
  have run: "\<forall>x \<in> set past0. switching cur d i name x" "past0 \<noteq> []" "last past0 = d0"
      "is_ok s0 \<longrightarrow> d_durable d0 cur = {Some i}" and "switching cur d i name d0"
    using al last_in_set [of past0] unfolding r by (auto simp: along_def)
  have "\<forall>x \<in> set past. switching cur d i name x" "last past = d'" "is_ok s \<longrightarrow> d_durable d' cur = {Some i} \<and> d' \<in> set past"
    using assms(1) run switching_remove [OF \<open>switching cur d i name d0\<close>] temp_not_current [of dbname number] assms(3)
    unfolding set_current_file_def Let_def r by (auto split: if_splits prod.splits)
  moreover have "(\<forall>c. may_hold x cur c \<longrightarrow> may_hold d cur c \<or> c = name) \<and> (None \<in> d_durable x cur \<longrightarrow> None \<in> d_durable d cur)"
    if "switching cur d i name x" for x
    using that switching_may_hold [OF that] by (auto simp: switching_def)
  moreover have "may_hold d' cur c \<longleftrightarrow> c = name" if "switching cur d i name d'" "d_durable d' cur = {Some i}" for c
    using that by (auto simp: switching_def may_hold_def after_power_cut_def survives_power_cut_def)
  ultimately show ?thesis by auto
qed

definition sample_directory :: Directory where
  "sample_directory =
     \<lparr>d_live = [''db/CURRENT'' \<mapsto> 0], d_durable = (\<lambda>n. {([''db/CURRENT'' \<mapsto> 0]) n}),
      d_files = (\<lambda>_. (open_writable ''db/CURRENT'' (\<lambda>_. None))\<lparr>wf_data := [77, 10], wf_flushed := 2, wf_synced := 2\<rparr>),
      d_next = 1, d_calls = 0, d_os = (\<lambda>_. None), d_file_os = (\<lambda>_ _. None)\<rparr>"

theorem set_current_file_atomic_witness:
  "is_ok (fst (set_current_file ''db'' 5 sample_directory)) \<and>
   may_hold (fst (snd (set_current_file ''db'' 5 sample_directory))) ''db/CURRENT'' (bytes_of ''MANIFEST-000005\<newline>'') \<and>
   \<not> may_hold (fst (snd (set_current_file ''db'' 5 sample_directory))) ''db/CURRENT'' [77, 10]"
proof -
  let ?r = "set_current_file ''db'' 5 sample_directory"
  have ok: "is_ok (fst ?r)" by code_simp
  have old: "\<forall>i. Some i \<in> d_durable sample_directory (current_file_name ''db'') \<longrightarrow>
      i < d_next sample_directory \<and> d_live sample_directory (temp_file_name ''db'' 5) \<noteq> Some i"
    using temp_not_current [of "''db''" 5] by (simp add: sample_directory_def current_file_name_def)
  have names: "current_file_name ''db'' = ''db/CURRENT''"
    "bytes_of (drop (length ''db'' + 1) (descriptor_file_name ''db'' 5) @ [CHR 0x0A]) = bytes_of ''MANIFEST-000005\<newline>''"
    by code_simp+
  have ne: "bytes_of ''MANIFEST-000005\<newline>'' \<noteq> [77, 10]" by code_simp
  have "?r = (fst ?r, fst (snd ?r), snd (snd ?r))" by simp
  from set_current_file_atomic [OF this old names(1) [symmetric] names(2) [symmetric]]
  show ?thesis using ok ne by simp
qed

end
