(* ===== verification/Bloom.thy ===== *)
theory Bloom
  imports Dbformat
begin

text \<open>
  src/hash.hpp, src/bloom.cpp and src/internal\_filter\_policy.cpp: the hash, the
  bloom filter over it, and the wrapper that filters internal keys by their user
  key.  The number of bits per key is an int, and the size of a filter is computed in
  size\_t, where a product or a sum wraps.
\<close>

section \<open>The hash\<close>

definition fmix64 :: "u64 \<Rightarrow> u64" where
  "fmix64 h =
     (let h1 = h XOR drop_bit 33 h;
          h2 = h1 * 0xff51afd7ed558ccd;
          h3 = h2 XOR drop_bit 33 h2;
          h4 = h3 * 0xc4ceb9fe1a85ec53
      in h4 XOR drop_bit 33 h4)"

definition kPrime :: u64 where
  "kPrime = 0x9e3779b97f4a7c15"

fun hash_words :: "u64 \<Rightarrow> bytes \<Rightarrow> u64 \<times> bytes" where
  "hash_words h data =
     (if 8 \<le> length data
      then let h1 = (h XOR decode_fixed64 data) * kPrime
           in hash_words (h1 XOR drop_bit 29 h1) (drop 8 data)
      else (h, data))"

declare hash_words.simps [simp del]

primrec hash_tail :: "nat \<Rightarrow> bytes \<Rightarrow> u64 \<Rightarrow> u64" where
  "hash_tail i [] t = t"
| "hash_tail i (b # bs) t = hash_tail (Suc i) bs (t OR push_bit (8 * i) (ucast b))"

definition hash64 :: "bytes \<Rightarrow> u64" where
  "hash64 key =
     (case hash_words (kPrime XOR (word_of_nat (length key) * 0xff51afd7ed558ccd)) key of
        (h, rest) \<Rightarrow> fmix64 ((h XOR hash_tail 0 rest 0) * kPrime))"

definition bloom_hash :: "bytes \<Rightarrow> u32" where
  "bloom_hash key = ucast (drop_bit 32 (hash64 key))"

section \<open>Filter policies\<close>

record FilterPolicy =
  fp_name :: string
  fp_create_filter :: "bytes list \<Rightarrow> bytes \<Rightarrow> bytes"
  fp_key_may_match :: "bytes \<Rightarrow> bytes \<Rightarrow> bool"

text \<open>
  The number of probes: 0.69 bits per key, at least one and at most thirty.  The product
  is a double in the source; below the clamp it is never so close to an integer that the
  rounding matters.
\<close>

definition bloom_k :: "int \<Rightarrow> nat" where
  "bloom_k bits_per_key = min 30 (max 1 (nat (bits_per_key * 69 div 100)))"

definition bloom_delta :: "u32 \<Rightarrow> u32" where
  "bloom_delta h = drop_bit 17 h OR push_bit 15 h"

fun set_probes :: "nat \<Rightarrow> nat \<Rightarrow> u32 \<Rightarrow> u32 \<Rightarrow> bytes \<Rightarrow> bytes" where
  "set_probes bits 0 h delta array = array"
| "set_probes bits (Suc j) h delta array =
     (let bitpos = unat h mod bits
      in set_probes bits j (h + delta) delta
           (array[bitpos div 8 := array ! (bitpos div 8) OR push_bit (bitpos mod 8) 1]))"

text \<open>
  The bytes of a filter without its last one.  When they wrap to none, the source divides
  by zero at the first key.
\<close>

definition bloom_bytes :: "int \<Rightarrow> nat \<Rightarrow> u64" where
  "bloom_bytes bits_per_key num_keys =
     (let bits0 = word_of_nat num_keys * word_of_int bits_per_key :: u64;
          bits = (if bits0 < 64 then 64 else bits0)
      in (bits + 7) div 8)"

definition create_filter :: "int \<Rightarrow> bytes list \<Rightarrow> bytes \<Rightarrow> bytes" where
  "create_filter bits_per_key keys dst =
     (let size = bloom_bytes bits_per_key (length keys);
          bits = size * 8;
          array = foldl (\<lambda>array key.
                    set_probes (unat bits) (bloom_k bits_per_key) (bloom_hash key)
                      (bloom_delta (bloom_hash key)) array)
                  (replicate (unat size) 0) keys
      in dst @ array @ [word_of_nat (bloom_k bits_per_key)])"

fun test_probes :: "nat \<Rightarrow> nat \<Rightarrow> u32 \<Rightarrow> u32 \<Rightarrow> bytes \<Rightarrow> bool" where
  "test_probes bits 0 h delta array = True"
| "test_probes bits (Suc j) h delta array =
     (let bitpos = unat h mod bits
      in if array ! (bitpos div 8) AND push_bit (bitpos mod 8) 1 = 0 then False
         else test_probes bits j (h + delta) delta array)"

definition bloom_key_may_match :: "bytes \<Rightarrow> bytes \<Rightarrow> bool" where
  "bloom_key_may_match key filt =
     (let len = length filt in
      if len < 2 then True
      else let bits = (len - 1) * 8;
               k = unat (filt ! (len - 1))
           in if 30 < k then True
              else test_probes bits k (bloom_hash key) (bloom_delta (bloom_hash key)) filt)"

definition new_bloom_filter_policy :: "int \<Rightarrow> FilterPolicy" where
  "new_bloom_filter_policy bits_per_key =
     \<lparr>fp_name = ''ambar.BuiltinBloomFilter2'',
      fp_create_filter = create_filter bits_per_key,
      fp_key_may_match = bloom_key_may_match\<rparr>"

text \<open>The key a filter over internal keys is about.\<close>

definition filter_key :: "bytes \<Rightarrow> bytes" where
  "filter_key key = (if 8 \<le> length key then extract_user_key key else key)"

definition new_internal_filter_policy :: "FilterPolicy \<Rightarrow> FilterPolicy" where
  "new_internal_filter_policy p =
     \<lparr>fp_name = fp_name p,
      fp_create_filter = (\<lambda>keys dst. fp_create_filter p (map filter_key keys) dst),
      fp_key_may_match = (\<lambda>key filt. fp_key_may_match p (filter_key key) filt)\<rparr>"

section \<open>The contract of a filter policy\<close>

text \<open>
  A filter is appended to the destination, and it never excludes a key that counts
  as the same as one it was built from.  It is built from fewer than four billion keys.
\<close>

locale filter_policy =
  fixes p :: FilterPolicy and same :: "bytes \<Rightarrow> bytes \<Rightarrow> bool"
  assumes appends: "fp_create_filter p keys dst = dst @ fp_create_filter p keys []"
    and matches: "length keys < 2 ^ 32 \<Longrightarrow> key \<in> set keys \<Longrightarrow> same key key' \<Longrightarrow> fp_key_may_match p key' (fp_create_filter p keys [])"
begin

lemma internal_matches:
  assumes "\<And>k. same k k" "length keys < 2 ^ 32" "key \<in> set keys" "filter_key key = filter_key key'"
  shows "fp_key_may_match (new_internal_filter_policy p) key' (fp_create_filter (new_internal_filter_policy p) keys [])"
proof -
  have "length (map filter_key keys) < 2 ^ 32" "filter_key key \<in> set (map filter_key keys)" using assms(2,3) by simp_all
  from matches [OF this assms(1)] show ?thesis using assms(4) by (simp add: new_internal_filter_policy_def)
qed

lemma internal_appends:
  "fp_create_filter (new_internal_filter_policy p) keys dst = dst @ fp_create_filter (new_internal_filter_policy p) keys []"
  by (simp add: new_internal_filter_policy_def) (rule appends)

end

section \<open>The bloom filter never loses a key\<close>

lemma length_set_probes [simp]: "length (set_probes bits j h delta array) = length array"
  by (induction bits j h delta array rule: set_probes.induct) (simp_all add: Let_def)

text \<open>Bits only ever get set.\<close>

definition covers :: "bytes \<Rightarrow> bytes \<Rightarrow> bool" where
  "covers a b \<longleftrightarrow> length a = length b \<and> (\<forall>i < length a. \<forall>n. bit (a ! i) n \<longrightarrow> bit (b ! i) n)"

lemma covers_refl [simp]: "covers a a"
  by (simp add: covers_def)

lemma covers_trans: "covers a b \<Longrightarrow> covers b c \<Longrightarrow> covers a c"
  by (auto simp: covers_def)

lemma covers_set: "covers a (a[i := a ! i OR x])"
  by (auto simp: covers_def nth_update_if bit_or_iff)

lemma set_probes_covers: "covers array (set_probes bits j h delta array)"
proof (induction bits j h delta array rule: set_probes.induct)
  case (2 bits j h delta array)
  then show ?case using covers_trans covers_set unfolding set_probes.simps Let_def by blast
qed simp

lemma fold_covers: "covers array (foldl (\<lambda>a k. set_probes bits n (f k) (g k) a) array keys)"
  by (induction keys arbitrary: array) (auto intro: covers_trans set_probes_covers)

lemma probe_bit: "(x :: byte) AND push_bit n 1 = 0 \<longleftrightarrow> \<not> (n < 8 \<and> bit x n)"
proof
  assume "x AND push_bit n 1 = 0"
  then have "\<not> bit (x AND push_bit n 1) n" by simp
  then show "\<not> (n < 8 \<and> bit x n)" by (auto simp: bit_simps)
next
  assume "\<not> (n < 8 \<and> bit x n)"
  then show "x AND push_bit n 1 = 0" by (intro bit_word_eqI) (auto simp: bit_simps)
qed

lemmas probe_bits = probe_bit probe_bit [unfolded push_bit_of_1]

lemma test_probes_mono:
  assumes "covers a b" "bits = length a * 8" "0 < bits"
  shows "test_probes bits j h delta a \<Longrightarrow> test_probes bits j h delta (b @ r)"
proof (induction j arbitrary: h)
  case (Suc j)
  have i: "unat h mod bits div 8 < length a"
    using assms(2,3) by (simp add: less_mult_imp_div_less)
  then show ?case using Suc assms(1) by (auto simp: Let_def probe_bits covers_def nth_append split: if_splits)
qed simp

lemma test_set_probes:
  assumes "bits = length array * 8" "0 < bits"
  shows "test_probes bits j h delta (set_probes bits j h delta array)"
  using assms(1)
proof (induction j arbitrary: h array)
  case (Suc j)
  let ?p = "unat h mod bits"
  let ?a = "array[?p div 8 := array ! (?p div 8) OR push_bit (?p mod 8) 1]"
  have i: "?p div 8 < length array" using Suc.prems assms(2) by (simp add: less_mult_imp_div_less)
  then have "bit (?a ! (?p div 8)) (?p mod 8)" by (simp add: bit_simps)
  then have "bit (set_probes bits j (h + delta) delta ?a ! (?p div 8)) (?p mod 8)"
    using set_probes_covers [of ?a bits j "h + delta" delta] i by (simp add: covers_def)
  moreover have "test_probes bits j (h + delta) delta (set_probes bits j (h + delta) delta ?a)"
    by (rule Suc.IH) (use Suc.prems in simp)
  ultimately show ?case by (simp add: Let_def probe_bits)
qed simp

lemma bloom_k_bounds: "1 \<le> bloom_k n" "bloom_k n \<le> 30"
  by (simp_all add: bloom_k_def)

lemma foldl_probes_member:
  assumes "key \<in> set keys" "bits = length array * 8" "0 < bits"
  shows "test_probes bits n (f key) (g key) (foldl (\<lambda>a k. set_probes bits n (f k) (g k) a) array keys @ r)"
proof -
  obtain xs ys where keys: "keys = xs @ key # ys" using assms(1) by (meson split_list)
  let ?F = "foldl (\<lambda>a k. set_probes bits n (f k) (g k) a)"
  have len: "length (?F array xs) = length array" using fold_covers [of array bits n f g xs] by (simp add: covers_def)
  have "test_probes bits n (f key) (g key) (set_probes bits n (f key) (g key) (?F array xs))"
    by (rule test_set_probes) (use assms len in simp_all)
  then have "test_probes bits n (f key) (g key)
      (?F (set_probes bits n (f key) (g key) (?F array xs)) ys @ r)"
    by (rule test_probes_mono [OF fold_covers, rotated 2]) (use assms len in simp_all)
  then show ?thesis by (simp add: keys)
qed

section \<open>The size of a filter\<close>

lemma bloom_bytes_le: "unat (bloom_bytes b n) * 8 < 2 ^ 64"
proof -
  have "unat (x div 8) * 8 < 2 ^ 64" for x :: u64
    using unsigned_less [of x, where 'a = nat] times_div_less_eq_dividend [of 8 "unat x"] by (simp add: unat_div)
  then show ?thesis by (simp add: bloom_bytes_def Let_def)
qed

lemma bloom_bytes_eq:
  assumes "0 \<le> b" "b < 2 ^ 31" "n < 2 ^ 32"
  shows "unat (bloom_bytes b n) = (max 64 (n * nat b) + 7) div 8"
proof -
  obtain k where k: "b = int k" using assms(1) nonneg_int_cases by blast
  define m where "m = n * k"
  have "m \<le> 2 ^ 32 * 2 ^ 31" unfolding m_def by (rule mult_mono) (use assms k in auto)
  then have small: "m < 2 ^ 64 - 7" by simp
  let ?y = "if (word_of_nat m :: u64) < 64 then 64 else word_of_nat m :: u64"
  have "unat (word_of_nat m :: u64) = m" using small by (simp add: unat_of_nat)
  then have y: "unat ?y = max 64 m" by (simp add: word_less_nat_alt max_def)
  then have "unat ?y + unat (7 :: u64) < 2 ^ LENGTH(64)" using small by simp
  then have "unat (?y + 7) = unat ?y + unat (7 :: u64)" by (rule unat_add_lem [THEN iffD1])
  moreover have "bloom_bytes b n = (?y + 7) div 8"
    by (simp add: bloom_bytes_def k m_def Let_def del: of_nat_mult flip: of_nat_mult)
  ultimately show ?thesis using y by (simp add: k unat_div m_def)
qed

lemma create_filter_matches:
  assumes "0 \<le> b" "b < 2 ^ 31" "length keys < 2 ^ 32" "key \<in> set keys"
  shows "bloom_key_may_match key (create_filter b keys [])"
proof -
  define size where "size = unat (bloom_bytes b (length keys))"
  let ?k = "bloom_k b"
  let ?array = "foldl (\<lambda>array key. set_probes (size * 8) ?k (bloom_hash key) (bloom_delta (bloom_hash key)) array)
      (replicate size 0) keys"
  have size: "0 < size" unfolding size_def bloom_bytes_eq [OF assms(1-3)] by simp
  have "unat (bloom_bytes b (length keys)) * 8 < 2 ^ 64"
    using bloom_bytes_le [of b "length keys"] by simp
  then have "unat (bloom_bytes b (length keys) * 8) = size * 8" by (simp add: unat_mult_lem [THEN iffD1] size_def)
  then have eq: "create_filter b keys [] = ?array @ [word_of_nat ?k]"
    by (simp add: create_filter_def Let_def size_def)
  have len: "length ?array = size"
    using fold_covers [of "replicate size 0" "size * 8" ?k bloom_hash "\<lambda>k. bloom_delta (bloom_hash k)" keys]
    unfolding covers_def by simp
  have k: "unat (word_of_nat ?k :: byte) = ?k" using bloom_k_bounds(2) [of b] by simp
  have "test_probes (size * 8) ?k (bloom_hash key) (bloom_delta (bloom_hash key)) (?array @ [word_of_nat ?k])"
    by (rule foldl_probes_member [OF assms(4), where g = "\<lambda>k. bloom_delta (bloom_hash k)"]) (use size in simp_all)
  then show ?thesis
    unfolding eq bloom_key_may_match_def Let_def using len k bloom_k_bounds(2) [of b] size
    by (simp add: nth_append)
qed

lemma create_filter_appends: "create_filter b keys dst = dst @ create_filter b keys []"
  by (simp add: create_filter_def Let_def)

lemma bloom_policy: "0 \<le> b \<Longrightarrow> b < 2 ^ 31 \<Longrightarrow> filter_policy (new_bloom_filter_policy b) (=)"
  by unfold_locales (simp_all add: new_bloom_filter_policy_def create_filter_matches, rule create_filter_appends)

lemma internal_bloom_policy:
  assumes "0 \<le> b" "b < 2 ^ 31"
  shows "filter_policy (new_internal_filter_policy (new_bloom_filter_policy b)) (\<lambda>k k'. filter_key k = filter_key k')"
  by unfold_locales
    (rule filter_policy.internal_appends [OF bloom_policy [OF assms]],
     rule filter_policy.internal_matches [OF bloom_policy [OF assms] refl])

text \<open>The ints that are not negative are 31 bits.\<close>

lemma uint_31: "0 \<le> uint (bits :: 31 word) \<and> uint bits < 2 ^ 31"
  using uint_lt2p [of bits] by simp

interpretation bloom: filter_policy "new_bloom_filter_policy (uint (bits :: 31 word))" "(=)" for bits
  by (rule bloom_policy) (use uint_31 in blast)+

interpretation internal_bloom: filter_policy
    "new_internal_filter_policy (new_bloom_filter_policy (uint (bits :: 31 word)))" "\<lambda>k k'. filter_key k = filter_key k'" for bits
  by (rule internal_bloom_policy) (use uint_31 in blast)+

section \<open>Properties\<close>



end
