(* ===== verification/Cache.thy ===== *)
theory Cache
  imports Bloom "HOL-Library.Monad_Syntax"
begin

text \<open>
  src/cache.cpp: the sharded LRU cache.  Entries live at addresses of a heap; an
  operation that touches an address that has been freed gives \<^term>\<open>None\<close>.  The two
  doubly linked lists are the lists of the addresses they link, oldest first, and a bucket
  of the hash table is the chain of its addresses.  \<open>sh_freed\<close> records the values the
  deleter was called with.
\<close>

record 'v LRUEntry =
  le_value :: 'v
  le_key :: bytes
  le_hash :: u64
  le_charge :: nat
  le_refs :: nat
  le_in_cache :: bool

record 'v LRUShard =
  sh_heap :: "nat \<Rightarrow> 'v LRUEntry option"
  sh_next :: nat
  sh_capacity :: nat
  sh_usage :: nat
  sh_lru :: "nat list"
  sh_in_use :: "nat list"
  sh_table :: "u64 \<Rightarrow> nat list"
  sh_freed :: "'v list"

definition LRUShard_ctor :: "nat \<Rightarrow> 'v LRUShard" where
  "LRUShard_ctor capacity =
     \<lparr>sh_heap = (\<lambda>_. None), sh_next = 0, sh_capacity = capacity, sh_usage = 0, sh_lru = [], sh_in_use = [],
      sh_table = (\<lambda>_. []), sh_freed = []\<rparr>"

section \<open>HashTable\<close>

fun chain_find :: "(nat \<Rightarrow> 'v LRUEntry option) \<Rightarrow> bytes \<Rightarrow> nat list \<Rightarrow> nat option option" where
  "chain_find heap key [] = Some None"
| "chain_find heap key (a # chain) =
     do { entry \<leftarrow> heap a;
          if le_key entry = key then Some (Some a) else chain_find heap key chain }"

definition table_find :: "'v LRUShard \<Rightarrow> bytes \<Rightarrow> u64 \<Rightarrow> nat option option" where
  "table_find s key h = chain_find (sh_heap s) key (sh_table s h)"

text \<open>An entry with the same key gives its place in the chain; a new key goes to the front.\<close>

fun chain_replace :: "(nat \<Rightarrow> 'v LRUEntry option) \<Rightarrow> bytes \<Rightarrow> nat \<Rightarrow> nat list \<Rightarrow> (nat \<times> nat list) option option" where
  "chain_replace heap key a [] = Some None"
| "chain_replace heap key a (b # chain) =
     do { entry \<leftarrow> heap b;
          if le_key entry = key then Some (Some (b, a # chain))
          else do { r \<leftarrow> chain_replace heap key a chain;
                    Some (map_option (\<lambda>(old, rest). (old, b # rest)) r) } }"

definition table_insert :: "nat \<Rightarrow> 'v LRUEntry \<Rightarrow> 'v LRUShard \<Rightarrow> (nat option \<times> 'v LRUShard) option" where
  "table_insert a entry s =
     do { r \<leftarrow> chain_replace (sh_heap s) (le_key entry) a (sh_table s (le_hash entry));
          Some (case r of
                  Some (old, chain) \<Rightarrow> (Some old, s\<lparr>sh_table := (sh_table s)(le_hash entry := chain)\<rparr>)
                | None \<Rightarrow> (None, s\<lparr>sh_table := (sh_table s)(le_hash entry := a # sh_table s (le_hash entry))\<rparr>)) }"

definition table_remove :: "nat \<Rightarrow> u64 \<Rightarrow> 'v LRUShard \<Rightarrow> 'v LRUShard" where
  "table_remove a h s = s\<lparr>sh_table := (sh_table s)(h := remove1 a (sh_table s h))\<rparr>"

section \<open>LRUList\<close>

definition list_remove :: "nat \<Rightarrow> 'v LRUShard \<Rightarrow> 'v LRUShard" where
  "list_remove a s = s\<lparr>sh_lru := remove1 a (sh_lru s), sh_in_use := remove1 a (sh_in_use s)\<rparr>"

section \<open>LRUShard\<close>

definition unref :: "nat \<Rightarrow> 'v LRUShard \<Rightarrow> 'v LRUShard option" where
  "unref a s =
     do { entry \<leftarrow> sh_heap s a;
          let refs = le_refs entry - 1;
          Some (if refs = 0
                then s\<lparr>sh_heap := (sh_heap s)(a := None), sh_freed := sh_freed s @ [le_value entry]\<rparr>
                else s\<lparr>sh_heap := (sh_heap s)(a \<mapsto> entry\<lparr>le_refs := refs\<rparr>)\<rparr>) }"

definition finish_erase :: "nat \<Rightarrow> bool \<Rightarrow> 'v LRUShard \<Rightarrow> 'v LRUShard option" where
  "finish_erase a in_table s =
     do { entry \<leftarrow> sh_heap s a;
          let s1 = list_remove a s;
          let s2 = s1\<lparr>sh_heap := (sh_heap s1)(a \<mapsto> entry\<lparr>le_in_cache := False\<rparr>),
                      sh_usage := sh_usage s1 - le_charge entry\<rparr>;
          let s3 = (if in_table then table_remove a (le_hash entry) s2 else s2);
          unref a s3 }"

text \<open>The loop ends because each pass takes the oldest entry off the list; the list is the fuel.\<close>

primrec evict_loop :: "nat \<Rightarrow> 'v LRUShard \<Rightarrow> 'v LRUShard option" where
  "evict_loop 0 s = Some s"
| "evict_loop (Suc n) s =
     (if sh_capacity s < sh_usage s \<and> sh_lru s \<noteq> []
      then do { s' \<leftarrow> finish_erase (hd (sh_lru s)) True s; evict_loop n s' }
      else Some s)"

definition evict_to_capacity :: "'v LRUShard \<Rightarrow> 'v LRUShard option" where
  "evict_to_capacity s = evict_loop (length (sh_lru s)) s"

definition shard_insert :: "bytes \<Rightarrow> u64 \<Rightarrow> 'v \<Rightarrow> nat \<Rightarrow> 'v LRUShard \<Rightarrow> (nat \<times> 'v LRUShard) option" where
  "shard_insert key h value charge s =
     do { let a = sh_next s;
          let entry = \<lparr>le_value = value, le_key = key, le_hash = h, le_charge = charge, le_refs = 2, le_in_cache = True\<rparr>;
          let s1 = s\<lparr>sh_heap := (sh_heap s)(a \<mapsto> entry), sh_next := a + 1, sh_usage := sh_usage s + charge,
                     sh_in_use := sh_in_use s @ [a]\<rparr>;
          (old, s2) \<leftarrow> table_insert a entry s1;
          s3 \<leftarrow> (case old of Some b \<Rightarrow> finish_erase b False s2 | None \<Rightarrow> Some s2);
          s4 \<leftarrow> evict_to_capacity s3;
          Some (a, s4) }"

definition shard_lookup :: "bytes \<Rightarrow> u64 \<Rightarrow> 'v LRUShard \<Rightarrow> (nat option \<times> 'v LRUShard) option" where
  "shard_lookup key h s =
     do { r \<leftarrow> table_find s key h;
          case r of
            None \<Rightarrow> Some (None, s)
          | Some a \<Rightarrow>
              do { entry \<leftarrow> sh_heap s a;
                   let s1 = list_remove a (s\<lparr>sh_heap := (sh_heap s)(a \<mapsto> entry\<lparr>le_refs := le_refs entry + 1\<rparr>)\<rparr>);
                   Some (Some a, s1\<lparr>sh_in_use := sh_in_use s1 @ [a]\<rparr>) } }"

definition shard_release :: "nat \<Rightarrow> 'v LRUShard \<Rightarrow> 'v LRUShard option" where
  "shard_release a s =
     do { entry \<leftarrow> sh_heap s a;
          let s1 = (if le_refs entry = 2 \<and> le_in_cache entry
                    then let s' = list_remove a s in s'\<lparr>sh_lru := sh_lru s' @ [a]\<rparr>
                    else s);
          s2 \<leftarrow> unref a s1;
          evict_to_capacity s2 }"

definition shard_erase :: "bytes \<Rightarrow> u64 \<Rightarrow> 'v LRUShard \<Rightarrow> 'v LRUShard option" where
  "shard_erase key h s =
     do { r \<leftarrow> table_find s key h;
          case r of None \<Rightarrow> Some s | Some a \<Rightarrow> finish_erase a True s }"

section \<open>ShardedLRUCache\<close>

record 'v Cache =
  ca_shards :: "nat \<Rightarrow> 'v LRUShard"
  ca_last_id :: u64

definition kShards :: nat where
  "kShards = 16"

definition new_lru_cache :: "nat \<Rightarrow> 'v Cache" where
  "new_lru_cache capacity =
     \<lparr>ca_shards = (\<lambda>_. LRUShard_ctor ((capacity + kShards - 1) div kShards)), ca_last_id = 0\<rparr>"

definition shard_for :: "u64 \<Rightarrow> nat" where
  "shard_for h = unat (drop_bit 60 h)"

definition on_shard :: "nat \<Rightarrow> ('v LRUShard \<Rightarrow> ('a \<times> 'v LRUShard) option) \<Rightarrow> 'v Cache \<Rightarrow> ('a \<times> 'v Cache) option" where
  "on_shard i f c =
     do { (r, s) \<leftarrow> f (ca_shards c i); Some (r, c\<lparr>ca_shards := (ca_shards c)(i := s)\<rparr>) }"

text \<open>
  A handle is a shard and an address in it: each shard has a heap of its own.  The code
  finds the shard again from the hash of the entry, which is the hash that chose it.
\<close>

type_synonym Handle = "nat \<times> nat"

definition cache_insert :: "bytes \<Rightarrow> 'v \<Rightarrow> nat \<Rightarrow> 'v Cache \<Rightarrow> (Handle \<times> 'v Cache) option" where
  "cache_insert key value charge c =
     (let h = hash64 key; i = shard_for h
      in do { (a, c') \<leftarrow> on_shard i (shard_insert key h value charge) c; Some ((i, a), c') })"

definition cache_lookup :: "bytes \<Rightarrow> 'v Cache \<Rightarrow> (Handle option \<times> 'v Cache) option" where
  "cache_lookup key c =
     (let h = hash64 key; i = shard_for h
      in do { (r, c') \<leftarrow> on_shard i (shard_lookup key h) c; Some (map_option (Pair i) r, c') })"

definition cache_release :: "Handle \<Rightarrow> 'v Cache \<Rightarrow> 'v Cache option" where
  "cache_release handle c =
     (case handle of (i, a) \<Rightarrow>
        map_option snd (on_shard i (\<lambda>s. map_option (Pair ()) (shard_release a s)) c))"

definition cache_value :: "Handle \<Rightarrow> 'v Cache \<Rightarrow> 'v option" where
  "cache_value handle c = (case handle of (i, a) \<Rightarrow> map_option le_value (sh_heap (ca_shards c i) a))"

definition cache_erase :: "bytes \<Rightarrow> 'v Cache \<Rightarrow> 'v Cache option" where
  "cache_erase key c =
     (let h = hash64 key in
      map_option snd (on_shard (shard_for h) (\<lambda>s. map_option (Pair ()) (shard_erase key h s)) c))"

definition new_id :: "'v Cache \<Rightarrow> u64 \<times> 'v Cache" where
  "new_id c = (let i = ca_last_id c + 1 in (i, c\<lparr>ca_last_id := i\<rparr>))"

definition total_charge :: "'v Cache \<Rightarrow> nat" where
  "total_charge c = sum_list (map (\<lambda>i. sh_usage (ca_shards c i)) [0..<kShards])"

end
