(* ===== verification/Cache_Props.thy ===== *)
theory Cache_Props
  imports Cache
begin

text \<open>
  The invariant of a cache shard, over the handles its users hold, and what each
  operation does to the map from keys to values the shard stands for.
\<close>

section \<open>The invariant\<close>

text \<open>
  \<open>held a\<close> counts the handles users hold on the entry at \<open>a\<close>.  \<open>X\<close> is the set of entries
  that still count as cached and have left the table already, which happens while an
  insertion replaces one.
\<close>

definition cached :: "'v LRUShard \<Rightarrow> nat set" where
  "cached s = {a. \<exists>e. sh_heap s a = Some e \<and> le_in_cache e}"

definition refs_inv :: "'v LRUShard \<Rightarrow> (nat \<Rightarrow> nat) \<Rightarrow> bool" where
  "refs_inv s held \<longleftrightarrow>
     (\<forall>a. sh_heap s a = None \<longrightarrow> held a = 0) \<and>
     (\<forall>a e. sh_heap s a = Some e \<longrightarrow>
        a < sh_next s \<and> 0 < le_refs e \<and> le_refs e = held a + (if le_in_cache e then 1 else 0))"

definition table_inv :: "'v LRUShard \<Rightarrow> nat set \<Rightarrow> bool" where
  "table_inv s X \<longleftrightarrow>
     (\<forall>h. distinct (sh_table s h)) \<and>
     (\<forall>h a. a \<in> set (sh_table s h) \<longleftrightarrow> (a \<notin> X \<and> (\<exists>e. sh_heap s a = Some e \<and> le_in_cache e \<and> le_hash e = h))) \<and>
     (\<forall>h. inj_on (\<lambda>a. map_option le_key (sh_heap s a)) (set (sh_table s h)))"

definition lists_inv :: "'v LRUShard \<Rightarrow> (nat \<Rightarrow> nat) \<Rightarrow> bool" where
  "lists_inv s held \<longleftrightarrow>
     distinct (sh_lru s @ sh_in_use s) \<and>
     set (sh_lru s) = {a \<in> cached s. held a = 0} \<and> set (sh_in_use s) = {a \<in> cached s. 0 < held a}"

definition charge_at :: "'v LRUShard \<Rightarrow> nat \<Rightarrow> nat" where
  "charge_at s a = (case sh_heap s a of None \<Rightarrow> 0 | Some e \<Rightarrow> le_charge e)"

definition usage_inv :: "'v LRUShard \<Rightarrow> bool" where
  "usage_inv s \<longleftrightarrow> sh_usage s = sum_list (map (charge_at s) (sh_lru s @ sh_in_use s))"

definition sh_inv :: "'v LRUShard \<Rightarrow> (nat \<Rightarrow> nat) \<Rightarrow> nat set \<Rightarrow> bool" where
  "sh_inv s held X \<longleftrightarrow> refs_inv s held \<and> table_inv s X \<and> lists_inv s held \<and> usage_inv s"

lemma sh_inv_ctor: "sh_inv (LRUShard_ctor n) (\<lambda>_. 0) {}"
  by (simp add: sh_inv_def refs_inv_def table_inv_def lists_inv_def usage_inv_def cached_def LRUShard_ctor_def)

lemma refs_invI:
  assumes "\<And>a. sh_heap s a = None \<Longrightarrow> held a = 0"
    and "\<And>a e. sh_heap s a = Some e \<Longrightarrow> a < sh_next s"
    and "\<And>a e. sh_heap s a = Some e \<Longrightarrow> 0 < le_refs e"
    and "\<And>a e. sh_heap s a = Some e \<Longrightarrow> le_refs e = held a + (if le_in_cache e then 1 else 0)"
  shows "refs_inv s held"
  unfolding refs_inv_def using assms by blast

lemma refs_invD:
  assumes "refs_inv s held"
  shows "sh_heap s a = None \<Longrightarrow> held a = 0" "sh_heap s a = Some e \<Longrightarrow> a < sh_next s"
    "sh_heap s a = Some e \<Longrightarrow> 0 < le_refs e"
    "sh_heap s a = Some e \<Longrightarrow> le_refs e = held a + (if le_in_cache e then 1 else 0)"
  using assms unfolding refs_inv_def by blast+

lemma table_inv_mem:
  "table_inv s X \<Longrightarrow> a \<in> set (sh_table s h) \<longleftrightarrow> (a \<notin> X \<and> (\<exists>e. sh_heap s a = Some e \<and> le_in_cache e \<and> le_hash e = h))"
  by (simp add: table_inv_def)

section \<open>Erasing\<close>

lemma finish_erase_eq:
  assumes "sh_inv s held X" "sh_heap s a = Some e" "le_in_cache e"
  shows "finish_erase a t s = Some (s\<lparr>
      sh_heap := (sh_heap s)(a := if held a = 0 then None else Some (e\<lparr>le_in_cache := False, le_refs := held a\<rparr>)),
      sh_usage := sh_usage s - le_charge e, sh_lru := remove1 a (sh_lru s), sh_in_use := remove1 a (sh_in_use s),
      sh_table := (if t then (sh_table s)(le_hash e := remove1 a (sh_table s (le_hash e))) else sh_table s),
      sh_freed := (if held a = 0 then sh_freed s @ [le_value e] else sh_freed s)\<rparr>)"
proof -
  have "le_refs e = held a + 1" using assms by (auto simp: sh_inv_def refs_inv_def)
  then show ?thesis using assms(2)
    by (simp add: finish_erase_def list_remove_def table_remove_def unref_def Let_def)
qed

lemma finish_erase_inv:
  assumes inv: "sh_inv s held X" and a: "sh_heap s a = Some e" "le_in_cache e" and t: "t \<longleftrightarrow> a \<notin> X"
    and s': "finish_erase a t s = Some s'"
  shows "sh_inv s' held (X - {a})"
proof -
  let ?heap = "(sh_heap s)(a := if held a = 0 then None else Some (e\<lparr>le_in_cache := False, le_refs := held a\<rparr>))"
  have S: "sh_heap s' = ?heap" "sh_next s' = sh_next s" "sh_usage s' = sh_usage s - le_charge e"
    "sh_lru s' = remove1 a (sh_lru s)" "sh_in_use s' = remove1 a (sh_in_use s)"
    "sh_table s' = (if t then (sh_table s)(le_hash e := remove1 a (sh_table s (le_hash e))) else sh_table s)"
    using s' unfolding finish_erase_eq [OF inv a] by auto
  have I: "refs_inv s held" "table_inv s X" "lists_inv s held" "usage_inv s" using inv by (auto simp: sh_inv_def)
  have "refs_inv s' held"
    by (rule refs_invI) (use refs_invD [OF I(1)] a in \<open>auto simp: S split: if_splits\<close>)
  moreover have cach: "cached s' = cached s - {a}" by (auto simp: cached_def S)
  moreover have "lists_inv s' held"
    using I(3) unfolding lists_inv_def cach S by (auto simp: distinct_append set_remove1_eq)
  moreover have "table_inv s' (X - {a})"
  proof -
    have sub: "set (sh_table s' h) = set (sh_table s h) - {a}" for h
      using t table_inv_mem [OF I(2), of a h] a I(2) by (auto simp: S table_inv_def set_remove1_eq)
    have "distinct (sh_table s' h)" for h using I(2) by (simp add: S table_inv_def)
    moreover have "inj_on (\<lambda>b. map_option le_key (sh_heap s' b)) (set (sh_table s' h))" for h
    proof (rule inj_onI)
      fix x y assume "x \<in> set (sh_table s' h)" "y \<in> set (sh_table s' h)"
        and eq: "map_option le_key (sh_heap s' x) = map_option le_key (sh_heap s' y)"
      then have xy: "x \<in> set (sh_table s h)" "y \<in> set (sh_table s h)" "x \<noteq> a" "y \<noteq> a" by (auto simp: sub)
      moreover have "map_option le_key (sh_heap s x) = map_option le_key (sh_heap s y)" using eq xy(3,4) by (simp add: S)
      moreover have "inj_on (\<lambda>b. map_option le_key (sh_heap s b)) (set (sh_table s h))" using I(2) by (simp add: table_inv_def)
      ultimately show "x = y" by (simp add: inj_on_def)
    qed
    moreover have "b \<in> set (sh_table s' h) \<longleftrightarrow> (b \<notin> X - {a} \<and> (\<exists>e. sh_heap s' b = Some e \<and> le_in_cache e \<and> le_hash e = h))" for b h
      unfolding sub using table_inv_mem [OF I(2), of b h] by (cases "b = a") (auto simp: S)
    ultimately show ?thesis by (simp add: table_inv_def)
  qed
  moreover have "usage_inv s'"
  proof -
    have "a \<in> set (sh_lru s @ sh_in_use s)" using I(3) a by (auto simp: lists_inv_def cached_def)
    then have "sum_list (map (charge_at s) (sh_lru s @ sh_in_use s)) =
        charge_at s a + sum_list (map (charge_at s) (remove1 a (sh_lru s @ sh_in_use s)))"
      by (rule sum_list_map_remove1)
    moreover have "remove1 a (sh_lru s @ sh_in_use s) = sh_lru s' @ sh_in_use s'"
      using I(3) by (auto simp: S remove1_append lists_inv_def remove1_idem)
    moreover have "map (charge_at s) (sh_lru s' @ sh_in_use s') = map (charge_at s') (sh_lru s' @ sh_in_use s')"
    proof (rule map_cong [OF refl])
      fix b assume "b \<in> set (sh_lru s' @ sh_in_use s')"
      then have "b \<noteq> a" using I(3) by (auto simp: S lists_inv_def set_remove1_eq)
      then show "charge_at s b = charge_at s' b" by (simp add: charge_at_def S)
    qed
    moreover have "charge_at s a = le_charge e" using a by (simp add: charge_at_def)
    ultimately show ?thesis using I(4) unfolding usage_inv_def S(3) by (simp only: diff_add_inverse)
  qed
  ultimately show ?thesis by (simp add: sh_inv_def)
qed

section \<open>What the shard holds\<close>

definition contents :: "'v LRUShard \<Rightarrow> u64 \<Rightarrow> bytes \<Rightarrow> 'v option" where
  "contents s h key =
     (case table_find s key h of Some (Some a) \<Rightarrow> map_option le_value (sh_heap s a) | _ \<Rightarrow> None)"

lemma chain_find_Some:
  assumes "\<forall>a \<in> set chain. heap a \<noteq> None"
  shows "\<exists>r. chain_find heap key chain = Some r \<and>
    (case r of None \<Rightarrow> \<forall>a \<in> set chain. map_option le_key (heap a) \<noteq> Some key
     | Some a \<Rightarrow> a \<in> set chain \<and> map_option le_key (heap a) = Some key)"
  using assms
proof (induction chain)
  case (Cons b chain)
  then obtain e where e: "heap b = Some e" by auto
  obtain r where r: "chain_find heap key chain = Some r"
    "case r of None \<Rightarrow> \<forall>a \<in> set chain. map_option le_key (heap a) \<noteq> Some key
     | Some a \<Rightarrow> a \<in> set chain \<and> map_option le_key (heap a) = Some key"
    using Cons by auto
  show ?case using e r by (auto split: option.splits)
qed simp

lemma table_find_inv:
  assumes "table_inv s X"
  obtains r where "table_find s key h = Some r"
    "r = None \<Longrightarrow> \<forall>a e. a \<notin> X \<longrightarrow> sh_heap s a = Some e \<longrightarrow> le_in_cache e \<longrightarrow> le_hash e = h \<longrightarrow> le_key e \<noteq> key"
    "\<And>a. r = Some a \<Longrightarrow> \<exists>e. sh_heap s a = Some e \<and> le_in_cache e \<and> le_hash e = h \<and> le_key e = key \<and> a \<notin> X"
proof -
  have "\<forall>a \<in> set (sh_table s h). sh_heap s a \<noteq> None" using table_inv_mem [OF assms] by auto
  from chain_find_Some [OF this, of key] obtain r where r: "table_find s key h = Some r"
    "case r of None \<Rightarrow> \<forall>a \<in> set (sh_table s h). map_option le_key (sh_heap s a) \<noteq> Some key
     | Some a \<Rightarrow> a \<in> set (sh_table s h) \<and> map_option le_key (sh_heap s a) = Some key"
    unfolding table_find_def by blast
  show thesis by (rule that [OF r(1)]) (use r(2) table_inv_mem [OF assms] in auto)
qed

text \<open>Two cached entries with the same hash and key are one.\<close>

lemma table_inv_unique:
  assumes "table_inv s {}" "sh_heap s a = Some e" "sh_heap s b = Some f" "le_in_cache e" "le_in_cache f"
    "le_hash e = le_hash f" "le_key e = le_key f"
  shows "a = b"
proof -
  have "a \<in> set (sh_table s (le_hash f))" "b \<in> set (sh_table s (le_hash f))" using assms table_inv_mem [OF assms(1)] by auto
  moreover have "inj_on (\<lambda>a. map_option le_key (sh_heap s a)) (set (sh_table s (le_hash f)))"
    using assms(1) by (simp add: table_inv_def)
  moreover have "map_option le_key (sh_heap s a) = map_option le_key (sh_heap s b)" using assms by simp
  ultimately show ?thesis by (simp add: inj_on_def)
qed

lemma contents_iff:
  assumes "table_inv s {}"
  shows "contents s h key = Some v \<longleftrightarrow>
    (\<exists>a e. sh_heap s a = Some e \<and> le_in_cache e \<and> le_hash e = h \<and> le_key e = key \<and> le_value e = v)"
proof -
  obtain r where r: "table_find s key h = Some r"
    "r = None \<Longrightarrow> \<forall>a e. sh_heap s a = Some e \<longrightarrow> le_in_cache e \<longrightarrow> le_hash e = h \<longrightarrow> le_key e \<noteq> key"
    "\<And>a. r = Some a \<Longrightarrow> \<exists>e. sh_heap s a = Some e \<and> le_in_cache e \<and> le_hash e = h \<and> le_key e = key"
    using table_find_inv [OF assms, of key h] by auto
  show ?thesis
  proof (cases r)
    case None
    then show ?thesis using r(1,2) by (auto simp: contents_def)
  next
    case (Some a)
    then obtain e where e: "sh_heap s a = Some e" "le_in_cache e" "le_hash e = h" "le_key e = key" using r(3) by blast
    have "b = a" if "sh_heap s b = Some f" "le_in_cache f" "le_hash f = h" "le_key f = key" for b f
      using table_inv_unique [OF assms that(1) e(1) that(2) e(2)] that e by simp
    then have "f = e" if "sh_heap s b = Some f" "le_in_cache f" "le_hash f = h" "le_key f = key" for b f
      using that e(1) by (metis option.inject)
    then have "(\<exists>b f. sh_heap s b = Some f \<and> le_in_cache f \<and> le_hash f = h \<and> le_key f = key \<and> le_value f = v) \<longleftrightarrow> le_value e = v"
      using e by blast
    moreover have "contents s h key = Some (le_value e)" using r(1) Some e(1) by (simp add: contents_def)
    ultimately show ?thesis by simp
  qed
qed

text \<open>A shard whose cached entries are some of those of another holds no more than it.\<close>

definition shrunk :: "'v LRUShard \<Rightarrow> 'v LRUShard \<Rightarrow> (nat \<Rightarrow> nat) \<Rightarrow> bool" where
  "shrunk s s' held \<longleftrightarrow> (\<forall>a \<in> cached s'. sh_heap s' a = sh_heap s a) \<and> (\<forall>a. 0 < held a \<longrightarrow> sh_heap s' a = sh_heap s a) \<and>
     sh_capacity s' = sh_capacity s \<and> sh_next s' = sh_next s"

lemma shrunk_trans:
  assumes "shrunk s s' held" "shrunk s' s'' held"
  shows "shrunk s s'' held"
proof -
  have "sh_heap s'' a = sh_heap s a" if "a \<in> cached s''" for a
  proof -
    have eq: "sh_heap s'' a = sh_heap s' a" using that assms(2) by (simp add: shrunk_def)
    then have "a \<in> cached s'" using that by (simp add: cached_def)
    then show ?thesis using eq assms(1) by (simp add: shrunk_def)
  qed
  then show ?thesis using assms by (simp add: shrunk_def)
qed

lemma shrunk_contents:
  assumes "table_inv s {}" "table_inv s' {}" "shrunk s s' held" "contents s' h key = Some v"
  shows "contents s h key = Some v"
proof -
  obtain a e where e: "sh_heap s' a = Some e" "le_in_cache e" "le_hash e = h" "le_key e = key" "le_value e = v"
    using assms(4) unfolding contents_iff [OF assms(2)] by blast
  then have "sh_heap s a = Some e" using assms(3) unfolding shrunk_def cached_def by (metis (mono_tags) mem_Collect_eq)
  then show ?thesis unfolding contents_iff [OF assms(1)] using e by blast
qed

section \<open>Eviction\<close>

lemma evict_loop_inv:
  assumes "sh_inv s held {}" "length (sh_lru s) \<le> n"
  shows "\<exists>s'. evict_loop n s = Some s' \<and> sh_inv s' held {} \<and> shrunk s s' held \<and>
    (sh_usage s' \<le> sh_capacity s' \<or> sh_lru s' = [])"
  using assms
proof (induction n arbitrary: s)
  case 0
  then show ?case by (simp add: shrunk_def)
next
  case (Suc n)
  show ?case
  proof (cases "sh_capacity s < sh_usage s \<and> sh_lru s \<noteq> []")
    case True
    let ?a = "hd (sh_lru s)"
    have a: "?a \<in> set (sh_lru s)" using True by simp
    then obtain e where e: "sh_heap s ?a = Some e" "le_in_cache e" "held ?a = 0"
      using Suc.prems(1) by (auto simp: sh_inv_def lists_inv_def cached_def)
    obtain s1 where s1: "finish_erase ?a True s = Some s1" using finish_erase_eq [OF Suc.prems(1) e(1,2)] by blast
    have inv1: "sh_inv s1 held {}" using finish_erase_inv [OF Suc.prems(1) e(1,2) _ s1] by simp
    have eq: "sh_lru s1 = remove1 ?a (sh_lru s)" "shrunk s s1 held"
      using s1 e unfolding finish_erase_eq [OF Suc.prems(1) e(1,2)] by (auto simp: shrunk_def cached_def split: if_splits)
    have "length (sh_lru s1) \<le> n" using a Suc.prems(2) by (simp add: eq(1) length_remove1)
    from Suc.IH [OF inv1 this] obtain s' where "evict_loop n s1 = Some s'" "sh_inv s' held {}" "shrunk s1 s' held"
      "sh_usage s' \<le> sh_capacity s' \<or> sh_lru s' = []" by blast
    then show ?thesis using True s1 shrunk_trans [OF eq(2)] by simp
  next
    case False
    then show ?thesis using Suc.prems(1) by (auto simp: shrunk_def)
  qed
qed

lemma evict_inv:
  assumes "sh_inv s held {}"
  obtains s' where "evict_to_capacity s = Some s'" "sh_inv s' held {}" "shrunk s s' held"
    "sh_usage s' \<le> sh_capacity s' \<or> sh_lru s' = []"
  using evict_loop_inv [OF assms order_refl] unfolding evict_to_capacity_def by blast

section \<open>Operations\<close>

text \<open>Everything of an entry but its reference count.\<close>

definition sig :: "'v LRUEntry \<Rightarrow> 'v LRUEntry" where
  "sig e = e\<lparr>le_refs := 0\<rparr>"

lemma sig_eq:
  "sig e = sig f \<longleftrightarrow> le_value e = le_value f \<and> le_key e = le_key f \<and> le_hash e = le_hash f \<and>
     le_charge e = le_charge f \<and> le_in_cache e = le_in_cache f"
  by (cases e; cases f) (auto simp: sig_def)

lemma same_sig:
  assumes "\<And>a. map_option sig (sh_heap s' a) = map_option sig (sh_heap s a)" "sh_table s' = sh_table s"
  shows "table_inv s' X = table_inv s X" "cached s' = cached s" "charge_at s' = charge_at s"
proof -
  have eq: "map_option g (sh_heap s' a) = map_option g (sh_heap s a)" if "\<And>e. g (sig e) = g e" for a and g :: "'a LRUEntry \<Rightarrow> 'c"
    using arg_cong [OF assms(1) [of a], of "map_option g"] that by (simp add: option.map_comp o_def)
  have key: "map_option le_key (sh_heap s' a) = map_option le_key (sh_heap s a)" for a by (rule eq) (simp add: sig_def)
  have ex: "(\<exists>e. sh_heap s' a = Some e \<and> P e) \<longleftrightarrow> (\<exists>e. sh_heap s a = Some e \<and> P e)" if "\<And>e. P (sig e) = P e" for a P
    using eq [of P, OF that, of a] by (cases "sh_heap s' a"; cases "sh_heap s a") auto
  have mem: "(\<exists>e. sh_heap s' a = Some e \<and> le_in_cache e \<and> le_hash e = h) \<longleftrightarrow>
      (\<exists>e. sh_heap s a = Some e \<and> le_in_cache e \<and> le_hash e = h)" for a h
    by (rule ex) (simp add: sig_def)
  show "table_inv s' X = table_inv s X" by (simp add: table_inv_def key mem assms(2))
  show "cached s' = cached s" unfolding cached_def by (subst ex) (simp_all add: sig_def)
  show "charge_at s' = charge_at s"
  proof
    fix a show "charge_at s' a = charge_at s a"
      using eq [of le_charge a] by (cases "sh_heap s' a"; cases "sh_heap s a") (auto simp: charge_at_def sig_def)
  qed
qed

lemma same_sig_contents:
  assumes "\<And>a. map_option sig (sh_heap s' a) = map_option sig (sh_heap s a)" "sh_table s' = sh_table s"
  shows "contents s' h key = contents s h key"
proof -
  have "chain_find (sh_heap s') key chain = chain_find (sh_heap s) key chain" for chain
  proof (induction chain)
    case (Cons a chain)
    then show ?case using assms(1) [of a] by (cases "sh_heap s' a"; cases "sh_heap s a") (auto simp: sig_eq)
  qed simp
  moreover have "map_option le_value (sh_heap s' a) = map_option le_value (sh_heap s a)" for a
    using assms(1) [of a] by (cases "sh_heap s' a"; cases "sh_heap s a") (auto simp: sig_eq)
  ultimately show ?thesis by (simp add: contents_def table_find_def assms(2) split: option.splits)
qed

lemma shard_lookup_inv:
  assumes inv: "sh_inv s held {}"
  obtains (miss) "shard_lookup key h s = Some (None, s)" "contents s h key = None"
  | (hit) a v s' where "shard_lookup key h s = Some (Some a, s')" "contents s h key = Some v"
      "map_option le_value (sh_heap s' a) = Some v" "sh_inv s' (held(a := held a + 1)) {}"
      "\<And>h key. contents s' h key = contents s h key"
      "\<And>b. map_option le_value (sh_heap s' b) = map_option le_value (sh_heap s b)"
proof -
  have I: "refs_inv s held" "table_inv s {}" "lists_inv s held" "usage_inv s" using inv by (auto simp: sh_inv_def)
  obtain r where r: "table_find s key h = Some r"
    "\<And>a. r = Some a \<Longrightarrow> \<exists>e. sh_heap s a = Some e \<and> le_in_cache e \<and> le_hash e = h \<and> le_key e = key"
    by (rule table_find_inv [OF I(2), of key h]) blast
  show thesis
  proof (cases r)
    case None
    then show ?thesis using r(1) by (intro miss) (simp_all add: shard_lookup_def contents_def)
  next
    case (Some a)
    then obtain e where e: "sh_heap s a = Some e" "le_in_cache e" "le_hash e = h" "le_key e = key" using r(2) by blast
    define s' where "s' = s\<lparr>sh_heap := (sh_heap s)(a \<mapsto> e\<lparr>le_refs := le_refs e + 1\<rparr>), sh_lru := remove1 a (sh_lru s),
        sh_in_use := remove1 a (sh_in_use s) @ [a]\<rparr>"
    have lk: "shard_lookup key h s = Some (Some a, s')"
      using r(1) Some e(1) by (simp add: shard_lookup_def list_remove_def Let_def s'_def)
    have sg: "map_option sig (sh_heap s' b) = map_option sig (sh_heap s b)" for b using e(1) by (simp add: s'_def sig_def)
    have tb: "sh_table s' = sh_table s" by (simp add: s'_def)
    note same = same_sig [OF sg tb]
    have "refs_inv s' (held(a := held a + 1))"
      by (rule refs_invI) (use refs_invD [OF I(1)] e in \<open>auto simp: s'_def split: if_splits\<close>)
    moreover have "lists_inv s' (held(a := held a + 1))"
      using I(3) e unfolding lists_inv_def same by (auto simp: s'_def cached_def)
    moreover have "usage_inv s'"
    proof -
      have "a \<in> set (sh_lru s @ sh_in_use s)" using I(3) e by (auto simp: lists_inv_def cached_def)
      then have "sum_list (map (charge_at s) (sh_lru s @ sh_in_use s)) =
          charge_at s a + sum_list (map (charge_at s) (remove1 a (sh_lru s @ sh_in_use s)))"
        by (rule sum_list_map_remove1)
      moreover have "remove1 a (sh_lru s @ sh_in_use s) = remove1 a (sh_lru s) @ remove1 a (sh_in_use s)"
        using I(3) by (auto simp: remove1_append lists_inv_def remove1_idem)
      ultimately show ?thesis using I(4) unfolding usage_inv_def same by (simp add: s'_def)
    qed
    ultimately have "sh_inv s' (held(a := held a + 1)) {}" using I(2) by (simp add: sh_inv_def same)
    moreover have "map_option le_value (sh_heap s' b) = map_option le_value (sh_heap s b)" for b
      using e(1) by (simp add: s'_def)
    moreover have "contents s h key = Some (le_value e)" using r(1) Some e(1) by (simp add: contents_def)
    ultimately show ?thesis using same_sig_contents [OF sg tb] e(1) by (intro hit [OF lk]) simp_all
  qed
qed

lemma option_eqI: "(\<And>v. x = Some v \<longleftrightarrow> y = Some v) \<Longrightarrow> x = y"
  by (cases x; cases y) auto

lemma shard_erase_inv:
  assumes inv: "sh_inv s held {}"
  shows "\<exists>s'. shard_erase key h s = Some s' \<and> sh_inv s' held {} \<and>
    (\<forall>h' key'. contents s' h' key' = (if h' = h \<and> key' = key then None else contents s h' key')) \<and>
    (\<forall>a. 0 < held a \<longrightarrow> map_option le_value (sh_heap s' a) = map_option le_value (sh_heap s a))"
proof -
  have I: "table_inv s {}" using inv by (auto simp: sh_inv_def)
  obtain r where r: "table_find s key h = Some r"
    "\<And>a. r = Some a \<Longrightarrow> \<exists>e. sh_heap s a = Some e \<and> le_in_cache e \<and> le_hash e = h \<and> le_key e = key"
    by (rule table_find_inv [OF I, of key h]) blast
  show ?thesis
  proof (cases r)
    case None
    then have "contents s h key = None" using r(1) by (simp add: contents_def)
    then show ?thesis using None r(1) inv by (simp add: shard_erase_def)
  next
    case (Some a)
    then obtain e where e: "sh_heap s a = Some e" "le_in_cache e" "le_hash e = h" "le_key e = key" using r(2) by blast
    obtain s' where s': "finish_erase a True s = Some s'" using finish_erase_eq [OF inv e(1,2)] by blast
    have inv': "sh_inv s' held {}" using finish_erase_inv [OF inv e(1,2) _ s'] by simp
    then have I': "table_inv s' {}" by (simp add: sh_inv_def)
    have heap: "sh_heap s' = (sh_heap s)(a := if held a = 0 then None else Some (e\<lparr>le_in_cache := False, le_refs := held a\<rparr>))"
      using s' unfolding finish_erase_eq [OF inv e(1,2)] by auto
    have val: "contents s' h' key' = Some v \<longleftrightarrow> (h', key') \<noteq> (h, key) \<and> contents s h' key' = Some v" for h' key' v
    proof
      assume "contents s' h' key' = Some v"
      then obtain b f where f: "sh_heap s' b = Some f" "le_in_cache f" "le_hash f = h'" "le_key f = key'" "le_value f = v"
        unfolding contents_iff [OF I'] by blast
      then have b: "b \<noteq> a" "sh_heap s b = Some f" by (auto simp: heap split: if_splits)
      then have "(h', key') \<noteq> (h, key)" using table_inv_unique [OF I b(2) e(1) f(2) e(2)] f e by auto
      then show "(h', key') \<noteq> (h, key) \<and> contents s h' key' = Some v" unfolding contents_iff [OF I] using b f by blast
    next
      assume r: "(h', key') \<noteq> (h, key) \<and> contents s h' key' = Some v"
      then obtain b f where f: "sh_heap s b = Some f" "le_in_cache f" "le_hash f = h'" "le_key f = key'" "le_value f = v"
        unfolding contents_iff [OF I] by blast
      then have "b \<noteq> a" using r e by auto
      then have "sh_heap s' b = Some f" using f by (simp add: heap)
      then show "contents s' h' key' = Some v" unfolding contents_iff [OF I'] using f by blast
    qed
    have "contents s' h' key' = (if h' = h \<and> key' = key then None else contents s h' key')" for h' key'
      by (rule option_eqI) (simp add: val)
    moreover have "0 < held b \<longrightarrow> map_option le_value (sh_heap s' b) = map_option le_value (sh_heap s b)" for b
      using e(1) by (simp add: heap)
    ultimately show ?thesis using r(1) Some s' inv' by (simp add: shard_erase_def)
  qed
qed

text \<open>Giving a handle back, before anything is evicted.\<close>

lemma release_step:
  assumes inv: "sh_inv s held {}" and e: "sh_heap s a = Some e" and a: "0 < held a"
    and refs: "le_refs e = held a + (if le_in_cache e then 1 else 0)"
    and s2: "s2 = s\<lparr>
      sh_heap := (sh_heap s)(a := if le_refs e = 1 then None else Some (e\<lparr>le_refs := le_refs e - 1\<rparr>)),
      sh_lru := (if le_refs e = 2 \<and> le_in_cache e then remove1 a (sh_lru s) @ [a] else sh_lru s),
      sh_in_use := (if le_refs e = 2 \<and> le_in_cache e then remove1 a (sh_in_use s) else sh_in_use s),
      sh_freed := (if le_refs e = 1 then sh_freed s @ [le_value e] else sh_freed s)\<rparr>"
  shows "sh_inv s2 (held(a := held a - 1)) {}" "contents s2 h key = contents s h key"
proof -
  have I: "refs_inv s held" "table_inv s {}" "lists_inv s held" "usage_inv s" using inv by (auto simp: sh_inv_def)
  let ?held = "held(a := held a - 1)"
  have ri: "refs_inv s2 ?held"
    by (rule refs_invI) (use refs_invD [OF I(1)] e a refs in \<open>auto simp: s2 split: if_splits\<close>)
  have "sh_inv s2 ?held {} \<and> contents s2 h key = contents s h key"
  proof (cases "le_refs e = 1")
    case True
    then have out: "\<not> le_in_cache e" using refs a by auto
    then have c: "cached s2 = cached s" "a \<notin> cached s" using e True by (auto simp: cached_def s2 split: if_splits)
    have same: "sh_heap s2 b = sh_heap s b" if "b \<noteq> a" for b using that by (simp add: s2)
    have tab: "sh_table s2 = sh_table s" "sh_lru s2 = sh_lru s" "sh_in_use s2 = sh_in_use s" "sh_usage s2 = sh_usage s"
      using True by (simp_all add: s2)
    have mem: "a \<notin> set (sh_table s h)" for h using table_inv_mem [OF I(2), of a h] e out by auto
    have li: "lists_inv s2 ?held" using I(3) c by (auto simp: lists_inv_def tab)
    have ch: "charge_at s2 b = charge_at s b" if "b \<in> set (sh_lru s @ sh_in_use s)" for b
    proof -
      have "b \<noteq> a" using that I(3) c(2) by (auto simp: lists_inv_def)
      then show ?thesis by (simp add: charge_at_def same)
    qed
    have "map (charge_at s2) (sh_lru s @ sh_in_use s) = map (charge_at s) (sh_lru s @ sh_in_use s)"
      using ch by (simp only: map_eq_conv) blast
    then have ui: "usage_inv s2" using I(4) unfolding usage_inv_def tab by (simp only:)
    have ex: "(\<exists>f. sh_heap s2 b = Some f \<and> le_in_cache f \<and> Q f) \<longleftrightarrow> (\<exists>f. sh_heap s b = Some f \<and> le_in_cache f \<and> Q f)" for b Q
      using e out True same [of b] by (cases "b = a") (auto simp: s2)
    have "inj_on (\<lambda>b. map_option le_key (sh_heap s2 b)) (set (sh_table s h)) \<longleftrightarrow>
        inj_on (\<lambda>b. map_option le_key (sh_heap s b)) (set (sh_table s h))" for h
    proof (rule inj_on_cong)
      fix b assume "b \<in> set (sh_table s h)"
      then have "b \<noteq> a" using mem [of h] by auto
      then show "map_option le_key (sh_heap s2 b) = map_option le_key (sh_heap s b)" by (simp add: same)
    qed
    then have ti: "table_inv s2 {}" using I(2) unfolding table_inv_def tab ex by simp
    have "contents s2 h key = contents s h key"
      by (rule option_eqI) (unfold contents_iff [OF I(2)] contents_iff [OF ti] ex, rule refl)
    then show ?thesis using ri li ui ti by (simp add: sh_inv_def)
  next
    case False
    have sg: "map_option sig (sh_heap s2 b) = map_option sig (sh_heap s b)" for b using e False by (simp add: s2 sig_def)
    have tb: "sh_table s2 = sh_table s" by (simp add: s2)
    note same = same_sig [OF sg tb]
    have c: "a \<in> cached s \<longleftrightarrow> le_in_cache e" using e by (auto simp: cached_def)
    have li: "lists_inv s2 ?held"
      using I(3) c a refs unfolding lists_inv_def same by (auto simp: s2)
    have ui: "usage_inv s2"
    proof (cases "le_refs e = 2 \<and> le_in_cache e")
      case True
      then have "a \<in> set (sh_in_use s)" "a \<notin> set (sh_lru s)" using I(3) c refs by (auto simp: lists_inv_def)
      then show ?thesis using I(4) True sum_list_map_remove1 [of a "sh_in_use s" "charge_at s"]
        unfolding usage_inv_def same by (simp add: s2 remove1_idem)
    next
      case False
      then show ?thesis using I(4) unfolding usage_inv_def same by (auto simp: s2)
    qed
    show ?thesis using ri li ui I(2) same_sig_contents [OF sg tb] by (simp add: sh_inv_def same)
  qed
  then show "sh_inv s2 ?held {}" "contents s2 h key = contents s h key" by simp_all
qed

lemma shard_release_inv:
  assumes inv: "sh_inv s held {}" and a: "0 < held a"
  shows "\<exists>s'. shard_release a s = Some s' \<and> sh_inv s' (held(a := held a - 1)) {} \<and>
    (\<forall>h key v. contents s' h key = Some v \<longrightarrow> contents s h key = Some v) \<and>
    (\<forall>b. 0 < (held(a := held a - 1)) b \<longrightarrow> map_option le_value (sh_heap s' b) = map_option le_value (sh_heap s b)) \<and>
    (sh_usage s' \<le> sh_capacity s' \<or> sh_lru s' = [])"
proof -
  have I: "refs_inv s held" "table_inv s {}" "lists_inv s held" "usage_inv s" using inv by (auto simp: sh_inv_def)
  let ?held = "held(a := held a - 1)"
  obtain e where e: "sh_heap s a = Some e" using a refs_invD(1) [OF I(1), of a] by (cases "sh_heap s a") auto
  have refs: "le_refs e = held a + (if le_in_cache e then 1 else 0)" using refs_invD(4) [OF I(1) e] .
  define s2 where "s2 = s\<lparr>
      sh_heap := (sh_heap s)(a := if le_refs e = 1 then None else Some (e\<lparr>le_refs := le_refs e - 1\<rparr>)),
      sh_lru := (if le_refs e = 2 \<and> le_in_cache e then remove1 a (sh_lru s) @ [a] else sh_lru s),
      sh_in_use := (if le_refs e = 2 \<and> le_in_cache e then remove1 a (sh_in_use s) else sh_in_use s),
      sh_freed := (if le_refs e = 1 then sh_freed s @ [le_value e] else sh_freed s)\<rparr>"
  have rel: "shard_release a s = evict_to_capacity s2"
    using e a refs by (cases s) (auto simp: shard_release_def list_remove_def unref_def Let_def s2_def)
  note step = release_step [OF inv e a refs s2_def]
  obtain s' where s': "evict_to_capacity s2 = Some s'" "sh_inv s' ?held {}" "shrunk s2 s' ?held"
    "sh_usage s' \<le> sh_capacity s' \<or> sh_lru s' = []"
    using evict_inv [OF step(1)] .
  have "contents s h key = Some v" if "contents s' h key = Some v" for h key v
    using shrunk_contents [OF _ _ s'(3) that] step s'(2) by (simp add: sh_inv_def)
  moreover have "map_option le_value (sh_heap s' b) = map_option le_value (sh_heap s b)" if "0 < ?held b" for b
  proof -
    have "sh_heap s' b = sh_heap s2 b" using s'(3) that unfolding shrunk_def by blast
    then show ?thesis using that e refs by (auto simp: s2_def split: if_splits)
  qed
  moreover have "shard_release a s = Some s'" using rel s'(1) by simp
  ultimately show ?thesis using s'(2,4) by blast
qed

text \<open>The chain after an insertion: a new address at the front or in the place of the replaced one.\<close>

lemma chain_replace_Some:
  assumes "\<forall>b \<in> set chain. heap b \<noteq> None" "distinct chain" "a \<notin> set chain"
  shows "\<exists>r. chain_replace heap key a chain = Some r \<and>
    (case r of None \<Rightarrow> \<forall>b \<in> set chain. map_option le_key (heap b) \<noteq> Some key
     | Some (old, chain') \<Rightarrow> old \<in> set chain \<and> map_option le_key (heap old) = Some key \<and>
         set chain' = insert a (set chain - {old}) \<and> distinct chain')"
  using assms
proof (induction chain)
  case (Cons b chain)
  then obtain e where e: "heap b = Some e" by auto
  obtain r where r: "chain_replace heap key a chain = Some r"
    "case r of None \<Rightarrow> \<forall>b \<in> set chain. map_option le_key (heap b) \<noteq> Some key
     | Some (old, chain') \<Rightarrow> old \<in> set chain \<and> map_option le_key (heap old) = Some key \<and>
         set chain' = insert a (set chain - {old}) \<and> distinct chain'"
    using Cons by auto
  show ?case
  proof (cases "le_key e = key")
    case True
    then show ?thesis using e Cons.prems by auto
  next
    case False
    then show ?thesis using e r Cons.prems by (auto split: option.splits)
  qed
qed simp

text \<open>The table once the new address is in its chain and the replaced one is not.\<close>

lemma insert_table_inv:
  assumes ti: "table_inv s {}" and free: "sh_heap s a = None"
    and chain: "set chain = insert a (set (sh_table s h) - set_option old)" "distinct chain"
    and heap2: "sh_heap s2 = (sh_heap s)(a \<mapsto> entry)" and tab: "sh_table s2 = (sh_table s)(h := chain)"
    and entry: "entry = \<lparr>le_value = v, le_key = key, le_hash = h, le_charge = n, le_refs = 2, le_in_cache = True\<rparr>"
    and oldmem: "\<And>b. old = Some b \<Longrightarrow> b \<in> set (sh_table s h) \<and> map_option le_key (sh_heap s b) = Some key \<and> b \<noteq> a"
    and other: "\<And>b. b \<in> set (sh_table s h) - set_option old \<Longrightarrow> map_option le_key (sh_heap s b) \<noteq> Some key"
  shows "table_inv s2 (set_option old)"
proof -
  have "distinct (sh_table s2 h')" for h' using ti chain(2) by (simp add: tab table_inv_def)
  moreover have "b \<in> set (sh_table s2 h') \<longleftrightarrow>
      (b \<notin> set_option old \<and> (\<exists>e. sh_heap s2 b = Some e \<and> le_in_cache e \<and> le_hash e = h'))" for b h'
    using table_inv_mem [OF ti, of b h'] oldmem chain(1) free table_inv_mem [OF ti, of b h]
    by (cases "b = a"; cases "h' = h") (auto simp: tab heap2 entry)
  moreover have "inj_on (\<lambda>b. map_option le_key (sh_heap s2 b)) (set (sh_table s2 h'))" for h'
  proof -
    have old_inj: "inj_on (\<lambda>b. map_option le_key (sh_heap s b)) (set (sh_table s h'))" using ti by (simp add: table_inv_def)
    have na: "a \<notin> set (sh_table s h')" using table_inv_mem [OF ti, of a h'] free by simp
    have eq: "inj_on (\<lambda>b. map_option le_key (sh_heap s2 b)) Y = inj_on (\<lambda>b. map_option le_key (sh_heap s b)) Y" if "a \<notin> Y" for Y
      by (rule inj_on_cong) (use that in \<open>auto simp: heap2\<close>)
    show ?thesis
    proof (cases "h' = h")
      case True
      let ?Y = "set (sh_table s h) - set_option old"
      have "inj_on (\<lambda>b. map_option le_key (sh_heap s2 b)) ?Y"
        using eq [of ?Y] na True inj_on_subset [OF old_inj, of ?Y] by auto
      moreover have "map_option le_key (sh_heap s2 a) \<notin> (\<lambda>b. map_option le_key (sh_heap s2 b)) ` ?Y"
      proof
        assume "map_option le_key (sh_heap s2 a) \<in> (\<lambda>b. map_option le_key (sh_heap s2 b)) ` ?Y"
        then obtain b where b: "b \<in> ?Y" "map_option le_key (sh_heap s2 a) = map_option le_key (sh_heap s2 b)" by blast
        moreover have "b \<noteq> a" using b(1) na True by auto
        ultimately show False using other [OF b(1)] by (simp add: heap2 entry)
      qed
      moreover have "set (sh_table s2 h') = insert a ?Y" using True chain(1) by (simp add: tab)
      ultimately show ?thesis using na True by (simp add: inj_on_insert)
    next
      case False
      then show ?thesis using eq [OF na] old_inj by (simp add: tab)
    qed
  qed
  ultimately show ?thesis by (simp add: table_inv_def)
qed

text \<open>The new entry in the heap, the list and the table; the one it replaces has left the table.\<close>

lemma insert_step:
  assumes inv: "sh_inv s held {}" and a: "a = sh_next s"
    and entry: "entry = \<lparr>le_value = v, le_key = key, le_hash = h, le_charge = n, le_refs = 2, le_in_cache = True\<rparr>"
    and s1: "s1 = s\<lparr>sh_heap := (sh_heap s)(a \<mapsto> entry), sh_next := a + 1, sh_usage := sh_usage s + n, sh_in_use := sh_in_use s @ [a]\<rparr>"
  obtains old s2 X where "table_insert a entry s1 = Some (old, s2)" "sh_inv s2 (held(a := 1)) X"
    "sh_heap s2 = (sh_heap s)(a \<mapsto> entry)" "X = set_option old" "\<And>b. old = Some b \<Longrightarrow> b \<noteq> a \<and> b \<in> cached s"
    "sh_capacity s2 = sh_capacity s"
proof -
  have I: "refs_inv s held" "table_inv s {}" "lists_inv s held" "usage_inv s" using inv by (auto simp: sh_inv_def)
  have free: "sh_heap s a = None" using refs_invD(2) [OF I(1), of a] a by (cases "sh_heap s a") auto
  then have "held a = 0" using refs_invD(1) [OF I(1)] by blast
  have ch: "\<forall>b \<in> set (sh_table s h). sh_heap s1 b \<noteq> None" "a \<notin> set (sh_table s h)" "distinct (sh_table s h)"
    using table_inv_mem [OF I(2)] free I(2) by (auto simp: s1 table_inv_def)
  obtain r where r: "chain_replace (sh_heap s1) key a (sh_table s h) = Some r"
    "case r of None \<Rightarrow> \<forall>b \<in> set (sh_table s h). map_option le_key (sh_heap s1 b) \<noteq> Some key
     | Some (old, chain') \<Rightarrow> old \<in> set (sh_table s h) \<and> map_option le_key (sh_heap s1 old) = Some key \<and>
         set chain' = insert a (set (sh_table s h) - {old}) \<and> distinct chain'"
    using chain_replace_Some [OF ch(1,3,2)] by blast
  define old where "old = map_option fst r"
  define chain where "chain = (case r of None \<Rightarrow> a # sh_table s h | Some (_, c) \<Rightarrow> c)"
  define s2 where "s2 = s1\<lparr>sh_table := (sh_table s)(h := chain)\<rparr>"
  have ins: "table_insert a entry s1 = Some (old, s2)"
    using r(1) by (auto simp: table_insert_def s1 entry old_def chain_def s2_def split: option.splits)
  have chain: "set chain = insert a (set (sh_table s h) - set_option old)" "distinct chain"
    using r(2) ch by (auto simp: chain_def old_def split: option.splits)
  have oldmem: "b \<in> set (sh_table s h) \<and> map_option le_key (sh_heap s b) = Some key \<and> b \<noteq> a" if "old = Some b" for b
    using r(2) that ch(2) by (auto simp: old_def s1 split: option.splits if_splits)
  have other: "map_option le_key (sh_heap s b) \<noteq> Some key" if b: "b \<in> set (sh_table s h) - set_option old" for b
  proof (cases old)
    case None
    then show ?thesis using r(2) b ch(2) by (auto simp: old_def s1 split: option.splits if_splits)
  next
    case (Some o')
    have inj: "inj_on (\<lambda>b. map_option le_key (sh_heap s b)) (set (sh_table s h))" using I(2) by (simp add: table_inv_def)
    have "b \<noteq> o'" using b Some by simp
    then show ?thesis using inj_onD [OF inj, of b o'] oldmem [OF Some] b by (metis DiffD1)
  qed
  have heap2: "sh_heap s2 = (sh_heap s)(a \<mapsto> entry)" by (simp add: s2_def s1)
  have "refs_inv s2 (held(a := 1))"
    by (rule refs_invI) (use refs_invD [OF I(1)] a in \<open>auto simp: s2_def s1 entry less_SucI split: if_splits\<close>)
  moreover have cach: "cached s2 = insert a (cached s)" using free by (auto simp: cached_def heap2 entry)
  moreover have nota: "a \<notin> cached s" using free by (auto simp: cached_def)
  have "lists_inv s2 (held(a := 1))"
    using I(3) nota \<open>held a = 0\<close> unfolding lists_inv_def cach by (auto simp: s2_def s1)
  moreover have "usage_inv s2"
  proof -
    have "charge_at s2 b = charge_at s b" if "b \<in> set (sh_lru s @ sh_in_use s)" for b
    proof -
      have "b \<noteq> a" using that I(3) nota by (auto simp: lists_inv_def)
      then show ?thesis by (simp add: charge_at_def heap2)
    qed
    then have "map (charge_at s2) (sh_lru s @ sh_in_use s) = map (charge_at s) (sh_lru s @ sh_in_use s)"
      by (simp only: map_eq_conv) blast
    moreover have "charge_at s2 a = n" by (simp add: charge_at_def heap2 entry)
    moreover have "sh_lru s2 @ sh_in_use s2 = (sh_lru s @ sh_in_use s) @ [a]" "sh_usage s2 = sh_usage s + n"
      by (simp_all add: s2_def s1)
    ultimately show ?thesis using I(4) unfolding usage_inv_def by (simp only: map_append sum_list_append) simp
  qed
  moreover have "table_inv s2 (set_option old)"
    by (rule insert_table_inv [OF I(2) free chain heap2 _ entry oldmem other]) (simp_all add: s2_def)
  ultimately have "sh_inv s2 (held(a := 1)) (set_option old)" by (simp add: sh_inv_def)
  moreover have "b \<in> cached s" if "old = Some b" for b
    using oldmem [OF that] table_inv_mem [OF I(2)] by (auto simp: cached_def)
  ultimately show thesis using that [OF ins _ heap2 refl] oldmem by (simp add: s2_def s1)
qed

lemma shard_insert_inv:
  assumes inv: "sh_inv s held {}"
  shows "\<exists>a s'. shard_insert key h v n s = Some (a, s') \<and> held a = 0 \<and> sh_inv s' (held(a := 1)) {} \<and>
    map_option le_value (sh_heap s' a) = Some v \<and> contents s' h key = Some v \<and>
    (\<forall>h' key' w. (h', key') \<noteq> (h, key) \<longrightarrow> contents s' h' key' = Some w \<longrightarrow> contents s h' key' = Some w) \<and>
    (\<forall>b. 0 < held b \<longrightarrow> map_option le_value (sh_heap s' b) = map_option le_value (sh_heap s b)) \<and>
    (sh_usage s' \<le> sh_capacity s' \<or> sh_lru s' = [])"
proof -
  let ?a = "sh_next s" and ?held = "held(sh_next s := 1)"
  let ?entry = "\<lparr>le_value = v, le_key = key, le_hash = h, le_charge = n, le_refs = 2, le_in_cache = True\<rparr>"
  define s1 where "s1 = s\<lparr>sh_heap := (sh_heap s)(?a \<mapsto> ?entry), sh_next := ?a + 1, sh_usage := sh_usage s + n,
      sh_in_use := sh_in_use s @ [?a]\<rparr>"
  have I: "refs_inv s held" "table_inv s {}" using inv by (auto simp: sh_inv_def)
  have free: "sh_heap s ?a = None" "held ?a = 0"
    using refs_invD(1,2) [OF I(1), of ?a] by (cases "sh_heap s ?a"; auto)+
  obtain old s2 X where s2: "table_insert ?a ?entry s1 = Some (old, s2)" "sh_inv s2 ?held X"
    "sh_heap s2 = (sh_heap s)(?a \<mapsto> ?entry)" "X = set_option old" "\<And>b. old = Some b \<Longrightarrow> b \<noteq> ?a \<and> b \<in> cached s"
    using insert_step [OF inv refl refl s1_def] by metis
  obtain s3 where s3: "(case old of Some b \<Rightarrow> finish_erase b False s2 | None \<Rightarrow> Some s2) = Some s3" "sh_inv s3 ?held {}"
    "sh_heap s3 ?a = Some ?entry" "\<And>b e. b \<noteq> ?a \<Longrightarrow> sh_heap s3 b = Some e \<Longrightarrow> le_in_cache e \<Longrightarrow> sh_heap s b = Some e"
    "\<And>b. 0 < held b \<Longrightarrow> map_option le_value (sh_heap s3 b) = map_option le_value (sh_heap s b)"
  proof (cases old)
    case None
    then show ?thesis using s2(2,3,4) free by (intro that [of s2]) auto
  next
    case (Some b)
    then have b: "b \<noteq> ?a" "b \<in> cached s" using s2(5) by auto
    then obtain e where e: "sh_heap s2 b = Some e" "le_in_cache e" using s2(3) by (auto simp: cached_def)
    have eq: "\<exists>s3. finish_erase b False s2 = Some s3 \<and> sh_heap s3 = (sh_heap s2)(b := if held b = 0 then None else
        Some (e\<lparr>le_in_cache := False, le_refs := held b\<rparr>))"
      using finish_erase_eq [OF s2(2) e, of False] b(1) by simp
    then obtain s3 where s3: "finish_erase b False s2 = Some s3" "sh_heap s3 = (sh_heap s2)(b := if held b = 0 then None else
        Some (e\<lparr>le_in_cache := False, le_refs := held b\<rparr>))" by blast
    have "sh_inv s3 ?held {}" using finish_erase_inv [OF s2(2) e _ s3(1)] s2(4) Some by simp
    then show ?thesis using s3 Some b e s2(3) free by (intro that [of s3]) (auto split: if_splits)
  qed
  obtain s' where s': "evict_to_capacity s3 = Some s'" "sh_inv s' ?held {}" "shrunk s3 s' ?held"
    "sh_usage s' \<le> sh_capacity s' \<or> sh_lru s' = []" using evict_inv [OF s3(2)] .
  have T: "table_inv s' {}" using s'(2) by (simp add: sh_inv_def)
  have ha: "sh_heap s' ?a = Some ?entry" using s'(3) s3(3) by (simp add: shrunk_def)
  have "shard_insert key h v n s = Some (?a, s')"
    using s2(1) s3(1) s'(1) by (simp add: shard_insert_def Let_def s1_def)
  moreover have "contents s' h key = Some v" unfolding contents_iff [OF T] using ha by (intro exI [of _ ?a] exI [of _ ?entry]) simp
  moreover have "contents s h' key' = Some w" if ne: "(h', key') \<noteq> (h, key)" and c: "contents s' h' key' = Some w" for h' key' w
  proof -
    obtain b f where f: "sh_heap s' b = Some f" "le_in_cache f" "le_hash f = h'" "le_key f = key'" "le_value f = w"
      using c unfolding contents_iff [OF T] by blast
    then have "b \<noteq> ?a" using ha ne by auto
    moreover have "sh_heap s3 b = Some f" using s'(3) f(1,2) unfolding shrunk_def cached_def by (metis (mono_tags) mem_Collect_eq)
    ultimately have "sh_heap s b = Some f" using s3(4) f(2) by blast
    then show ?thesis unfolding contents_iff [OF I(2)] using f by blast
  qed
  moreover have "map_option le_value (sh_heap s' b) = map_option le_value (sh_heap s b)" if "0 < held b" for b
    using s'(3) s3(5) [OF that] that free by (auto simp: shrunk_def split: if_splits)
  ultimately show ?thesis using s'(2,4) ha free(2) by (intro exI [of _ ?a] exI [of _ s']) simp
qed

end
