(* ===== verification/Cache_Use.thy ===== *)
theory Cache_Use
  imports Cache_Props
begin

text \<open>
  The contract of a cache, the sharded cache as an instance of it, and what its users
  may rely on along any sequence of calls.
\<close>

section \<open>The contract\<close>

text \<open>
  \<open>view\<close> is the map a cache stands for.  A cache may forget, and may not lie: no call
  adds to the map but the insertion, and a handle reads the same value until it is
  released.
\<close>

locale handle_cache =
  fixes inv :: "'c \<Rightarrow> ('h \<Rightarrow> nat) \<Rightarrow> bool"
    and view :: "'c \<Rightarrow> bytes \<Rightarrow> 'v option"
    and value_of :: "'h \<Rightarrow> 'c \<Rightarrow> 'v option"
    and insert :: "bytes \<Rightarrow> 'v \<Rightarrow> nat \<Rightarrow> 'c \<Rightarrow> ('h \<times> 'c) option"
    and lookup :: "bytes \<Rightarrow> 'c \<Rightarrow> ('h option \<times> 'c) option"
    and release :: "'h \<Rightarrow> 'c \<Rightarrow> 'c option"
    and erase :: "bytes \<Rightarrow> 'c \<Rightarrow> 'c option"
  assumes insert_law: "inv c held \<Longrightarrow> \<exists>h c'. insert key v n c = Some (h, c') \<and> held h = 0 \<and> inv c' (held(h := 1)) \<and>
      value_of h c' = Some v \<and> view c' key = Some v \<and>
      (\<forall>k w. k \<noteq> key \<longrightarrow> view c' k = Some w \<longrightarrow> view c k = Some w) \<and>
      (\<forall>x. 0 < held x \<longrightarrow> value_of x c' = value_of x c)"
    and lookup_law: "inv c held \<Longrightarrow> \<exists>r c'. lookup key c = Some (r, c') \<and> (\<forall>k. view c' k = view c k) \<and>
      (case r of None \<Rightarrow> view c key = None \<and> c' = c
       | Some h \<Rightarrow> inv c' (held(h := held h + 1)) \<and> value_of h c' = view c key \<and> view c key \<noteq> None) \<and>
      (\<forall>x. value_of x c' = value_of x c)"
    and release_law: "inv c held \<Longrightarrow> 0 < held h \<Longrightarrow> \<exists>c'. release h c = Some c' \<and> inv c' (held(h := held h - 1)) \<and>
      (\<forall>k w. view c' k = Some w \<longrightarrow> view c k = Some w) \<and>
      (\<forall>x. 0 < (held(h := held h - 1)) x \<longrightarrow> value_of x c' = value_of x c)"
    and erase_law: "inv c held \<Longrightarrow> \<exists>c'. erase key c = Some c' \<and> inv c' held \<and>
      (\<forall>k. view c' k = (if k = key then None else view c k)) \<and>
      (\<forall>x. 0 < held x \<longrightarrow> value_of x c' = value_of x c)"
begin

text \<open>
  A user that keeps a map \<open>m\<close> of what was last inserted, and the value \<open>val h\<close> each
  handle was obtained with.
\<close>

definition tracks :: "'c \<Rightarrow> (bytes \<Rightarrow> 'v option) \<Rightarrow> ('h \<Rightarrow> nat) \<Rightarrow> ('h \<Rightarrow> 'v option) \<Rightarrow> bool" where
  "tracks c m held val \<longleftrightarrow> inv c held \<and> (\<forall>k v. view c k = Some v \<longrightarrow> m k = Some v) \<and>
     (\<forall>h. 0 < held h \<longrightarrow> value_of h c = val h \<and> val h \<noteq> None)"

lemma tracks_value: "tracks c m held val \<Longrightarrow> 0 < held h \<Longrightarrow> value_of h c = val h \<and> val h \<noteq> None"
  by (simp add: tracks_def)

lemma tracks_insert:
  assumes "tracks c m held val" "insert key v n c = Some (h, c')"
  shows "tracks c' (m(key \<mapsto> v)) (held(h := held h + 1)) (val(h \<mapsto> v))"
proof -
  have i: "inv c held" using assms(1) by (simp add: tracks_def)
  obtain h0 c0 where "insert key v n c = Some (h0, c0)" and law: "held h0 = 0 \<and> inv c0 (held(h0 := 1)) \<and>
      value_of h0 c0 = Some v \<and> view c0 key = Some v \<and>
      (\<forall>k w. k \<noteq> key \<longrightarrow> view c0 k = Some w \<longrightarrow> view c k = Some w) \<and>
      (\<forall>x. 0 < held x \<longrightarrow> value_of x c0 = value_of x c)"
    using insert_law [OF i, of key v n] by blast
  then have "h0 = h" "c0 = c'" using assms(2) by auto
  then show ?thesis using assms(1) law by (auto simp: tracks_def)
qed

lemma tracks_hit:
  assumes "tracks c m held val" "lookup key c = Some (Some h, c')"
  shows "tracks c' m (held(h := held h + 1)) (val(h := m key))" "m key \<noteq> None"
proof -
  have i: "inv c held" using assms(1) by (simp add: tracks_def)
  have law: "\<forall>k. view c' k = view c k" "inv c' (held(h := held h + 1))" "value_of h c' = view c key" "view c key \<noteq> None"
    "\<forall>x. value_of x c' = value_of x c"
    using lookup_law [OF i, of key] assms(2) by auto
  have m: "m key = view c key" using assms(1) law(4) by (auto simp: tracks_def)
  then show "tracks c' m (held(h := held h + 1)) (val(h := m key))" "m key \<noteq> None"
    using assms(1) law by (auto simp: tracks_def)
qed

lemma tracks_miss:
  assumes "tracks c m held val" "lookup key c = Some (None, c')"
  shows "tracks c' m held val"
proof -
  have "inv c held" using assms(1) by (simp add: tracks_def)
  then have "c' = c" using lookup_law [of c held key] assms(2) by auto
  then show ?thesis using assms(1) by simp
qed

lemma tracks_release:
  assumes "tracks c m held val" "0 < held h" "release h c = Some c'"
  shows "tracks c' m (held(h := held h - 1)) val"
proof -
  have i: "inv c held" using assms(1) by (simp add: tracks_def)
  have law: "inv c' (held(h := held h - 1))" "\<forall>k w. view c' k = Some w \<longrightarrow> view c k = Some w"
    "\<forall>x. 0 < (held(h := held h - 1)) x \<longrightarrow> value_of x c' = value_of x c"
    using release_law [OF i assms(2)] assms(3) by auto
  have "0 < held x" if "0 < (held(h := held h - 1)) x" for x using that assms(2) by (cases "x = h") auto
  then show ?thesis using assms(1) law unfolding tracks_def by metis
qed

lemma tracks_erase:
  assumes "tracks c m held val" "erase key c = Some c'"
  shows "tracks c' (m(key := None)) held val"
proof -
  have i: "inv c held" using assms(1) by (simp add: tracks_def)
  show ?thesis using erase_law [OF i, of key] assms by (auto simp: tracks_def)
qed

lemma tracks_total:
  assumes "tracks c m held val"
  shows "insert key v n c \<noteq> None" "lookup key c \<noteq> None" "0 < held h \<Longrightarrow> release h c \<noteq> None" "erase key c \<noteq> None"
proof -
  have i: "inv c held" using assms by (simp add: tracks_def)
  show "insert key v n c \<noteq> None" "lookup key c \<noteq> None" "erase key c \<noteq> None"
    using insert_law [OF i, of key v n] lookup_law [OF i, of key] erase_law [OF i, of key] by auto
  show "release h c \<noteq> None" if "0 < held h" using release_law [OF i that] by auto
qed

end

section \<open>The sharded cache\<close>

definition cache_inv :: "'v Cache \<Rightarrow> (Handle \<Rightarrow> nat) \<Rightarrow> bool" where
  "cache_inv c held \<longleftrightarrow> (\<forall>i. sh_inv (ca_shards c i) (\<lambda>a. held (i, a)) {})"

definition cache_view :: "'v Cache \<Rightarrow> bytes \<Rightarrow> 'v option" where
  "cache_view c key = contents (ca_shards c (shard_for (hash64 key))) (hash64 key) key"

lemma on_shard_Some:
  "f (ca_shards c i) = Some (r, s) \<Longrightarrow> on_shard i f c = Some (r, c\<lparr>ca_shards := (ca_shards c)(i := s)\<rparr>)"
  by (simp add: on_shard_def)

lemma cache_inv_update:
  assumes "cache_inv c held" "sh_inv s ((\<lambda>a. held (i, a))(a := n)) {}"
  shows "cache_inv (c\<lparr>ca_shards := (ca_shards c)(i := s)\<rparr>) (held((i, a) := n))"
proof -
  have "(\<lambda>b. (held((i, a) := n)) (i, b)) = (\<lambda>a. held (i, a))(a := n)" by auto
  moreover have "(\<lambda>b. (held((i, a) := n)) (j, b)) = (\<lambda>b. held (j, b))" if "j \<noteq> i" for j using that by auto
  ultimately show ?thesis using assms by (auto simp: cache_inv_def)
qed

lemma cache_value_update:
  "cache_value (j, b) (c\<lparr>ca_shards := (ca_shards c)(i := s)\<rparr>) =
     (if j = i then map_option le_value (sh_heap s b) else cache_value (j, b) c)"
  by (simp add: cache_value_def)

lemma cache_view_update:
  "cache_view (c\<lparr>ca_shards := (ca_shards c)(i := s)\<rparr>) k =
     (if shard_for (hash64 k) = i then contents s (hash64 k) k else cache_view c k)"
  by (simp add: cache_view_def)

interpretation sharded: handle_cache cache_inv cache_view cache_value cache_insert cache_lookup cache_release cache_erase
proof (unfold_locales, goal_cases)
  case (1 c held key v n)
  let ?h = "hash64 key" and ?i = "shard_for (hash64 key)"
  have "sh_inv (ca_shards c ?i) (\<lambda>a. held (?i, a)) {}" using 1 by (simp add: cache_inv_def)
  from shard_insert_inv [OF this, of key ?h v n] obtain a s' where s':
    "shard_insert key ?h v n (ca_shards c ?i) = Some (a, s')" "held (?i, a) = 0" "sh_inv s' ((\<lambda>a. held (?i, a))(a := 1)) {}"
    "map_option le_value (sh_heap s' a) = Some v" "contents s' ?h key = Some v"
    "\<And>h' key' w. (h', key') \<noteq> (?h, key) \<Longrightarrow> contents s' h' key' = Some w \<Longrightarrow> contents (ca_shards c ?i) h' key' = Some w"
    "\<And>b. 0 < held (?i, b) \<Longrightarrow> map_option le_value (sh_heap s' b) = map_option le_value (sh_heap (ca_shards c ?i) b)"
    by blast
  let ?c' = "c\<lparr>ca_shards := (ca_shards c)(?i := s')\<rparr>"
  have "cache_insert key v n c = Some ((?i, a), ?c')"
    using on_shard_Some [of "shard_insert key ?h v n", OF s'(1)] by (simp add: cache_insert_def Let_def)
  moreover have "cache_view c k = Some w" if "k \<noteq> key" "cache_view ?c' k = Some w" for k w
    using that s'(6) [of "hash64 k" k w] by (auto simp: cache_view_update cache_view_def split: if_splits)
  moreover have "cache_value x ?c' = cache_value x c" if "0 < held x" for x
    using that s'(7) by (cases x) (auto simp: cache_value_update cache_value_def)
  ultimately show ?case using s'(2,4,5) cache_inv_update [OF 1 s'(3)]
    by (intro exI [of _ "(?i, a)"] exI [of _ ?c']) (simp add: cache_value_update cache_view_update)
next
  case (2 c held key)
  let ?h = "hash64 key" and ?i = "shard_for (hash64 key)"
  have inv: "sh_inv (ca_shards c ?i) (\<lambda>a. held (?i, a)) {}" using 2 by (simp add: cache_inv_def)
  show ?case
  proof (cases rule: shard_lookup_inv [OF inv, of key ?h])
    case 1
    have "cache_lookup key c = Some (None, c)"
      using on_shard_Some [of "shard_lookup key ?h", OF 1(1)] by (simp add: cache_lookup_def Let_def)
    then show ?thesis using 1(2) by (simp add: cache_view_def)
  next
    case (2 a v s')
    let ?c' = "c\<lparr>ca_shards := (ca_shards c)(?i := s')\<rparr>"
    have "cache_lookup key c = Some (Some (?i, a), ?c')"
      using on_shard_Some [of "shard_lookup key ?h", OF 2(1)] by (simp add: cache_lookup_def Let_def)
    moreover have "cache_view ?c' k = cache_view c k" for k using 2(5) by (simp add: cache_view_update cache_view_def)
    moreover have "cache_value x ?c' = cache_value x c" for x
      using 2(6) by (cases x) (simp add: cache_value_update cache_value_def)
    moreover have "cache_value (?i, a) ?c' = cache_view c key" "cache_view c key \<noteq> None"
      using 2(2,3) by (simp_all add: cache_value_update cache_view_def)
    moreover have "cache_inv ?c' (held((?i, a) := held (?i, a) + 1))"
      by (rule cache_inv_update [OF \<open>cache_inv c held\<close>]) (use 2(4) in simp)
    ultimately show ?thesis by (intro exI [of _ "Some (?i, a)"] exI [of _ ?c']) simp
  qed
next
  case (3 c held h)
  obtain i a where h: "h = (i, a)" by (cases h)
  have "sh_inv (ca_shards c i) (\<lambda>a. held (i, a)) {}" using 3(1) by (simp add: cache_inv_def)
  from shard_release_inv [OF this, of a] 3(2) obtain s' where s':
    "shard_release a (ca_shards c i) = Some s'" "sh_inv s' ((\<lambda>a. held (i, a))(a := held (i, a) - 1)) {}"
    "\<And>h key v. contents s' h key = Some v \<Longrightarrow> contents (ca_shards c i) h key = Some v"
    "\<And>b. 0 < ((\<lambda>a. held (i, a))(a := held (i, a) - 1)) b \<Longrightarrow>
       map_option le_value (sh_heap s' b) = map_option le_value (sh_heap (ca_shards c i) b)"
    unfolding h by blast
  let ?c' = "c\<lparr>ca_shards := (ca_shards c)(i := s')\<rparr>"
  have "cache_release h c = Some ?c'" using s'(1) by (simp add: cache_release_def h on_shard_def)
  moreover have "cache_view c k = Some w" if "cache_view ?c' k = Some w" for k w
    using that s'(3) by (auto simp: cache_view_update cache_view_def split: if_splits)
  moreover have "cache_value x ?c' = cache_value x c" if "0 < (held(h := held h - 1)) x" for x
    using that s'(4) [of "snd x"] by (cases x) (auto simp: cache_value_update cache_value_def h split: if_splits)
  ultimately show ?case using cache_inv_update [OF 3(1) s'(2)] by (intro exI [of _ ?c']) (simp add: h)
next
  case (4 c held key)
  let ?h = "hash64 key" and ?i = "shard_for (hash64 key)"
  have "sh_inv (ca_shards c ?i) (\<lambda>a. held (?i, a)) {}" using 4 by (simp add: cache_inv_def)
  from shard_erase_inv [OF this, of key ?h] obtain s' where s':
    "shard_erase key ?h (ca_shards c ?i) = Some s'" "sh_inv s' (\<lambda>a. held (?i, a)) {}"
    "\<And>h' key'. contents s' h' key' = (if h' = ?h \<and> key' = key then None else contents (ca_shards c ?i) h' key')"
    "\<And>b. 0 < held (?i, b) \<Longrightarrow> map_option le_value (sh_heap s' b) = map_option le_value (sh_heap (ca_shards c ?i) b)"
    by blast
  let ?c' = "c\<lparr>ca_shards := (ca_shards c)(?i := s')\<rparr>"
  have "cache_erase key c = Some ?c'" using s'(1) by (simp add: cache_erase_def Let_def on_shard_def)
  moreover have "cache_inv ?c' held" using 4 s'(2) by (simp add: cache_inv_def)
  moreover have "cache_view ?c' k = (if k = key then None else cache_view c k)" for k
    using s'(3) by (auto simp: cache_view_update cache_view_def)
  moreover have "cache_value x ?c' = cache_value x c" if "0 < held x" for x
    using that s'(4) by (cases x) (auto simp: cache_value_update cache_value_def)
  ultimately show ?case by (intro exI [of _ ?c']) simp
qed

section \<open>Properties\<close>

text \<open>
  The states users of the cache can bring it to: \<open>m\<close> is what was last inserted under
  each key and not erased, \<open>held\<close> counts the handles not yet released, \<open>val\<close> is what each
  was obtained for.
\<close>

inductive cache_reaches :: "nat \<Rightarrow> 'v Cache \<Rightarrow> (bytes \<Rightarrow> 'v option) \<Rightarrow> (Handle \<Rightarrow> nat) \<Rightarrow> (Handle \<Rightarrow> 'v option) \<Rightarrow> bool" where
  new: "cache_reaches n (new_lru_cache n) Map.empty (\<lambda>_. 0) Map.empty"
| insert: "cache_reaches n c m held val \<Longrightarrow> cache_insert key v charge c = Some (h, c') \<Longrightarrow>
    cache_reaches n c' (m(key \<mapsto> v)) (held(h := held h + 1)) (val(h \<mapsto> v))"
| hit: "cache_reaches n c m held val \<Longrightarrow> cache_lookup key c = Some (Some h, c') \<Longrightarrow>
    cache_reaches n c' m (held(h := held h + 1)) (val(h := m key))"
| miss: "cache_reaches n c m held val \<Longrightarrow> cache_lookup key c = Some (None, c') \<Longrightarrow> cache_reaches n c' m held val"
| release: "cache_reaches n c m held val \<Longrightarrow> 0 < held h \<Longrightarrow> cache_release h c = Some c' \<Longrightarrow>
    cache_reaches n c' m (held(h := held h - 1)) val"
| erase: "cache_reaches n c m held val \<Longrightarrow> cache_erase key c = Some c' \<Longrightarrow> cache_reaches n c' (m(key := None)) held val"

lemma cache_reaches_tracks: "cache_reaches n (c :: 'v Cache) m held val \<Longrightarrow> sharded.tracks c m held val"
proof (induction rule: cache_reaches.induct)
  case (new n)
  have "cache_inv (new_lru_cache n :: 'v Cache) (\<lambda>_. 0)" by (simp add: cache_inv_def new_lru_cache_def sh_inv_ctor)
  moreover have "cache_view (new_lru_cache n :: 'v Cache) k = None" for k
    by (simp add: cache_view_def new_lru_cache_def contents_def table_find_def LRUShard_ctor_def)
  ultimately show ?case by (simp add: sharded.tracks_def)
qed (blast intro: sharded.tracks_insert sharded.tracks_hit sharded.tracks_miss sharded.tracks_release sharded.tracks_erase)+

text \<open>
  C19. The cache is memory safe and never serves a stale value.  After any sequence of
  calls in which users release only handles they hold, no further call touches a freed
  entry; every handle still held reads the value it was obtained for, however much was
  evicted, replaced or erased since; and a lookup that succeeds gives the value last
  inserted under the key.
\<close>

theorem cache_safe:
  assumes "cache_reaches n c m held val"
  shows "(\<forall>key v charge. cache_insert key v charge c \<noteq> None) \<and> (\<forall>key. cache_erase key c \<noteq> None) \<and>
    (\<forall>h. 0 < held h \<longrightarrow> cache_release h c \<noteq> None \<and> cache_value h c = val h \<and> val h \<noteq> None) \<and>
    (\<forall>key. \<exists>r c'. cache_lookup key c = Some (r, c') \<and> (\<forall>h. r = Some h \<longrightarrow> m key \<noteq> None \<and> cache_value h c' = m key))"
proof -
  have t: "sharded.tracks c m held val" by (rule cache_reaches_tracks [OF assms])
  have "\<exists>r c'. cache_lookup key c = Some (r, c') \<and> (\<forall>h. r = Some h \<longrightarrow> m key \<noteq> None \<and> cache_value h c' = m key)" for key
  proof -
    obtain r c' where r: "cache_lookup key c = Some (r, c')" using sharded.tracks_total(2) [OF t, of key] by fastforce
    have "m key \<noteq> None \<and> cache_value h c' = m key" if "r = Some h" for h
    proof -
      note hit = sharded.tracks_hit [OF t r [unfolded that]]
      from sharded.tracks_value [OF hit(1), of h] hit(2) show ?thesis by simp
    qed
    then show ?thesis using r by blast
  qed
  then show ?thesis using sharded.tracks_value [OF t] sharded.tracks_total [OF t] by blast
qed

theorem cache_safe_witness:
  "\<exists>h c. cache_insert [1] ''one'' 10 (new_lru_cache 64) = Some (h, c) \<and> cache_value h c = Some ''one'' \<and> cache_release h c \<noteq> None"
proof -
  obtain h c where hc: "cache_insert [1] ''one'' 10 (new_lru_cache 64) = Some (h, c)"
    using cache_safe [OF cache_reaches.new [of 64], where 'a = string] by (metis surj_pair option.exhaust)
  note safe = cache_safe [OF cache_reaches.insert [OF cache_reaches.new hc]]
  show ?thesis using hc safe [THEN conjunct2, THEN conjunct2, THEN conjunct1, rule_format, of h] by simp
qed

section \<open>Capacity\<close>

definition shard_bounded :: "nat \<Rightarrow> 'v LRUShard \<Rightarrow> bool" where
  "shard_bounded n s \<longleftrightarrow> sh_capacity s = n \<and> (sh_usage s \<le> sh_capacity s \<or> sh_lru s = [])"

lemma unref_keeps: "unref a s = Some s' \<Longrightarrow> sh_capacity s' = sh_capacity s \<and> sh_usage s' = sh_usage s \<and> sh_lru s' = sh_lru s"
  by (auto simp: unref_def Let_def split: option.splits bind_splits if_splits)

lemma finish_erase_keeps:
  "finish_erase a t s = Some s' \<Longrightarrow>
     sh_capacity s' = sh_capacity s \<and> sh_usage s' \<le> sh_usage s \<and> sh_lru s' = remove1 a (sh_lru s)"
  by (auto simp: finish_erase_def list_remove_def table_remove_def Let_def split: bind_splits if_splits dest!: unref_keeps)

lemma evict_loop_capacity: "evict_loop n s = Some s' \<Longrightarrow> sh_capacity s' = sh_capacity s"
  by (induction n arbitrary: s) (auto split: if_splits bind_splits dest!: finish_erase_keeps)

lemma lookup_bounded: "shard_lookup key h s = Some (r, s') \<Longrightarrow> shard_bounded n s \<Longrightarrow> shard_bounded n s'"
  by (auto simp: shard_lookup_def list_remove_def shard_bounded_def Let_def split: bind_splits option.splits)

lemma erase_bounded: "shard_erase key h s = Some s' \<Longrightarrow> shard_bounded n s \<Longrightarrow> shard_bounded n s'"
  by (auto simp: shard_erase_def shard_bounded_def split: bind_splits option.splits dest!: finish_erase_keeps)

lemma insert_bounded:
  assumes "sh_inv s held {}" "shard_insert key h v m s = Some (a, s')" "shard_bounded n s"
  shows "shard_bounded n s'"
proof -
  have "sh_capacity s' = sh_capacity s"
    using assms(2) unfolding shard_insert_def evict_to_capacity_def table_insert_def
    by (auto simp: Let_def split: bind_splits option.splits prod.splits dest!: finish_erase_keeps evict_loop_capacity)
  then show ?thesis using shard_insert_inv [OF assms(1), of key h v m] assms(2,3) by (auto simp: shard_bounded_def)
qed

lemma release_bounded:
  assumes "sh_inv s held {}" "0 < held a" "shard_release a s = Some s'" "shard_bounded n s"
  shows "shard_bounded n s'"
proof -
  have "sh_capacity s' = sh_capacity s"
    using assms(3) unfolding shard_release_def evict_to_capacity_def
    by (auto simp: Let_def list_remove_def split: bind_splits if_splits dest!: unref_keeps evict_loop_capacity)
  then show ?thesis using shard_release_inv [OF assms(1,2)] assms(3,4) by (auto simp: shard_bounded_def)
qed

lemma on_shard_result:
  "on_shard i f c = Some (r, c') \<Longrightarrow> \<exists>s. f (ca_shards c i) = Some (r, s) \<and> c' = c\<lparr>ca_shards := (ca_shards c)(i := s)\<rparr>"
  by (auto simp: on_shard_def split: bind_splits)

lemma cache_reaches_bounded:
  "cache_reaches n c m held val \<Longrightarrow> \<forall>i. shard_bounded ((n + kShards - 1) div kShards) (ca_shards c i)"
proof (induction rule: cache_reaches.induct)
  case (new n)
  show ?case by (simp add: new_lru_cache_def LRUShard_ctor_def shard_bounded_def)
next
  case (insert n c m held val key v charge h c')
  have "sh_inv (ca_shards c i) (\<lambda>a. held (i, a)) {}" for i
    using cache_reaches_tracks [OF insert(1)] by (simp add: sharded.tracks_def cache_inv_def)
  from insert_bounded [OF this] show ?case using insert(2,3)
    by (auto simp: cache_insert_def Let_def split: bind_splits dest!: on_shard_result)
next
  case (hit n c m held val key h c')
  then show ?case using lookup_bounded [OF _ hit(3) [rule_format]]
    by (auto simp: cache_lookup_def Let_def split: bind_splits dest!: on_shard_result)
next
  case (miss n c m held val key c')
  then show ?case using lookup_bounded [OF _ miss(3) [rule_format]]
    by (auto simp: cache_lookup_def Let_def split: bind_splits dest!: on_shard_result)
next
  case (release n c m held val h c')
  have "sh_inv (ca_shards c i) (\<lambda>a. held (i, a)) {}" for i
    using cache_reaches_tracks [OF release(1)] by (simp add: sharded.tracks_def cache_inv_def)
  from release_bounded [OF this] show ?case using release(2-4)
    by (cases h) (auto simp: cache_release_def split: bind_splits dest!: on_shard_result)
next
  case (erase n c m held val key c')
  then show ?case using erase_bounded [OF _ erase(3) [rule_format]]
    by (auto simp: cache_erase_def Let_def split: bind_splits dest!: on_shard_result)
qed

text \<open>
  C31. The cache keeps to its capacity.  Whenever no handle is held, the charges of all it
  holds sum to less than the capacity it was made with plus the rounding of one per shard.
\<close>

theorem cache_within_capacity:
  assumes "cache_reaches n c m held val" "\<forall>h. held h = 0"
  shows "total_charge c < n + kShards"
proof -
  let ?per = "(n + kShards - 1) div kShards"
  have "sh_usage (ca_shards c i) \<le> ?per" for i
  proof -
    have inv: "sh_inv (ca_shards c i) (\<lambda>a. held (i, a)) {}"
      using cache_reaches_tracks [OF assms(1)] by (simp add: sharded.tracks_def cache_inv_def)
    have b: "shard_bounded ?per (ca_shards c i)" using cache_reaches_bounded [OF assms(1)] by blast
    have "sh_usage (ca_shards c i) = 0" if "sh_lru (ca_shards c i) = []"
    proof -
      have "sh_in_use (ca_shards c i) = []" using inv assms(2) by (simp add: sh_inv_def lists_inv_def)
      then show ?thesis using inv that by (simp add: sh_inv_def usage_inv_def)
    qed
    then show ?thesis using b by (auto simp: shard_bounded_def)
  qed
  then have "total_charge c \<le> sum_list (map (\<lambda>i. ?per) [0..<kShards])"
    unfolding total_charge_def by (intro sum_list_mono)
  also have "\<dots> = kShards * ?per" by (simp add: sum_list_const_mult [symmetric] map_replicate_const sum_list_replicate)
  also have "\<dots> < n + kShards" by (simp add: kShards_def)
  finally show ?thesis .
qed

theorem cache_within_capacity_witness:
  "\<exists>h c c'. cache_insert [1] ''one'' 10 (new_lru_cache 64) = Some (h, c) \<and> cache_release h c = Some c' \<and>
     total_charge c' < 64 + kShards"
proof -
  obtain h and c :: "string Cache" where hc: "cache_insert [1] ''one'' 10 (new_lru_cache 64) = Some (h, c)"
    using sharded.tracks_total(1) [OF cache_reaches_tracks [OF cache_reaches.new [of 64]], of "[1]" "''one''" 10] by fastforce
  note r = cache_reaches.insert [OF cache_reaches.new hc]
  obtain c' where c': "cache_release h c = Some c'"
    using sharded.tracks_total(3) [OF cache_reaches_tracks [OF r], of h] by auto
  have "total_charge c' < 64 + kShards"
    by (rule cache_within_capacity [OF cache_reaches.release [OF r _ c']]) simp_all
  then show ?thesis using hc c' by blast
qed

end
