(* ===== verification/Block.thy ===== *)
theory Block
  imports Comparator
begin

text \<open>
  src/block_builder.hpp, src/block_builder.cpp, src/block.hpp and src/block.cpp:
  blocks of prefix-compressed entries with a restart array at the end.  A pointer
  into a block is its offset; the uint32\_t offsets and indices of one block are
  natural numbers, narrowed where the constructor narrows them.
\<close>

section \<open>BlockBuilder\<close>

record BlockBuilder =
  bb_restart_interval :: nat
  bb_buffer :: bytes
  bb_restarts :: "u32 list"
  bb_since_restart :: nat
  bb_entries :: nat
  bb_finished :: bool
  bb_last_key :: bytes

definition bb_reset :: "BlockBuilder \<Rightarrow> BlockBuilder" where
  "bb_reset b =
     b\<lparr>bb_buffer := [], bb_restarts := [0], bb_since_restart := 0, bb_entries := 0,
       bb_finished := False, bb_last_key := []\<rparr>"

definition BlockBuilder_ctor :: "nat \<Rightarrow> BlockBuilder" where
  "BlockBuilder_ctor restart_interval =
     bb_reset \<lparr>bb_restart_interval = restart_interval, bb_buffer = [], bb_restarts = [],
       bb_since_restart = 0, bb_entries = 0, bb_finished = False, bb_last_key = []\<rparr>"

definition current_size_estimate :: "BlockBuilder \<Rightarrow> nat" where
  "current_size_estimate b = length (bb_buffer b) + length (bb_restarts b) * 4 + 4"

text \<open>One entry: the three lengths, the unshared part of the key, the value.\<close>

definition entry_bytes :: "nat \<Rightarrow> bytes \<Rightarrow> bytes \<Rightarrow> bytes" where
  "entry_bytes shared key value =
     (let non_shared = length key - shared;
          b1 = put_varint32 [] (word_of_nat shared);
          b2 = put_varint32 b1 (word_of_nat non_shared);
          b3 = put_varint32 b2 (word_of_nat (length value))
      in b3 @ drop shared key @ value)"

definition bb_add :: "BlockBuilder \<Rightarrow> bytes \<Rightarrow> bytes \<Rightarrow> BlockBuilder" where
  "bb_add b key value =
     (let restart = \<not> bb_since_restart b < bb_restart_interval b;
          shared = (if restart then 0 else shared_prefix (bb_last_key b) key);
          b1 = (if restart
                then b\<lparr>bb_restarts := bb_restarts b @ [word_of_nat (length (bb_buffer b))],
                       bb_since_restart := 0\<rparr>
                else b)
      in b1\<lparr>bb_buffer := bb_buffer b1 @ entry_bytes shared key value,
            bb_last_key := key,
            bb_since_restart := bb_since_restart b1 + 1,
            bb_entries := bb_entries b1 + 1\<rparr>)"

definition bb_finish :: "BlockBuilder \<Rightarrow> bytes \<times> BlockBuilder" where
  "bb_finish b =
     (let buf = put_fixed32 (foldl put_fixed32 (bb_buffer b) (bb_restarts b))
                  (word_of_nat (length (bb_restarts b)))
      in (buf, b\<lparr>bb_buffer := buf, bb_finished := True\<rparr>))"

section \<open>Block\<close>

record Block =
  bl_data :: bytes
  bl_size :: nat
  bl_num_restarts :: nat
  bl_restart_offset :: nat

definition Block_ctor :: "bytes \<Rightarrow> Block" where
  "Block_ctor contents =
     (let size = length contents;
          flagged = \<lparr>bl_data = contents, bl_size = 0, bl_num_restarts = 0, bl_restart_offset = 0\<rparr>
      in if size < 4 then flagged
         else let max_restarts = word_of_nat ((size - 4) div 4) :: u32;
                  num_restarts = decode_fixed32 (drop (size - 4) contents)
              in if num_restarts > max_restarts
                 then flagged\<lparr>bl_num_restarts := unat num_restarts\<rparr>
                 else \<lparr>bl_data = contents, bl_size = size, bl_num_restarts = unat num_restarts,
                       bl_restart_offset =
                         unat (word_of_nat (size - unat (1 + num_restarts) * 4) :: u32)\<rparr>)"

text \<open>
  decode\_entry on the bytes between its pointer and the limit: the three lengths
  and what starts at the key delta.
\<close>

definition decode_entry :: "bytes \<Rightarrow> (nat \<times> nat \<times> nat \<times> bytes) option" where
  "decode_entry input =
     (if length input < 3 then None
      else let lengths =
             (if unat (input ! 0 OR input ! 1 OR input ! 2) < 128
              then Some (unat (input ! 0), unat (input ! 1), unat (input ! 2), drop 3 input)
              else case get_varint32 input of
                     None \<Rightarrow> None
                   | Some (shared, i1) \<Rightarrow>
                     (case get_varint32 i1 of
                        None \<Rightarrow> None
                      | Some (non_shared, i2) \<Rightarrow>
                        (case get_varint32 i2 of
                           None \<Rightarrow> None
                         | Some (value_length, i3) \<Rightarrow>
                             Some (unat shared, unat non_shared, unat value_length, i3))))
           in case lengths of
                None \<Rightarrow> None
              | Some (shared, non_shared, value_length, rest) \<Rightarrow>
                  if length rest < non_shared + value_length then None
                  else Some (shared, non_shared, value_length, rest))"

definition restart_point :: "Block \<Rightarrow> nat \<Rightarrow> nat" where
  "restart_point b index = unat (decode_fixed32 (drop (bl_restart_offset b + index * 4) (bl_data b)))"

text \<open>The bytes of the entry region from an offset on: from \<open>p\<close> to the limit.\<close>

definition region :: "Block \<Rightarrow> nat \<Rightarrow> bytes" where
  "region b p = drop p (take (bl_restart_offset b) (bl_data b))"

definition bad_entry :: "string \<Rightarrow> status" where
  "bad_entry what = corruption (''bad block entry: '' @ what)"

text \<open>The binary search shared in shape by Block::find and the iterator's seek.\<close>

function search_restarts ::
    "Comparator \<Rightarrow> string \<Rightarrow> Block \<Rightarrow> bytes \<Rightarrow> nat \<Rightarrow> nat \<Rightarrow> status + nat" where
  "search_restarts c too_short b target left right =
     (if left < right
      then let mid = (left + right + 1) div 2;
               region_offset = restart_point b mid
           in if bl_restart_offset b \<le> region_offset
              then Inl (bad_entry ''restart point lies outside the entry region'')
              else case decode_entry (region b region_offset) of
                     None \<Rightarrow> Inl (bad_entry ''restart point does not begin a key'')
                   | Some (shared, non_shared, value_length, rest) \<Rightarrow>
                       if shared \<noteq> 0
                       then Inl (bad_entry ''restart point does not begin a key'')
                       else if non_shared < min_key_length c
                       then Inl (bad_entry too_short)
                       else if cmp_compare c (take non_shared rest) target < 0
                       then search_restarts c too_short b target mid right
                       else search_restarts c too_short b target left (mid - 1)
      else Inr left)"
  by auto
termination
  by (relation "measure (\<lambda>(_, _, _, _, left, right). right - left)") auto

text \<open>Block::find's walk from a restart point, at offset \<open>p\<close> with the key so far.\<close>

function find_walk ::
    "Comparator \<Rightarrow> Block \<Rightarrow> bytes \<Rightarrow> nat \<Rightarrow> bytes \<Rightarrow> status + (bytes \<times> bytes) option" where
  "find_walk c b target p key =
     (if p < bl_restart_offset b
      then case decode_entry (region b p) of
             None \<Rightarrow> Inl (bad_entry ''entry runs past the end of the block'')
           | Some (shared, non_shared, value_length, rest) \<Rightarrow>
               if length key < shared
               then Inl (bad_entry ''shared prefix longer than the previous key'')
               else let key' = take shared key @ take non_shared rest in
                 if length key' < min_key_length c
                 then Inl (bad_entry ''key is too short for this comparator'')
                 else if 0 \<le> cmp_compare c key' target
                 then Inr (Some (key', take value_length (drop non_shared rest)))
                 else find_walk c b target
                        (p + (length (region b p) - length rest) + non_shared + value_length) key'
      else Inr None)"
  by auto

lemma decode_entry_shorter:
  assumes "decode_entry input = Some (s, n, v, rest)"
  shows "length rest + 3 \<le> length input \<and> n + v \<le> length rest"
proof -
  have "get_varint32 i = Some (x, r) \<Longrightarrow> Suc (length r) \<le> length i" for i x r
    using get_varint32_shorter by fastforce
  then show ?thesis
    using assms unfolding decode_entry_def Let_def
    by (auto split: if_splits option.splits dest!: get_varint32_shorter)
qed

termination find_walk
  by (relation "measure (\<lambda>(_, b, _, p, _). bl_restart_offset b - p)")
    (auto simp: region_def dest!: decode_entry_shorter)

definition Block_find :: "Comparator \<Rightarrow> Block \<Rightarrow> bytes \<Rightarrow> status + (bytes \<times> bytes) option" where
  "Block_find c b target =
     (if bl_size b < 4 then Inl (corruption ''block is too small'')
      else if bl_num_restarts b = 0 then Inr None
      else case search_restarts c ''restart key is too short for this comparator'' b target
                  0 (bl_num_restarts b - 1) of
             Inl s \<Rightarrow> Inl s
           | Inr left \<Rightarrow>
               let start = restart_point b left in
               if bl_restart_offset b < start
               then Inl (bad_entry ''restart point lies outside the entry region'')
               else find_walk c b target start [])"

declare search_restarts.simps [simp del] find_walk.simps [simp del]

section \<open>Block::Iter\<close>

text \<open>
  \<open>bi_value\<close> is the value's offset and length; its offset is \<^term>\<open>None\<close> for the
  null view that corrupted() leaves behind.  \<open>nul\<close> stands for what subtracting the
  block's address from a null pointer gives, narrowed to 32 bits.
\<close>

record BlockIter =
  bi_current :: nat
  bi_restart_index :: nat
  bi_key :: bytes
  bi_value :: "nat option \<times> nat"
  bi_status :: status

definition BlockIter_ctor :: "Block \<Rightarrow> BlockIter" where
  "BlockIter_ctor b =
     \<lparr>bi_current = bl_restart_offset b, bi_restart_index = bl_num_restarts b, bi_key = [],
      bi_value = (None, 0), bi_status = status_ok\<rparr>"

definition bi_valid :: "Block \<Rightarrow> BlockIter \<Rightarrow> bool" where
  "bi_valid b it \<longleftrightarrow> bi_current it < bl_restart_offset b"

definition bi_value_bytes :: "Block \<Rightarrow> BlockIter \<Rightarrow> bytes" where
  "bi_value_bytes b it =
     (case bi_value it of (None, _) \<Rightarrow> [] | (Some off, n) \<Rightarrow> take n (drop off (bl_data b)))"

definition next_entry_offset :: "nat \<Rightarrow> BlockIter \<Rightarrow> nat" where
  "next_entry_offset nul it = (case bi_value it of (None, _) \<Rightarrow> nul | (Some off, n) \<Rightarrow> off + n)"

definition corrupted :: "Block \<Rightarrow> BlockIter \<Rightarrow> string \<Rightarrow> BlockIter" where
  "corrupted b it what =
     it\<lparr>bi_current := bl_restart_offset b, bi_restart_index := bl_num_restarts b,
        bi_status := bad_entry what, bi_key := [], bi_value := (None, 0)\<rparr>"

definition seek_to_restart_point :: "Block \<Rightarrow> BlockIter \<Rightarrow> nat \<Rightarrow> BlockIter" where
  "seek_to_restart_point b it index =
     (let it1 = it\<lparr>bi_key := [], bi_restart_index := index\<rparr>;
          offset = restart_point b index
      in if bl_restart_offset b < offset
         then corrupted b it1 ''restart point lies outside the entry region''
         else it1\<lparr>bi_value := (Some offset, 0)\<rparr>)"

text \<open>Keep the restart index in step with the entry just parsed.\<close>

function advance_restart :: "Block \<Rightarrow> nat \<Rightarrow> nat \<Rightarrow> nat" where
  "advance_restart b next_offset index =
     (if index + 1 < bl_num_restarts b \<and> restart_point b (index + 1) < next_offset
      then advance_restart b next_offset (index + 1)
      else index)"
  by auto
termination
  by (relation "measure (\<lambda>(b, _, index). bl_num_restarts b - index)") auto

declare advance_restart.simps [simp del]

definition parse_next_entry :: "Comparator \<Rightarrow> nat \<Rightarrow> Block \<Rightarrow> BlockIter \<Rightarrow> bool \<times> BlockIter" where
  "parse_next_entry c nul b it =
     (let current = next_entry_offset nul it;
          it1 = it\<lparr>bi_current := current\<rparr>
      in if bl_restart_offset b \<le> current
         then (False, it1\<lparr>bi_current := bl_restart_offset b, bi_restart_index := bl_num_restarts b\<rparr>)
         else case decode_entry (region b current) of
                None \<Rightarrow> (False, corrupted b it1 ''entry runs past the end of the block'')
              | Some (shared, non_shared, value_length, rest) \<Rightarrow>
                  if length (bi_key it) < shared
                  then (False, corrupted b it1 ''shared prefix longer than the previous key'')
                  else let key = take shared (bi_key it) @ take non_shared rest;
                           it2 = it1\<lparr>bi_key := key\<rparr>
                       in if length key < min_key_length c
                          then (False, corrupted b it2 ''key is too short for this comparator'')
                          else let value_off = current + (length (region b current) - length rest) + non_shared;
                                   it3 = it2\<lparr>bi_value := (Some value_off, value_length)\<rparr>
                               in (True, it3\<lparr>bi_restart_index :=
                                     advance_restart b (value_off + value_length) (bi_restart_index it3)\<rparr>))"

lemma next_entry_offset_simps [simp]:
  "next_entry_offset nul (it\<lparr>bi_current := x\<rparr>) = next_entry_offset nul it"
  "next_entry_offset nul (it\<lparr>bi_key := k\<rparr>) = next_entry_offset nul it"
  "next_entry_offset nul (it\<lparr>bi_restart_index := r\<rparr>) = next_entry_offset nul it"
  "next_entry_offset nul (it\<lparr>bi_value := (Some off, n)\<rparr>) = off + n"
  by (simp_all add: next_entry_offset_def)

lemma parse_next_entry_True:
  assumes "parse_next_entry c nul b it = (True, it')"
  obtains s n v rest where
    "decode_entry (region b (next_entry_offset nul it)) = Some (s, n, v, rest)"
    "next_entry_offset nul it < bl_restart_offset b"
    "next_entry_offset nul it' =
       next_entry_offset nul it + (length (region b (next_entry_offset nul it)) - length rest) + n + v"
  using assms by (auto simp: parse_next_entry_def Let_def split: if_splits option.splits)

lemma parse_next_entry_advances:
  assumes "parse_next_entry c nul b it = (True, it')"
  shows "next_entry_offset nul it < next_entry_offset nul it' \<and> next_entry_offset nul it < bl_restart_offset b"
proof (rule parse_next_entry_True [OF assms])
  fix s n v rest
  assume "decode_entry (region b (next_entry_offset nul it)) = Some (s, n, v, rest)"
    "next_entry_offset nul it < bl_restart_offset b"
    "next_entry_offset nul it' =
       next_entry_offset nul it + (length (region b (next_entry_offset nul it)) - length rest) + n + v"
  then show ?thesis using decode_entry_shorter by fastforce
qed

function seek_walk :: "Comparator \<Rightarrow> nat \<Rightarrow> Block \<Rightarrow> bytes \<Rightarrow> BlockIter \<Rightarrow> BlockIter" where
  "seek_walk c nul b target it =
     (case parse_next_entry c nul b it of (found, it') \<Rightarrow>
        if \<not> found then it'
        else if 0 \<le> cmp_compare c (bi_key it') target then it'
        else seek_walk c nul b target it')"
  by auto
termination
  by (relation "measure (\<lambda>(_, nul, b, _, it). bl_restart_offset b - next_entry_offset nul it)")
    (auto dest!: parse_next_entry_advances [OF sym])

definition bi_seek :: "Comparator \<Rightarrow> nat \<Rightarrow> Block \<Rightarrow> BlockIter \<Rightarrow> bytes \<Rightarrow> BlockIter" where
  "bi_seek c nul b it target =
     (case search_restarts c ''key is too short for this comparator'' b target 0
             (if bl_num_restarts b = 0 then 0 else bl_num_restarts b - 1) of
        Inl s \<Rightarrow> (corrupted b it [])\<lparr>bi_status := s\<rparr>
      | Inr left \<Rightarrow> seek_walk c nul b target (seek_to_restart_point b it left))"

definition bi_seek_to_first :: "Comparator \<Rightarrow> nat \<Rightarrow> Block \<Rightarrow> BlockIter \<Rightarrow> BlockIter" where
  "bi_seek_to_first c nul b it = snd (parse_next_entry c nul b (seek_to_restart_point b it 0))"

definition bi_next :: "Comparator \<Rightarrow> nat \<Rightarrow> Block \<Rightarrow> BlockIter \<Rightarrow> BlockIter" where
  "bi_next c nul b it = snd (parse_next_entry c nul b it)"

text \<open>Parse entries until one fails or the next would start at or after \<open>bound\<close>.\<close>

function walk_until :: "Comparator \<Rightarrow> nat \<Rightarrow> Block \<Rightarrow> nat \<Rightarrow> BlockIter \<Rightarrow> BlockIter" where
  "walk_until c nul b bound it =
     (case parse_next_entry c nul b it of (found, it') \<Rightarrow>
        if found \<and> next_entry_offset nul it' < bound then walk_until c nul b bound it' else it')"
  by auto
termination
  by (relation "measure (\<lambda>(_, nul, b, _, it). bl_restart_offset b - next_entry_offset nul it)")
    (auto dest!: parse_next_entry_advances [OF sym])

definition bi_seek_to_last :: "Comparator \<Rightarrow> nat \<Rightarrow> Block \<Rightarrow> BlockIter \<Rightarrow> BlockIter" where
  "bi_seek_to_last c nul b it =
     (if bl_num_restarts b = 0 then it\<lparr>bi_current := bl_restart_offset b\<rparr>
      else walk_until c nul b (bl_restart_offset b)
             (seek_to_restart_point b it (bl_num_restarts b - 1)))"

text \<open>The restart point before an entry, or nothing when the entry is the first.\<close>

fun back_restart :: "Block \<Rightarrow> nat \<Rightarrow> nat \<Rightarrow> nat option" where
  "back_restart b original 0 = (if original \<le> restart_point b 0 then None else Some 0)"
| "back_restart b original (Suc index) =
     (if original \<le> restart_point b (Suc index) then back_restart b original index
      else Some (Suc index))"

definition bi_prev :: "Comparator \<Rightarrow> nat \<Rightarrow> Block \<Rightarrow> BlockIter \<Rightarrow> BlockIter" where
  "bi_prev c nul b it =
     (let original = bi_current it in
      case back_restart b original (bi_restart_index it) of
        None \<Rightarrow> it\<lparr>bi_current := bl_restart_offset b, bi_restart_index := bl_num_restarts b\<rparr>
      | Some index \<Rightarrow> walk_until c nul b original (seek_to_restart_point b it index))"

declare seek_walk.simps [simp del] walk_until.simps [simp del]

end
