(* ===== verification/Block_Props.thy ===== *)
theory Block_Props
  imports Block
begin

text \<open>
  What blocks guarantee: entries decode as they were encoded, a finished block
  holds the entries it was given, lookups and seeks find the first entry at or
  after a key, and the iterator moves over the entries in both directions.
\<close>

section \<open>Decoding one entry\<close>

lemma byte_small_iff: "unat (b :: byte) < 128 \<longleftrightarrow> \<not> bit b 7"
proof
  show "unat b < 128 \<Longrightarrow> \<not> bit b 7" using bit_high_zero [of b 7 7] by simp
  assume "\<not> bit b 7"
  then have "take_bit 7 b = b"
    by (intro bit_word_eqI) (auto simp: bit_simps less_Suc_eq numeral_eq_Suc dest: bit_byte_lt)
  then show "unat b < 128" using unat_take_bit_less [of 7 b] by simp
qed

lemma get_varint32_small: "unat b < 128 \<Longrightarrow> get_varint32 (b # rest) = Some (ucast b, rest)"
proof -
  assume small: "unat b < 128"
  have "get_varint32 (put_varint (ucast b :: u32) @ rest) = Some (ucast b, rest)" by simp
  moreover have "ucast (ucast b :: u32) = b" by (rule bit_word_eqI) (auto simp: bit_simps)
  ultimately show ?thesis using small by (subst (asm) put_varint.simps) simp
qed

text \<open>The reference: three varints, then the bound.\<close>

definition decode_entry_varints :: "bytes \<Rightarrow> (nat \<times> nat \<times> nat \<times> bytes) option" where
  "decode_entry_varints input =
     (case get_varint32 input of
        None \<Rightarrow> None
      | Some (s, i1) \<Rightarrow> (case get_varint32 i1 of
          None \<Rightarrow> None
        | Some (n, i2) \<Rightarrow> (case get_varint32 i2 of
            None \<Rightarrow> None
          | Some (v, i3) \<Rightarrow>
              if length i3 < unat n + unat v then None else Some (unat s, unat n, unat v, i3))))"

lemma decode_entry_varints_length:
  "decode_entry_varints input = Some x \<Longrightarrow> 3 \<le> length input"
  by (auto simp: decode_entry_varints_def split: option.splits if_splits dest!: get_varint32_shorter)

lemma decode_entry_eq: "decode_entry input = decode_entry_varints input"
proof (cases "length input < 3")
  case True
  then show ?thesis
    using decode_entry_varints_length [of input] by (cases "decode_entry_varints input") (auto simp: decode_entry_def)
next
  case False
  then obtain a b d rest where input: "input = a # b # d # rest"
    by (cases input; cases "tl input"; cases "tl (tl input)") auto
  show ?thesis
  proof (cases "unat (a OR b OR d) < 128")
    case True
    then have "unat a < 128" "unat b < 128" "unat d < 128"
      by (auto simp: byte_small_iff bit_or_iff)
    then show ?thesis
      using True by (simp add: input decode_entry_def decode_entry_varints_def get_varint32_small)
  next
    case False
    then show ?thesis
      by (auto simp: input decode_entry_def decode_entry_varints_def split: option.splits)
  qed
qed

lemma decode_entry_bytes:
  assumes "s \<le> length key" "length key < 2 ^ 32" "length value < 2 ^ 32"
  shows "decode_entry (entry_bytes s key value @ rest) =
    Some (s, length key - s, length value, drop s key @ value @ rest)"
  using assms
  by (simp add: decode_entry_eq decode_entry_varints_def entry_bytes_def Let_def put_varint32_def
      del: of_nat_diff)

section \<open>Blocks that hold a list of entries\<close>

text \<open>
  \<open>off i\<close> is the offset of entry \<open>i\<close>, \<open>sh i\<close> the length of the prefix it shares, and
  \<open>ri\<close> the entries that are restart points.
\<close>

definition holds ::
    "Block \<Rightarrow> (bytes \<times> bytes) list \<Rightarrow> (nat \<Rightarrow> nat) \<Rightarrow> (nat \<Rightarrow> nat) \<Rightarrow> nat list \<Rightarrow> bool" where
  "holds b kvs off sh ri \<longleftrightarrow>
     4 \<le> bl_size b \<and> bl_restart_offset b \<le> length (bl_data b) \<and> bl_num_restarts b = length ri \<and>
     off 0 = 0 \<and> off (length kvs) = bl_restart_offset b \<and>
     (\<forall>i < length kvs.
        off (Suc i) = off i + length (entry_bytes (sh i) (fst (kvs ! i)) (snd (kvs ! i))) \<and>
        region b (off i) = entry_bytes (sh i) (fst (kvs ! i)) (snd (kvs ! i)) @ region b (off (Suc i)) \<and>
        sh i \<le> length (fst (kvs ! i)) \<and>
        length (fst (kvs ! i)) < 2 ^ 32 \<and> length (snd (kvs ! i)) < 2 ^ 32) \<and>
     (\<forall>i. Suc i < length kvs \<longrightarrow>
        sh (Suc i) \<le> length (fst (kvs ! i)) \<and>
        take (sh (Suc i)) (fst (kvs ! i)) = take (sh (Suc i)) (fst (kvs ! Suc i))) \<and>
     ri \<noteq> [] \<and> ri ! 0 = 0 \<and> sorted_wrt (<) ri \<and>
     (\<forall>j < length ri. restart_point b j = off (ri ! j) \<and> sh (ri ! j) = 0 \<and>
        (0 < j \<longrightarrow> ri ! j < length kvs))"

definition ordered :: "Comparator \<Rightarrow> (bytes \<times> bytes) list \<Rightarrow> bool" where
  "ordered c kvs \<longleftrightarrow> sorted_wrt (\<lambda>x y. cmp_compare c (fst x) (fst y) < 0) kvs \<and>
     (\<forall>x \<in> set kvs. readable c (fst x))"

text \<open>The key an entry is decoded against agrees with it on the shared prefix.\<close>

definition fits :: "(bytes \<times> bytes) list \<Rightarrow> (nat \<Rightarrow> nat) \<Rightarrow> nat \<Rightarrow> bytes \<Rightarrow> bool" where
  "fits kvs sh i key \<longleftrightarrow>
     (i < length kvs \<longrightarrow> sh i \<le> length key \<and> take (sh i) key = take (sh i) (fst (kvs ! i)))"

lemma entry_bytes_pos: "0 < length (entry_bytes s k v)"
  by (simp add: entry_bytes_def Let_def put_varint32_def)

lemma off_Suc: "holds b kvs off sh ri \<Longrightarrow> i < length kvs \<Longrightarrow> off i < off (Suc i)"
  using entry_bytes_pos by (simp add: holds_def)

lemma off_mono:
  assumes "holds b kvs off sh ri" "i < j" "j \<le> length kvs"
  shows "off i < off j"
  using assms(2,3)
proof (induction j)
  case (Suc j)
  then show ?case using off_Suc [OF assms(1), of j] by (cases "i = j") (auto intro: less_trans)
qed simp

lemma off_less_iff:
  assumes "holds b kvs off sh ri" "i \<le> length kvs" "j \<le> length kvs"
  shows "off i < off j \<longleftrightarrow> i < j"
  using off_mono [OF assms(1), of i j] off_mono [OF assms(1), of j i] assms(2,3)
  by (metis less_asym linorder_neqE_nat less_irrefl_nat)

lemma off_le_iff:
  "holds b kvs off sh ri \<Longrightarrow> i \<le> length kvs \<Longrightarrow> j \<le> length kvs \<Longrightarrow> off i \<le> off j \<longleftrightarrow> i \<le> j"
  using off_less_iff [of b kvs off sh ri j i] by (simp add: not_less [symmetric])

lemma decode_at:
  assumes "holds b kvs off sh ri" "i < length kvs"
  shows "decode_entry (region b (off i)) =
      Some (sh i, length (fst (kvs ! i)) - sh i, length (snd (kvs ! i)),
            drop (sh i) (fst (kvs ! i)) @ snd (kvs ! i) @ region b (off (Suc i)))"
    "off i < bl_restart_offset b"
proof -
  have "region b (off i) = entry_bytes (sh i) (fst (kvs ! i)) (snd (kvs ! i)) @ region b (off (Suc i))"
    "sh i \<le> length (fst (kvs ! i))" "length (fst (kvs ! i)) < 2 ^ 32" "length (snd (kvs ! i)) < 2 ^ 32"
    using assms by (auto simp: holds_def)
  then show "decode_entry (region b (off i)) =
      Some (sh i, length (fst (kvs ! i)) - sh i, length (snd (kvs ! i)),
            drop (sh i) (fst (kvs ! i)) @ snd (kvs ! i) @ region b (off (Suc i)))"
    using decode_entry_bytes by metis
  show "off i < bl_restart_offset b"
    using off_mono [OF assms(1) assms(2)] assms(1) by (simp add: holds_def)
qed

text \<open>Where the key delta starts, and where the next entry starts.\<close>

lemma decode_offset:
  assumes "holds b kvs off sh ri" "i < length kvs"
  shows "off i + (length (region b (off i)) -
      length (drop (sh i) (fst (kvs ! i)) @ snd (kvs ! i) @ region b (off (Suc i)))) +
      (length (fst (kvs ! i)) - sh i) + length (snd (kvs ! i)) = off (Suc i)"
proof -
  let ?e = "entry_bytes (sh i) (fst (kvs ! i)) (snd (kvs ! i))"
  have "off (Suc i) = off i + length ?e" "region b (off i) = ?e @ region b (off (Suc i))"
    "sh i \<le> length (fst (kvs ! i))"
    using assms by (auto simp: holds_def)
  moreover have "length (fst (kvs ! i)) - sh i + length (snd (kvs ! i)) \<le> length ?e"
    by (simp add: entry_bytes_def Let_def put_varint32_def)
  ultimately show ?thesis by simp
qed

lemma key_at:
  assumes "holds b kvs off sh ri" "i < length kvs" "fits kvs sh i key"
  shows "take (sh i) key @ take (length (fst (kvs ! i)) - sh i)
      (drop (sh i) (fst (kvs ! i)) @ snd (kvs ! i) @ region b (off (Suc i))) = fst (kvs ! i)"
  using assms by (simp add: fits_def holds_def)

lemma fits_next: "holds b kvs off sh ri \<Longrightarrow> i < length kvs \<Longrightarrow> fits kvs sh (Suc i) (fst (kvs ! i))"
  by (auto simp: fits_def holds_def)

lemma fits_restart: "holds b kvs off sh ri \<Longrightarrow> j < length ri \<Longrightarrow> fits kvs sh (ri ! j) key"
  by (auto simp: fits_def holds_def)

section \<open>Lookup\<close>

text \<open>The first entry at or after a key.\<close>

definition first_at :: "Comparator \<Rightarrow> bytes \<Rightarrow> (bytes \<times> bytes) list \<Rightarrow> (bytes \<times> bytes) option" where
  "first_at c target kvs = find (\<lambda>x. \<not> cmp_compare c (fst x) target < 0) kvs"

lemma find_walk_holds:
  assumes h: "holds b kvs off sh ri" and rd: "\<forall>x \<in> set kvs. readable c (fst x)"
    and "i \<le> length kvs" "fits kvs sh i key"
  shows "find_walk c b target (off i) key = Inr (first_at c target (drop i kvs))"
  using assms(3,4)
proof (induction "length kvs - i" arbitrary: i key)
  case 0
  then have "i = length kvs" by simp
  then show ?case using h by (subst find_walk.simps) (simp add: first_at_def holds_def)
next
  case (Suc n)
  then have i: "i < length kvs" by simp
  note dec = decode_at [OF h i] and key = key_at [OF h i Suc.prems(2)]
  have len: "sh i \<le> length key" "min_key_length c \<le> length (fst (kvs ! i))"
    using Suc.prems(2) i rd by (auto simp: fits_def readable_def)
  have IH: "find_walk c b target (off (Suc i)) (fst (kvs ! i)) = Inr (first_at c target (drop (Suc i) kvs))"
    using Suc.hyps i fits_next [OF h i] by simp
  have drop: "drop i kvs = kvs ! i # drop (Suc i) kvs" using i by (simp add: Cons_nth_drop_Suc)
  show ?case
  proof (cases "cmp_compare c (fst (kvs ! i)) target < 0")
    case True
    have "find_walk c b target (off i) key = find_walk c b target (off (Suc i)) (fst (kvs ! i))"
      unfolding find_walk.simps [of c b target "off i" key] dec(1) option.case prod.case key Let_def
        decode_offset [OF h i]
      using dec(2) len True by simp
    then show ?thesis using IH True by (simp add: drop first_at_def)
  next
    case False
    then show ?thesis
      using dec len key by (subst find_walk.simps) (simp add: drop first_at_def Let_def)
  qed
qed

lemma search_restarts_holds:
  assumes h: "holds b kvs off sh ri" and rd: "\<forall>x \<in> set kvs. readable c (fst x)"
    and "left \<le> right" "right < length ri"
    and "left = 0 \<or> cmp_compare c (fst (kvs ! (ri ! left))) target < 0"
  shows "\<exists>l < length ri. search_restarts c msg b target left right = Inr l \<and>
    (l = 0 \<or> cmp_compare c (fst (kvs ! (ri ! l))) target < 0)"
  using assms(3-5)
proof (induction "right - left" arbitrary: left right rule: less_induct)
  case less
  show ?case
  proof (cases "left < right")
    case False
    then show ?thesis using less.prems by (subst search_restarts.simps) auto
  next
    case True
    let ?m = "(left + right + 1) div 2"
    let ?k = "fst (kvs ! (ri ! ?m))"
    have m: "left < ?m" "?m \<le> right" using True by auto
    then have mi: "?m < length ri" "0 < ?m" using less.prems by auto
    have ri: "restart_point b ?m = off (ri ! ?m)" "ri ! ?m < length kvs" "sh (ri ! ?m) = 0"
      using h mi by (auto simp: holds_def)
    note dec = decode_at [OF h ri(2), unfolded ri(3)]
    have len: "min_key_length c \<le> length ?k" using rd ri(2) by (auto simp: readable_def)
    have step: "search_restarts c msg b target left right =
        (if cmp_compare c ?k target < 0 then search_restarts c msg b target ?m right
         else search_restarts c msg b target left (?m - 1))"
      using True dec len ri(1) by (subst search_restarts.simps) (simp add: Let_def)
    show ?thesis
    proof (cases "cmp_compare c ?k target < 0")
      case True
      then show ?thesis using step less.hyps [of right ?m] less.prems m by auto
    next
      case False
      then show ?thesis using step less.hyps [of "?m - 1" left] less.prems m by auto
    qed
  qed
qed

lemma find_skip: "\<forall>x \<in> set xs. \<not> P x \<Longrightarrow> find P (xs @ ys) = find P ys"
  by (induction xs) auto

lemma first_at_drop:
  "\<forall>x \<in> set (take i kvs). cmp_compare c (fst x) target < 0 \<Longrightarrow> first_at c target (drop i kvs) = first_at c target kvs"
  using find_skip [of "take i kvs" "\<lambda>x. \<not> cmp_compare c (fst x) target < 0" "drop i kvs"]
  by (simp add: first_at_def)

context key_order
begin

lemma before_restart:
  assumes "ordered c kvs" "i < length kvs" "cmp_compare c (fst (kvs ! i)) target < 0"
  shows "\<forall>x \<in> set (take i kvs). cmp_compare c (fst x) target < 0"
proof
  fix x assume "x \<in> set (take i kvs)"
  then obtain j where j: "j < i" "x = kvs ! j" using assms(2) by (auto simp: in_set_conv_nth)
  then have "cmp_compare c (fst (kvs ! j)) (fst (kvs ! i)) < 0"
    using assms(1,2) by (simp add: ordered_def sorted_wrt_iff_nth_less)
  then show "cmp_compare c (fst x) target < 0" using assms(3) j cmp_trans by blast
qed

lemma Block_find_holds:
  assumes h: "holds b kvs off sh ri" and o: "ordered c kvs"
  shows "Block_find c b target = Inr (first_at c target kvs)"
proof -
  have rd: "\<forall>x \<in> set kvs. readable c (fst x)" using o by (simp add: ordered_def)
  have b: "4 \<le> bl_size b" "bl_num_restarts b = length ri" "ri \<noteq> []" "ri ! 0 = 0" using h by (auto simp: holds_def)
  obtain l where l: "l < length ri"
      "search_restarts c ''restart key is too short for this comparator'' b target 0 (length ri - 1) = Inr l"
      "l = 0 \<or> cmp_compare c (fst (kvs ! (ri ! l))) target < 0"
    using search_restarts_holds [OF h rd, of 0 "length ri - 1"] b by auto
  have ril: "restart_point b l = off (ri ! l)" "ri ! l \<le> length kvs"
    using h l(1) b(4) by (cases "l = 0"; auto simp: holds_def)+
  have "\<forall>x \<in> set (take (ri ! l) kvs). cmp_compare c (fst x) target < 0"
  proof (cases "l = 0")
    case False
    then have "ri ! l < length kvs" using h l(1) by (simp add: holds_def)
    then show ?thesis using before_restart [OF o] False l(3) by blast
  qed (use b in simp)
  then have "first_at c target (drop (ri ! l) kvs) = first_at c target kvs" by (rule first_at_drop)
  moreover have "find_walk c b target (off (ri ! l)) [] = Inr (first_at c target (drop (ri ! l) kvs))"
    by (rule find_walk_holds [OF h rd ril(2) fits_restart [OF h l(1)]])
  moreover have "off (ri ! l) \<le> bl_restart_offset b"
    using off_le_iff [OF h ril(2), of "length kvs"] ril(2) h by (simp add: holds_def)
  ultimately show ?thesis using b l(2) ril(1) by (simp add: Block_find_def Let_def)
qed

end

section \<open>The builder\<close>

lemma shared_prefix_props:
  "shared_prefix a b \<le> length a \<and> shared_prefix a b \<le> length b \<and>
   take (shared_prefix a b) a = take (shared_prefix a b) b"
  by (induction a b rule: shared_prefix.induct) auto

definition builds ::
    "BlockBuilder \<Rightarrow> (bytes \<times> bytes) list \<Rightarrow> (nat \<Rightarrow> nat) \<Rightarrow> (nat \<Rightarrow> nat) \<Rightarrow> nat list \<Rightarrow> bool" where
  "builds b kvs off sh ri \<longleftrightarrow>
     off 0 = 0 \<and> off (length kvs) = length (bb_buffer b) \<and>
     (\<forall>i < length kvs.
        off (Suc i) = off i + length (entry_bytes (sh i) (fst (kvs ! i)) (snd (kvs ! i))) \<and>
        off (Suc i) \<le> length (bb_buffer b) \<and>
        drop (off i) (bb_buffer b) =
          entry_bytes (sh i) (fst (kvs ! i)) (snd (kvs ! i)) @ drop (off (Suc i)) (bb_buffer b) \<and>
        sh i \<le> length (fst (kvs ! i))) \<and>
     (\<forall>i. Suc i < length kvs \<longrightarrow>
        sh (Suc i) \<le> length (fst (kvs ! i)) \<and>
        take (sh (Suc i)) (fst (kvs ! i)) = take (sh (Suc i)) (fst (kvs ! Suc i))) \<and>
     ri \<noteq> [] \<and> ri ! 0 = 0 \<and> sorted_wrt (<) ri \<and>
     (\<forall>j < length ri. (0 < j \<longrightarrow> ri ! j < length kvs) \<and> sh (ri ! j) = 0) \<and>
     bb_restarts b = map (\<lambda>i. word_of_nat (off i)) ri \<and>
     bb_last_key b = (if kvs = [] then [] else fst (last kvs)) \<and>
     (kvs = [] \<longrightarrow> bb_since_restart b = 0)"

lemma builds_ctor: "builds (BlockBuilder_ctor n) [] (\<lambda>_. 0) (\<lambda>_. 0) [0]"
  by (simp add: builds_def BlockBuilder_ctor_def bb_reset_def)

lemma map_restart:
  "map f ri = rs \<Longrightarrow> f n = x \<Longrightarrow> rs' = rs @ (if r then [x] else []) \<Longrightarrow>
   rs' = map f (if r then ri @ [n] else ri)"
  by simp

lemma builds_sorted_snoc: "sorted_wrt (<) ri \<Longrightarrow> \<forall>j < length ri. ri ! j < (n :: nat) \<Longrightarrow> sorted_wrt (<) (ri @ [n])"
  by (auto simp: sorted_wrt_append in_set_conv_nth)

lemma builds_off_le:
  "builds b kvs off sh ri \<Longrightarrow> i \<le> length kvs \<Longrightarrow> off i \<le> length (bb_buffer b)"
  unfolding builds_def by (cases i) (metis le0, metis Suc_le_lessD)

lemma builds_add:
  assumes inv: "builds b kvs off sh ri" and int: "1 \<le> bb_restart_interval b"
  shows "\<exists>off' sh' ri'. builds (bb_add b key value) (kvs @ [(key, value)]) off' sh' ri'"
proof -
  let ?n = "length kvs"
  let ?restart = "\<not> bb_since_restart b < bb_restart_interval b"
  let ?s = "if ?restart then 0 else shared_prefix (bb_last_key b) key"
  let ?e = "entry_bytes ?s key value"
  let ?off = "off(Suc ?n := off ?n + length ?e)" and ?sh = "sh(?n := ?s)"
  let ?ri = "if ?restart then ri @ [?n] else ri"
  have buf: "bb_buffer (bb_add b key value) = bb_buffer b @ ?e"
    and last: "bb_last_key (bb_add b key value) = key"
    by (auto simp: bb_add_def Let_def)
  have pos: "?restart \<Longrightarrow> kvs \<noteq> []" using inv int by (auto simp: builds_def)
  have old: "off 0 = 0" "off ?n = length (bb_buffer b)" "ri \<noteq> []" "ri ! 0 = 0" "sorted_wrt (<) ri"
    using inv by (simp_all add: builds_def)
  note offle = builds_off_le [OF inv]
  have s: "?s \<le> length key" "kvs \<noteq> [] \<Longrightarrow> ?s \<le> length (fst (last kvs))"
      "kvs \<noteq> [] \<Longrightarrow> take ?s (fst (last kvs)) = take ?s key"
    using shared_prefix_props [of "bb_last_key b" key] inv by (auto simp: builds_def)
  have s0: "kvs = [] \<Longrightarrow> ?s = 0"
    using shared_prefix_props [of "bb_last_key b" key] inv by (auto simp: builds_def)
  have entries: "\<forall>i < length (kvs @ [(key, value)]).
        ?off (Suc i) = ?off i + length (entry_bytes (?sh i) (fst ((kvs @ [(key, value)]) ! i)) (snd ((kvs @ [(key, value)]) ! i))) \<and>
        ?off (Suc i) \<le> length (bb_buffer b @ ?e) \<and>
        drop (?off i) (bb_buffer b @ ?e) =
          entry_bytes (?sh i) (fst ((kvs @ [(key, value)]) ! i)) (snd ((kvs @ [(key, value)]) ! i)) @ drop (?off (Suc i)) (bb_buffer b @ ?e) \<and>
        ?sh i \<le> length (fst ((kvs @ [(key, value)]) ! i))"
  proof (intro allI impI)
    fix i assume "i < length (kvs @ [(key, value)])"
    then consider "i < ?n" | "i = ?n" by fastforce
    then show "?off (Suc i) = ?off i + length (entry_bytes (?sh i) (fst ((kvs @ [(key, value)]) ! i)) (snd ((kvs @ [(key, value)]) ! i))) \<and>
        ?off (Suc i) \<le> length (bb_buffer b @ ?e) \<and>
        drop (?off i) (bb_buffer b @ ?e) =
          entry_bytes (?sh i) (fst ((kvs @ [(key, value)]) ! i)) (snd ((kvs @ [(key, value)]) ! i)) @ drop (?off (Suc i)) (bb_buffer b @ ?e) \<and>
        ?sh i \<le> length (fst ((kvs @ [(key, value)]) ! i))"
    proof cases
      case 1
      then show ?thesis
        using inv offle [of i] offle [of "Suc i"] by (auto simp: builds_def nth_append)
    next
      case 2
      then show ?thesis using old s(1) by (simp del: fun_upd_apply add: fun_upd_def)
    qed
  qed
  have shs: "\<forall>i. Suc i < length (kvs @ [(key, value)]) \<longrightarrow>
        ?sh (Suc i) \<le> length (fst ((kvs @ [(key, value)]) ! i)) \<and>
        take (?sh (Suc i)) (fst ((kvs @ [(key, value)]) ! i)) = take (?sh (Suc i)) (fst ((kvs @ [(key, value)]) ! Suc i))"
  proof (intro allI impI)
    fix i assume "Suc i < length (kvs @ [(key, value)])"
    then consider "Suc i < ?n" | "Suc i = ?n" by fastforce
    then show "?sh (Suc i) \<le> length (fst ((kvs @ [(key, value)]) ! i)) \<and>
        take (?sh (Suc i)) (fst ((kvs @ [(key, value)]) ! i)) = take (?sh (Suc i)) (fst ((kvs @ [(key, value)]) ! Suc i))"
    proof cases
      case 1
      then show ?thesis using inv by (auto simp: builds_def nth_append)
    next
      case 2
      then have "kvs \<noteq> []" "last kvs = kvs ! i" by (auto, metis diff_Suc_1 last_conv_nth list.size(3) nat.distinct(1))
      then show ?thesis using 2 s(2,3) by (simp add: nth_append)
    qed
  qed
  have rio: "(0 < j \<longrightarrow> ri ! j < ?n) \<and> sh (ri ! j) = 0" if "j < length ri" for j
    using inv that by (simp add: builds_def)
  have rilt: "\<forall>j < length ri. ri ! j < ?n" if "kvs \<noteq> []"
    using rio old(4) that by (metis length_greater_0_conv neq0_conv)
  have rist: "?ri \<noteq> []" "?ri ! 0 = 0" "sorted_wrt (<) ?ri"
    using old builds_sorted_snoc [OF old(5)] rilt pos by (auto simp: nth_append)
  have rin: "kvs = []" if "j < length ri" "ri ! j = ?n" for j
    using rio [OF that(1)] old(4) that(2) by (cases "j = 0") auto
  have riz: "\<forall>j < length ?ri. (0 < j \<longrightarrow> ?ri ! j < Suc ?n) \<and> ?sh (?ri ! j) = 0"
  proof (intro allI impI)
    fix j assume j: "j < length ?ri"
    show "(0 < j \<longrightarrow> ?ri ! j < Suc ?n) \<and> ?sh (?ri ! j) = 0"
    proof (cases "j < length ri")
      case True
      then show ?thesis using rio [OF True] rin [OF True] s0 by (auto simp: nth_append)
    next
      case False
      then show ?thesis using j by (auto simp: nth_append split: if_splits)
    qed
  qed
  have "x \<noteq> Suc ?n" if "x \<in> set ri" for x
    using that rio old(4) by (auto simp: in_set_conv_nth) (metis bot_nat_0.not_eq_extremum less_Suc_eq less_irrefl_nat nat.distinct(1))
  then have "map (\<lambda>i. word_of_nat (?off i)) ri = bb_restarts b"
    using inv by (auto simp: builds_def)
  then have res: "bb_restarts (bb_add b key value) = map (\<lambda>i. word_of_nat (?off i)) ?ri"
    by (rule map_restart) (use old(2) in \<open>auto simp: bb_add_def Let_def\<close>)
  have riz': "\<forall>j < length ?ri. (0 < j \<longrightarrow> ?ri ! j < length (kvs @ [(key, value)])) \<and> ?sh (?ri ! j) = 0"
    using riz by simp
  have ends: "?off 0 = 0" "?off (length (kvs @ [(key, value)])) = length (bb_buffer b @ ?e)"
    using old by simp_all
  have "builds (bb_add b key value) (kvs @ [(key, value)]) ?off ?sh ?ri"
    unfolding builds_def buf last by (intro conjI ends entries shs rist riz' res) simp_all
  then show ?thesis by blast
qed

text \<open>A builder given a list of entries, and the finished block.\<close>

definition bb_adds :: "BlockBuilder \<Rightarrow> (bytes \<times> bytes) list \<Rightarrow> BlockBuilder" where
  "bb_adds = foldl (\<lambda>b (key, value). bb_add b key value)"

definition build_block :: "nat \<Rightarrow> (bytes \<times> bytes) list \<Rightarrow> bytes" where
  "build_block interval kvs = fst (bb_finish (bb_adds (BlockBuilder_ctor interval) kvs))"

lemma bb_adds_snoc: "bb_adds b (kvs @ [(k, v)]) = bb_add (bb_adds b kvs) k v"
  by (simp add: bb_adds_def)

lemma bb_adds_interval [simp]: "bb_restart_interval (bb_adds b kvs) = bb_restart_interval b"
proof (induction kvs rule: rev_induct)
  case (snoc x xs)
  then show ?case by (cases x) (simp add: bb_adds_snoc bb_add_def Let_def)
qed (simp add: bb_adds_def)

lemma builds_adds:
  assumes "1 \<le> interval"
  shows "\<exists>off sh ri. builds (bb_adds (BlockBuilder_ctor interval) kvs) kvs off sh ri"
proof (induction kvs rule: rev_induct)
  case Nil
  show ?case using builds_ctor by (auto simp: bb_adds_def)
next
  case (snoc x kvs)
  then obtain off sh ri where inv: "builds (bb_adds (BlockBuilder_ctor interval) kvs) kvs off sh ri"
    by blast
  have "1 \<le> bb_restart_interval (bb_adds (BlockBuilder_ctor interval) kvs)"
    using assms by (simp add: BlockBuilder_ctor_def bb_reset_def)
  from builds_add [OF inv this] show ?case by (cases x) (simp add: bb_adds_snoc)
qed

lemma bb_finish_bytes:
  "fst (bb_finish b) = bb_buffer b @ concat (map encode_fixed32 (bb_restarts b)) @
     encode_fixed32 (word_of_nat (length (bb_restarts b)))"
  by (simp add: bb_finish_def Let_def foldl_put_fixed32 put_fixed32_def)

lemma word_of_nat_not_less: "a \<le> b \<Longrightarrow> b < 2 ^ 32 \<Longrightarrow> \<not> (word_of_nat b :: u32) < word_of_nat a"
  by (simp add: word_less_nat_alt)

lemma unat_Suc_u32: "r < 4294967290 \<Longrightarrow> unat (1 + word_of_nat r :: u32) = Suc r"
  using unat_word_of_nat_small [where 'a = 32, of "Suc r"] by simp

lemma Block_ctor_eq:
  assumes "decode_fixed32 (drop (n + 4 * r) f) = word_of_nat r"
    and size: "length f = n + 4 * r + 4" and small: "n + 4 * r + 4 < 2 ^ 32"
  shows "Block_ctor f =
    \<lparr>bl_data = f, bl_size = length f, bl_num_restarts = r, bl_restart_offset = n\<rparr>"
proof -
  have "\<not> (word_of_nat ((n + 4 * r) div 4) :: u32) < word_of_nat r"
    by (rule word_of_nat_not_less) (use small in simp_all)
  moreover have "unat (1 + word_of_nat r :: u32) = Suc r"
    by (rule unat_Suc_u32) (use small in simp)
  moreover have "unat (word_of_nat r :: u32) = r" "unat (word_of_nat n :: u32) = n"
      "length f - 4 = n + 4 * r" "length f - Suc r * 4 = n" "\<not> length f < 4"
    using small size by simp_all
  ultimately show ?thesis
    using assms(1) unfolding Block_ctor_def Let_def by (simp only: if_False size Block.simps)
qed

lemma Block_ctor_finish:
  assumes "length (fst (bb_finish b)) < 2 ^ 32"
  shows "Block_ctor (fst (bb_finish b)) =
    \<lparr>bl_data = fst (bb_finish b), bl_size = length (fst (bb_finish b)),
     bl_num_restarts = length (bb_restarts b), bl_restart_offset = length (bb_buffer b)\<rparr>"
proof -
  let ?r = "length (bb_restarts b)" and ?n = "length (bb_buffer b)"
  have size: "length (fst (bb_finish b)) = ?n + 4 * ?r + 4" by (simp add: bb_finish_bytes)
  have "drop (?n + 4 * ?r) (fst (bb_finish b)) = encode_fixed32 (word_of_nat ?r)"
    by (simp add: bb_finish_bytes)
  then have "decode_fixed32 (drop (?n + 4 * ?r) (fst (bb_finish b))) = word_of_nat ?r"
    by (metis append_Nil2 decode_encode_fixed32)
  then show ?thesis by (rule Block_ctor_eq [OF _ size]) (use assms size in simp)
qed

lemma builds_restart_le:
  "builds b kvs off sh ri \<Longrightarrow> j < length ri \<Longrightarrow> ri ! j \<le> length kvs"
  unfolding builds_def by (cases j) (metis le0, metis less_imp_le_nat zero_less_Suc)

lemma entry_bytes_length:
  "length k \<le> s + length (entry_bytes s k v)" "length v \<le> length (entry_bytes s k v)"
  by (simp_all add: entry_bytes_def Let_def put_varint32_def)

lemma builds_key_length:
  assumes inv: "builds b kvs off sh ri" and "i < length kvs"
  shows "length (fst (kvs ! i)) \<le> off (Suc i)"
  using assms(2)
proof (induction i)
  case 0
  have "sh 0 = 0" using inv unfolding builds_def by (metis length_greater_0_conv)
  then show ?case
    using inv 0 entry_bytes_length(1) [of "fst (kvs ! 0)" 0 "snd (kvs ! 0)"] by (simp add: builds_def)
next
  case (Suc i)
  then have "sh (Suc i) \<le> off (Suc i)" using inv by (auto simp: builds_def intro: order_trans)
  then show ?case
    using inv Suc entry_bytes_length(1) [of "fst (kvs ! Suc i)" "sh (Suc i)" "snd (kvs ! Suc i)"]
    by (simp add: builds_def)
qed

lemma builds_lengths:
  assumes inv: "builds b kvs off sh ri" and i: "i < length kvs"
  shows "length (fst (kvs ! i)) \<le> length (bb_buffer b) \<and> length (snd (kvs ! i)) \<le> length (bb_buffer b)"
proof -
  have "off (Suc i) \<le> length (bb_buffer b)" using builds_off_le [OF inv] i by simp
  moreover have "off (Suc i) = off i + length (entry_bytes (sh i) (fst (kvs ! i)) (snd (kvs ! i)))"
    using inv i by (simp add: builds_def)
  ultimately show ?thesis
    using builds_key_length [OF inv i] entry_bytes_length(2) [of "snd (kvs ! i)" "sh i" "fst (kvs ! i)"]
    by linarith
qed

text \<open>A finished block of less than 4 GiB holds the entries it was given.\<close>

lemma finish_holds:
  assumes inv: "builds b kvs off sh ri" and small: "length (fst (bb_finish b)) < 2 ^ 32"
  shows "holds (Block_ctor (fst (bb_finish b))) kvs off sh ri"
proof -
  let ?b = "Block_ctor (fst (bb_finish b))"
  note ctor = Block_ctor_finish [OF small]
  have buf: "take (length (bb_buffer b)) (fst (bb_finish b)) = bb_buffer b"
    by (simp add: bb_finish_bytes)
  have region: "region ?b p = drop p (bb_buffer b)" for p by (simp add: region_def ctor buf)
  have len: "length (bb_buffer b) < 2 ^ 32" using small by (simp add: bb_finish_bytes)
  have rs: "length (bb_restarts b) = length ri" using inv by (simp add: builds_def)
  have lens: "length (fst (kvs ! i)) < 2 ^ 32 \<and> length (snd (kvs ! i)) < 2 ^ 32" if "i < length kvs" for i
    using builds_lengths [OF inv that] len by linarith
  have restart: "restart_point ?b j = off (ri ! j)" if "j < length ri" for j
  proof -
    have "decode_fixed32 (drop (length (bb_buffer b) + j * 4) (fst (bb_finish b))) = bb_restarts b ! j"
      unfolding bb_finish_bytes by (rule decode_array32) (use that rs in simp)
    then have "restart_point ?b j = unat (bb_restarts b ! j)" unfolding restart_point_def ctor by simp
    moreover have "off (ri ! j) \<le> length (bb_buffer b)"
      by (rule builds_off_le [OF inv]) (use builds_restart_le [OF inv that] in simp)
    ultimately show ?thesis using inv that len by (simp add: builds_def)
  qed
  have size: "4 \<le> length (fst (bb_finish b))" "length (bb_buffer b) \<le> length (fst (bb_finish b))"
    by (simp_all add: bb_finish_bytes)
  then have bl: "4 \<le> bl_size ?b" "bl_restart_offset ?b = length (bb_buffer b)"
      "length (bb_buffer b) \<le> length (bl_data ?b)" "bl_num_restarts ?b = length ri"
    unfolding ctor using rs by simp_all
  show ?thesis
    using inv unfolding holds_def region bl(2) builds_def
    by (elim conjE, intro conjI) (use bl restart lens in auto)
qed

end
