(* ===== verification/Block_Iter.thy ===== *)
theory Block_Iter
  imports Block_Props
begin

text \<open>
  The block iterator refines a cursor into the list of entries: every positioning
  operation moves it to the entry the operation names, in both directions, and no
  operation on a well-formed block reports damage.
\<close>

section \<open>Positions\<close>

text \<open>About to parse entry \<open>i\<close>; standing on entry \<open>i\<close>, or past the last one.\<close>

definition ready_at ::
    "(bytes \<times> bytes) list \<Rightarrow> (nat \<Rightarrow> nat) \<Rightarrow> (nat \<Rightarrow> nat) \<Rightarrow> nat list \<Rightarrow> BlockIter \<Rightarrow> nat \<Rightarrow> bool" where
  "ready_at kvs off sh ri it i \<longleftrightarrow>
     i \<le> length kvs \<and> (\<exists>p l. bi_value it = (Some p, l) \<and> p + l = off i) \<and>
     fits kvs sh i (bi_key it) \<and> bi_status it = status_ok \<and> bi_restart_index it < length ri"

definition points_at ::
    "Block \<Rightarrow> (bytes \<times> bytes) list \<Rightarrow> (nat \<Rightarrow> nat) \<Rightarrow> nat list \<Rightarrow> BlockIter \<Rightarrow> nat \<Rightarrow> bool" where
  "points_at b kvs off ri it i \<longleftrightarrow>
     bi_status it = status_ok \<and>
     (if i < length kvs
      then bi_current it = off i \<and> bi_key it = fst (kvs ! i) \<and> bi_value_bytes b it = snd (kvs ! i) \<and>
           (\<exists>p l. bi_value it = (Some p, l) \<and> p + l = off (Suc i)) \<and> bi_restart_index it < length ri
      else bi_current it = bl_restart_offset b)"

lemma points_ready:
  "holds b kvs off sh ri \<Longrightarrow> points_at b kvs off ri it i \<Longrightarrow> i < length kvs \<Longrightarrow>
   ready_at kvs off sh ri it (Suc i)"
  by (auto simp: points_at_def ready_at_def fits_next)

lemma advance_restart_bound:
  "i < bl_num_restarts b \<Longrightarrow> advance_restart b x i < bl_num_restarts b"
proof (induction b x i rule: advance_restart.induct)
  case (1 b x i)
  then show ?case by (subst advance_restart.simps) auto
qed

lemma value_at:
  assumes h: "holds b kvs off sh ri" and i: "i < length kvs"
  shows "take (length (snd (kvs ! i))) (drop (off (Suc i) - length (snd (kvs ! i))) (bl_data b)) = snd (kvs ! i)"
proof -
  let ?k = "fst (kvs ! i)" and ?v = "snd (kvs ! i)"
  have e: "region b (off i) = entry_bytes (sh i) ?k ?v @ region b (off (Suc i))"
      "off (Suc i) = off i + length (entry_bytes (sh i) ?k ?v)"
    using h i by (auto simp: holds_def)
  obtain pre where pre: "entry_bytes (sh i) ?k ?v = pre @ ?v"
    by (simp add: entry_bytes_def Let_def)
  have "drop (off (Suc i) - length ?v) (take (bl_restart_offset b) (bl_data b)) = drop (length pre) (region b (off i))"
    using e(2) by (simp add: region_def pre add.commute)
  also have "\<dots> = ?v @ region b (off (Suc i))" by (simp add: e(1) pre)
  finally have d: "drop (off (Suc i) - length ?v) (take (bl_restart_offset b) (bl_data b)) = ?v @ region b (off (Suc i))" .
  then have "take (length ?v) (drop (off (Suc i) - length ?v) (take (bl_restart_offset b) (bl_data b))) = ?v"
    by simp
  moreover have "off (Suc i) \<le> bl_restart_offset b"
    using off_le_iff [OF h, of "Suc i" "length kvs"] h i by (simp add: holds_def)
  ultimately show ?thesis using e(2) by (simp add: drop_take pre)
qed

section \<open>Parsing one entry\<close>

lemma parse_ready:
  assumes h: "holds b kvs off sh ri" and rd: "\<forall>x \<in> set kvs. readable c (fst x)"
    and r: "ready_at kvs off sh ri it i"
  obtains it' where "parse_next_entry c nul b it = (i < length kvs, it')" "points_at b kvs off ri it' i"
proof (cases "i < length kvs")
  case False
  then have "next_entry_offset nul it = bl_restart_offset b"
    using r h by (auto simp: ready_at_def next_entry_offset_def holds_def)
  then show ?thesis
    using that r False by (simp add: parse_next_entry_def Let_def points_at_def ready_at_def)
next
  case True
  note dec = decode_at [OF h True]
  have nxt: "next_entry_offset nul it = off i" using r by (auto simp: ready_at_def next_entry_offset_def)
  have key: "take (sh i) (bi_key it) @ take (length (fst (kvs ! i)) - sh i)
      (drop (sh i) (fst (kvs ! i)) @ snd (kvs ! i) @ region b (off (Suc i))) = fst (kvs ! i)"
    by (rule key_at [OF h True]) (use r in \<open>simp add: ready_at_def\<close>)
  have len: "\<not> length (bi_key it) < sh i" "\<not> length (fst (kvs ! i)) < min_key_length c"
    using r True rd nth_mem [OF True] by (auto simp: ready_at_def fits_def readable_def not_less)
  let ?vo = "off (Suc i) - length (snd (kvs ! i))"
  have vo: "off i + (length (region b (off i)) -
      length (drop (sh i) (fst (kvs ! i)) @ snd (kvs ! i) @ region b (off (Suc i)))) +
      (length (fst (kvs ! i)) - sh i) = ?vo" "?vo + length (snd (kvs ! i)) = off (Suc i)"
    using decode_offset [OF h True] by linarith+
  let ?it = "it\<lparr>bi_current := off i, bi_key := fst (kvs ! i), bi_value := (Some ?vo, length (snd (kvs ! i))),
      bi_restart_index := advance_restart b (off (Suc i)) (bi_restart_index it)\<rparr>"
  have "parse_next_entry c nul b it = (True, ?it)"
    unfolding parse_next_entry_def nxt dec(1) option.case prod.case key Let_def vo
    using dec(2) len by simp
  moreover have "points_at b kvs off ri ?it i"
    using r True vo(2) value_at [OF h True] advance_restart_bound [of "bi_restart_index it" b "off (Suc i)"] h
    by (simp add: points_at_def ready_at_def bi_value_bytes_def holds_def)
  ultimately show ?thesis using that True by simp
qed

section \<open>Walking\<close>

text \<open>Where a lookup lands: the number of entries below the target.\<close>

definition lower_bound :: "Comparator \<Rightarrow> bytes \<Rightarrow> (bytes \<times> bytes) list \<Rightarrow> nat" where
  "lower_bound c target kvs = length (takeWhile (\<lambda>x. cmp_compare c (fst x) target < 0) kvs)"

lemma seek_walk_ready:
  assumes h: "holds b kvs off sh ri" and rd: "\<forall>x \<in> set kvs. readable c (fst x)"
    and "ready_at kvs off sh ri it i"
  shows "points_at b kvs off ri (seek_walk c nul b target it) (i + lower_bound c target (drop i kvs))"
  using assms(3)
proof (induction "length kvs - i" arbitrary: i it)
  case 0
  then have i: "i = length kvs" by (simp add: ready_at_def)
  obtain it' where "parse_next_entry c nul b it = (i < length kvs, it')" "points_at b kvs off ri it' i"
    by (rule parse_ready [OF h rd 0(2)])
  then show ?case using i by (subst seek_walk.simps) (simp add: lower_bound_def)
next
  case (Suc n)
  then have i: "i < length kvs" by simp
  obtain it' where it': "parse_next_entry c nul b it = (i < length kvs, it')" "points_at b kvs off ri it' i"
    by (rule parse_ready [OF h rd Suc.prems])
  have key: "bi_key it' = fst (kvs ! i)" using it'(2) i by (simp add: points_at_def)
  have drop: "drop i kvs = kvs ! i # drop (Suc i) kvs" using i by (simp add: Cons_nth_drop_Suc)
  show ?case
  proof (cases "cmp_compare c (fst (kvs ! i)) target < 0")
    case True
    then have "seek_walk c nul b target it = seek_walk c nul b target it'"
      using it'(1) i key by (subst seek_walk.simps) simp
    then show ?thesis
      using Suc.hyps(1) [of "Suc i" it'] Suc.hyps(2) points_ready [OF h it'(2) i] True
      by (simp add: drop lower_bound_def)
  next
    case False
    then show ?thesis
      using it' i key by (subst seek_walk.simps) (simp add: drop lower_bound_def)
  qed
qed

lemma walk_until_ready:
  assumes h: "holds b kvs off sh ri" and rd: "\<forall>x \<in> set kvs. readable c (fst x)"
    and m: "m < length kvs" and "ready_at kvs off sh ri it i" "i \<le> m"
  shows "points_at b kvs off ri (walk_until c nul b (off (Suc m)) it) m"
  using assms(4,5)
proof (induction "m - i" arbitrary: i it)
  case 0
  then have i: "i = m" by simp
  obtain it' where it': "parse_next_entry c nul b it = (i < length kvs, it')" "points_at b kvs off ri it' i"
    by (rule parse_ready [OF h rd 0(2)])
  have "next_entry_offset nul it' = off (Suc m)"
    using it'(2) i m by (auto simp: points_at_def next_entry_offset_def)
  then show ?case using i it' m by (subst walk_until.simps) simp
next
  case (Suc n)
  then have i: "i < length kvs" "Suc i \<le> m" using m by simp_all
  obtain it' where it': "parse_next_entry c nul b it = (i < length kvs, it')" "points_at b kvs off ri it' i"
    by (rule parse_ready [OF h rd Suc.prems(1)])
  have "next_entry_offset nul it' = off (Suc i)"
    using it'(2) i by (auto simp: points_at_def next_entry_offset_def)
  moreover have "off (Suc i) < off (Suc m)"
    by (rule off_mono [OF h]) (use i m in simp_all)
  ultimately have "walk_until c nul b (off (Suc m)) it = walk_until c nul b (off (Suc m)) it'"
    using it'(1) i by (subst walk_until.simps) simp
  then show ?case using Suc.hyps(1) [of "Suc i" it'] Suc.hyps(2) points_ready [OF h it'(2) i(1)] i(2) by simp
qed

lemma restart_ready:
  assumes h: "holds b kvs off sh ri" and j: "j < length ri" and ok: "bi_status it = status_ok"
  shows "ready_at kvs off sh ri (seek_to_restart_point b it j) (ri ! j)" "ri ! j \<le> length kvs"
proof -
  have rp: "restart_point b j = off (ri ! j)" "ri ! j \<le> length kvs"
    using h j by (cases "j = 0"; auto simp: holds_def)+
  then have "off (ri ! j) \<le> bl_restart_offset b"
    using off_le_iff [OF h rp(2), of "length kvs"] h by (simp add: holds_def)
  then show "ready_at kvs off sh ri (seek_to_restart_point b it j) (ri ! j)" "ri ! j \<le> length kvs"
    using rp j ok fits_restart [OF h j] by (simp_all add: seek_to_restart_point_def Let_def ready_at_def)
qed

lemma back_restart_holds:
  assumes h: "holds b kvs off sh ri" and "j < length ri" "i < length kvs"
  shows "back_restart b (off i) j = None \<and> i = 0 \<or>
    (\<exists>l < length ri. back_restart b (off i) j = Some l \<and> ri ! l < i)"
  using assms(2)
proof (induction j)
  case 0
  then show ?case using h off_mono [OF h, of 0 i] assms(3) by (cases "i = 0") (auto simp: holds_def)
next
  case (Suc j)
  then have "restart_point b (Suc j) = off (ri ! Suc j)" "ri ! Suc j < length kvs"
    using h by (auto simp: holds_def)
  then have "off i \<le> restart_point b (Suc j) \<longleftrightarrow> i \<le> ri ! Suc j"
    using off_le_iff [OF h, of i "ri ! Suc j"] assms(3) by simp
  then show ?case using Suc by auto
qed

section \<open>The cursor\<close>

datatype cursor_op = SeekToFirst | SeekToLast | Seek bytes | Next | Prev

text \<open>The contract: a position in the list, the length of the list being the end.\<close>

fun cursor_step :: "Comparator \<Rightarrow> (bytes \<times> bytes) list \<Rightarrow> nat \<Rightarrow> cursor_op \<Rightarrow> nat" where
  "cursor_step c kvs i SeekToFirst = 0"
| "cursor_step c kvs i SeekToLast = length kvs - 1"
| "cursor_step c kvs i (Seek target) = lower_bound c target kvs"
| "cursor_step c kvs i Next = (if i < length kvs then Suc i else i)"
| "cursor_step c kvs i Prev = (if i < length kvs then if i = 0 then length kvs else i - 1 else i)"

text \<open>The iterator driven by the same operations; next and prev are only called when valid.\<close>

fun bi_step :: "Comparator \<Rightarrow> nat \<Rightarrow> Block \<Rightarrow> BlockIter \<Rightarrow> cursor_op \<Rightarrow> BlockIter" where
  "bi_step c nul b it SeekToFirst = bi_seek_to_first c nul b it"
| "bi_step c nul b it SeekToLast = bi_seek_to_last c nul b it"
| "bi_step c nul b it (Seek target) = bi_seek c nul b it target"
| "bi_step c nul b it Next = (if bi_valid b it then bi_next c nul b it else it)"
| "bi_step c nul b it Prev = (if bi_valid b it then bi_prev c nul b it else it)"

lemma points_valid:
  "holds b kvs off sh ri \<Longrightarrow> points_at b kvs off ri it i \<Longrightarrow> bi_valid b it \<longleftrightarrow> i < length kvs"
  using decode_at(2) [of b kvs off sh ri i] by (auto simp: points_at_def bi_valid_def split: if_splits)

lemma lower_bound_drop:
  assumes "\<forall>x \<in> set (take i kvs). cmp_compare c (fst x) target < 0" "i \<le> length kvs"
  shows "i + lower_bound c target (drop i kvs) = lower_bound c target kvs"
proof -
  have "lower_bound c target (take i kvs @ drop i kvs) = i + lower_bound c target (drop i kvs)"
    unfolding lower_bound_def using assms by (subst takeWhile_append2) (simp_all add: min_def)
  then show ?thesis by simp
qed

context key_order
begin

lemma bi_seek_points:
  assumes h: "holds b kvs off sh ri" and o: "ordered c kvs" and ok: "bi_status it = status_ok"
  shows "points_at b kvs off ri (bi_seek c nul b it target) (lower_bound c target kvs)"
proof -
  have rd: "\<forall>x \<in> set kvs. readable c (fst x)" using o by (simp add: ordered_def)
  have b: "bl_num_restarts b = length ri" "ri \<noteq> []" "ri ! 0 = 0" using h by (auto simp: holds_def)
  obtain l where l: "l < length ri"
      "search_restarts c ''key is too short for this comparator'' b target 0 (length ri - 1) = Inr l"
      "l = 0 \<or> cmp_compare c (fst (kvs ! (ri ! l))) target < 0"
    using search_restarts_holds [OF h rd, of 0 "length ri - 1"] b by auto
  note r = restart_ready [OF h l(1) ok]
  have "\<forall>x \<in> set (take (ri ! l) kvs). cmp_compare c (fst x) target < 0"
  proof (cases "l = 0")
    case False
    then have "ri ! l < length kvs" using h l(1) by (simp add: holds_def)
    then show ?thesis using before_restart [OF o] False l(3) by blast
  qed (simp add: b)
  from lower_bound_drop [OF this r(2)] show ?thesis
    using seek_walk_ready [OF h rd r(1), of nul target] b l(2) by (simp add: bi_seek_def)
qed

lemma bi_step_points:
  assumes h: "holds b kvs off sh ri" and o: "ordered c kvs" and p: "points_at b kvs off ri it i"
  shows "points_at b kvs off ri (bi_step c nul b it op) (cursor_step c kvs i op)"
proof -
  have rd: "\<forall>x \<in> set kvs. readable c (fst x)" using o by (simp add: ordered_def)
  have ok: "bi_status it = status_ok" using p by (simp add: points_at_def)
  have b: "bl_num_restarts b = length ri" "ri \<noteq> []" "ri ! 0 = 0" "off (length kvs) = bl_restart_offset b"
    using h by (auto simp: holds_def)
  note valid = points_valid [OF h p]
  show ?thesis
  proof (cases op)
    case SeekToFirst
    have "ready_at kvs off sh ri (seek_to_restart_point b it 0) 0"
      using restart_ready [OF h _ ok, of 0] b by simp
    then obtain it' where "parse_next_entry c nul b (seek_to_restart_point b it 0) = (0 < length kvs, it')"
        "points_at b kvs off ri it' 0"
      by (rule parse_ready [OF h rd])
    then show ?thesis by (simp add: SeekToFirst bi_seek_to_first_def)
  next
    case SeekToLast
    have last: "length ri - 1 < length ri" using b by simp
    note r = restart_ready [OF h last ok]
    have eq: "bi_seek_to_last c nul b it =
        walk_until c nul b (off (length kvs)) (seek_to_restart_point b it (length ri - 1))"
      using b by (simp add: bi_seek_to_last_def)
    show ?thesis
    proof (cases "kvs = []")
      case True
      then have zero: "ri ! (length ri - 1) = 0" using r(2) by simp
      obtain it' where "parse_next_entry c nul b (seek_to_restart_point b it (length ri - 1)) =
            (ri ! (length ri - 1) < length kvs, it')"
          "points_at b kvs off ri it' (ri ! (length ri - 1))"
        by (rule parse_ready [OF h rd r(1)])
      then show ?thesis using True zero by (simp add: SeekToLast eq) (subst walk_until.simps, simp)
    next
      case False
      moreover have "0 < length ri - 1 \<longrightarrow> ri ! (length ri - 1) < length kvs"
        using h last by (simp add: holds_def)
      ultimately have "ri ! (length ri - 1) \<le> length kvs - 1"
        using b(3) by (cases "length ri - 1 = 0") auto
      then show ?thesis
        using walk_until_ready [OF h rd _ r(1), of "length kvs - 1"] False by (simp add: SeekToLast eq)
    qed
  next
    case (Seek target)
    then show ?thesis using bi_seek_points [OF h o ok] by simp
  next
    case Next
    show ?thesis
    proof (cases "i < length kvs")
      case True
      obtain it' where "parse_next_entry c nul b it = (Suc i < length kvs, it')"
          "points_at b kvs off ri it' (Suc i)"
        by (rule parse_ready [OF h rd points_ready [OF h p True]])
      then show ?thesis using True valid by (simp add: Next bi_next_def)
    qed (use p valid Next in simp)
  next
    case Prev
    show ?thesis
    proof (cases "i < length kvs")
      case True
      then have cur: "bi_current it = off i" "bi_restart_index it < length ri" using p by (simp_all add: points_at_def)
      show ?thesis
      proof (cases "back_restart b (off i) (bi_restart_index it)")
        case None
        then have "i = 0" using back_restart_holds [OF h cur(2) True] by auto
        then show ?thesis using None True valid cur ok by (simp add: Prev bi_prev_def Let_def points_at_def)
      next
        case (Some l)
        then have l: "l < length ri" "ri ! l < i" using back_restart_holds [OF h cur(2) True] by auto
        then have "points_at b kvs off ri (walk_until c nul b (off (Suc (i - 1))) (seek_to_restart_point b it l)) (i - 1)"
          using walk_until_ready [OF h rd _ restart_ready(1) [OF h l(1) ok], of "i - 1" nul] True by simp
        then show ?thesis using l Some True valid cur by (simp add: Prev bi_prev_def Let_def)
      qed
    qed (use p valid Prev in simp)
  qed
qed

lemma bi_steps_points:
  assumes h: "holds b kvs off sh ri" and o: "ordered c kvs" and p: "points_at b kvs off ri it i"
  shows "points_at b kvs off ri (foldl (bi_step c nul b) it ops) (foldl (cursor_step c kvs) i ops)"
  using p by (induction ops arbitrary: it i) (simp_all add: bi_step_points [OF h o])

end

lemma ctor_points: "holds b kvs off sh ri \<Longrightarrow> points_at b kvs off ri (BlockIter_ctor b) (length kvs)"
  by (simp add: points_at_def BlockIter_ctor_def)

lemma points_observed:
  assumes "holds b kvs off sh ri" "points_at b kvs off ri it i"
  shows "bi_status it = status_ok \<and> (bi_valid b it \<longleftrightarrow> i < length kvs) \<and>
    (i < length kvs \<longrightarrow> bi_key it = fst (kvs ! i) \<and> bi_value_bytes b it = snd (kvs ! i))"
  using points_valid [OF assms] assms(2) by (auto simp: points_at_def)

lemma build_block_holds:
  assumes "1 \<le> interval" "length (build_block interval kvs) < 2 ^ 32"
  shows "\<exists>off sh ri. holds (Block_ctor (build_block interval kvs)) kvs off sh ri"
proof -
  obtain off sh ri where "builds (bb_adds (BlockBuilder_ctor interval) kvs) kvs off sh ri"
    using builds_adds [OF assms(1)] by blast
  from finish_holds [OF this] show ?thesis using assms(2) by (auto simp: build_block_def)
qed

section \<open>Properties\<close>

text \<open>
  C16. A block built from any list of entries in key order, with any restart interval
  of at least one, answers every lookup with the first entry at or after the target,
  key and value byte for byte, or with nothing when every entry is below it; it never
  reports damage.  The built block is smaller than 4 GiB.  Under the internal comparator
  the engine passes targets of at least the eight bytes of a trailer; of a shorter one the
  statement is about the model only.
\<close>

theorem block_find_built:
  assumes "c \<in> {kBytewise, kInternal}" "1 \<le> interval" "ordered c kvs"
    and "length (build_block interval kvs) < 2 ^ 32"
  shows "Block_find c (Block_ctor (build_block interval kvs)) target = Inr (first_at c target kvs)"
  using build_block_holds [OF assms(2,4)] assms(1,3) bw.Block_find_holds ik.Block_find_holds by blast

theorem block_find_built_witness:
  "Block_find kBytewise (Block_ctor (build_block 2 [([1], [10]), ([1, 2], [20]), ([3], [30])])) [1, 3] =
     Inr (Some ([3], [30]))"
proof -
  let ?kvs = "[([1], [10]), ([1, 2], [20]), ([3], [30])] :: (bytes \<times> bytes) list"
  have "length (build_block 2 ?kvs) = 27" "ordered kBytewise ?kvs" by code_simp+
  then have "Block_find kBytewise (Block_ctor (build_block 2 ?kvs)) [1, 3] = Inr (first_at kBytewise [1, 3] ?kvs)"
    by (intro block_find_built) simp_all
  also have "first_at kBytewise [1, 3] ?kvs = Some ([3], [30])" by code_simp
  finally show ?thesis .
qed

text \<open>
  C17. The iterator over a built block refines a cursor into the list of entries: after
  any sequence of seek\_to\_first, seek\_to\_last, seek, next and prev it is valid
  exactly when the cursor is on an entry, shows that entry's key and value, and its
  status stays ok.  The built block is smaller than 4 GiB, and targets under the internal
  comparator have a trailer, as for a lookup.
\<close>

theorem block_iterator_refines_cursor:
  assumes "c \<in> {kBytewise, kInternal}" "1 \<le> interval" "ordered c kvs"
    and "length (build_block interval kvs) < 2 ^ 32"
    and "b = Block_ctor (build_block interval kvs)"
    and "it = foldl (bi_step c nul b) (BlockIter_ctor b) ops"
    and "i = foldl (cursor_step c kvs) (length kvs) ops"
  shows "bi_status it = status_ok \<and> (bi_valid b it \<longleftrightarrow> i < length kvs) \<and>
    (i < length kvs \<longrightarrow> bi_key it = fst (kvs ! i) \<and> bi_value_bytes b it = snd (kvs ! i))"
proof -
  obtain off sh ri where h: "holds b kvs off sh ri"
    using build_block_holds [OF assms(2,4)] assms(5) by blast
  have "points_at b kvs off ri it i"
    using assms(1,3,6,7) bw.bi_steps_points [OF h _ ctor_points [OF h]]
      ik.bi_steps_points [OF h _ ctor_points [OF h]] by blast
  then show ?thesis by (rule points_observed [OF h])
qed

theorem block_iterator_refines_cursor_witness:
  "bi_key (foldl (bi_step kBytewise 0 (Block_ctor (build_block 2 [([1], [10]), ([1, 2], [20]), ([3], [30])])))
      (BlockIter_ctor (Block_ctor (build_block 2 [([1], [10]), ([1, 2], [20]), ([3], [30])])))
      [SeekToLast, Prev, Seek [1, 1], Next, Prev]) = [1, 2]"
proof -
  let ?kvs = "[([1], [10]), ([1, 2], [20]), ([3], [30])] :: (bytes \<times> bytes) list"
  let ?ops = "[SeekToLast, Prev, Seek [1, 1], Next, Prev]"
  have len: "length (build_block 2 ?kvs) = 27" and o: "ordered kBytewise ?kvs" by code_simp+
  have cur: "foldl (cursor_step kBytewise ?kvs) (length ?kvs) ?ops = 1" by code_simp
  have c: "kBytewise \<in> {kBytewise, kInternal}" and l: "length (build_block 2 ?kvs) < 2 ^ 32"
    unfolding len by simp_all
  have "(1 :: nat) \<le> 2" "1 < length ?kvs" "fst (?kvs ! 1) = [1, 2]" by simp_all
  then show ?thesis
    using block_iterator_refines_cursor [OF c _ o l refl refl refl, where nul = 0 and ops = ?ops, unfolded cur]
    by metis
qed

text \<open>
  C34. The one-byte fast path of decode\_entry is only a fast path: on every input,
  whatever its bytes and length, it returns exactly what decoding the three lengths
  as varints and then checking the bound returns.
\<close>

theorem decode_entry_fast_path: "decode_entry input = decode_entry_varints input"
  by (rule decode_entry_eq)

text \<open>
  C35. When the first restart point of a block lies outside its entries,
  seek\_to\_first notices, but still parses an entry at the offset that subtracting
  from the null value pointer gives: where an entry decodes there, the iterator ends
  up valid while its status says corruption.
\<close>

theorem seek_to_first_parses_after_corruption:
  assumes "bl_restart_offset b < restart_point b 0" "nul < bl_restart_offset b"
    and "decode_entry (region b nul) = Some (0, n, v, rest)" "min_key_length c \<le> n"
  shows "bi_valid b (bi_seek_to_first c nul b it) \<and> \<not> is_ok (bi_status (bi_seek_to_first c nul b it))"
proof -
  have "n \<le> length rest" using decode_entry_shorter [OF assms(3)] by simp
  then show ?thesis
    using assms
    by (simp add: bi_seek_to_first_def seek_to_restart_point_def corrupted_def parse_next_entry_def
        next_entry_offset_def bi_valid_def bad_entry_def is_ok_def Let_def)
qed

theorem seek_to_first_parses_after_corruption_witness:
  "bi_valid (Block_ctor ([0, 1, 1, 65, 66] @ [200, 0, 0, 0] @ [1, 0, 0, 0]))
     (bi_seek_to_first kBytewise 0 (Block_ctor ([0, 1, 1, 65, 66] @ [200, 0, 0, 0] @ [1, 0, 0, 0]))
        (BlockIter_ctor (Block_ctor ([0, 1, 1, 65, 66] @ [200, 0, 0, 0] @ [1, 0, 0, 0]))))"
proof -
  let ?b = "Block_ctor ([0, 1, 1, 65, 66] @ [200, 0, 0, 0] @ [1, 0, 0, 0])"
  have "bl_restart_offset ?b < restart_point ?b 0" "0 < bl_restart_offset ?b"
    "decode_entry (region ?b 0) = Some (0, 1, 1, [65, 66])" "min_key_length kBytewise \<le> 1"
    by code_simp+
  then show ?thesis using seek_to_first_parses_after_corruption by blast
qed

end
