(* ===== verification/Filter_Block.thy ===== *)
theory Filter_Block
  imports Bloom
begin

text \<open>
  src/filter\_block.hpp and src/filter\_block.cpp: the filters of a table's data
  blocks, one per 2 KiB region of the data section, in one block with an array of
  offsets.  The reader's pointers are offsets into the contents; a null data pointer
  is \<^term>\<open>None\<close>.
\<close>

section \<open>FilterBlockBuilder\<close>

definition kFilterBaseLog :: nat where
  "kFilterBaseLog = 11"

record FilterBlockBuilder =
  fb_keys :: bytes
  fb_key_starts :: "nat list"
  fb_result :: bytes
  fb_filter_offsets :: "u32 list"

definition FilterBlockBuilder_ctor :: FilterBlockBuilder where
  "FilterBlockBuilder_ctor = \<lparr>fb_keys = [], fb_key_starts = [], fb_result = [], fb_filter_offsets = []\<rparr>"

definition generate_filter :: "FilterPolicy \<Rightarrow> FilterBlockBuilder \<Rightarrow> FilterBlockBuilder" where
  "generate_filter p b =
     (let num_keys = length (fb_key_starts b);
          offsets = fb_filter_offsets b @ [word_of_nat (length (fb_result b))]
      in if num_keys = 0 then b\<lparr>fb_filter_offsets := offsets\<rparr>
         else let key_starts = fb_key_starts b @ [length (fb_keys b)];
                  tmp_keys = map (\<lambda>i. take (key_starts ! (i + 1) - key_starts ! i)
                                          (drop (key_starts ! i) (fb_keys b))) [0..<num_keys]
              in b\<lparr>fb_filter_offsets := offsets,
                   fb_result := fp_create_filter p tmp_keys (fb_result b),
                   fb_keys := [], fb_key_starts := []\<rparr>)"

lemma generate_filter_offsets [simp]:
  "length (fb_filter_offsets (generate_filter p b)) = Suc (length (fb_filter_offsets b))"
  by (simp add: generate_filter_def Let_def)

function start_block_loop :: "FilterPolicy \<Rightarrow> nat \<Rightarrow> FilterBlockBuilder \<Rightarrow> FilterBlockBuilder" where
  "start_block_loop p wanted b =
     (if length (fb_filter_offsets b) < wanted then start_block_loop p wanted (generate_filter p b) else b)"
  by auto
termination
  by (relation "measure (\<lambda>(p, wanted, b). wanted - length (fb_filter_offsets b))") auto

declare start_block_loop.simps [simp del]

definition start_block :: "FilterPolicy \<Rightarrow> FilterBlockBuilder \<Rightarrow> u64 \<Rightarrow> FilterBlockBuilder" where
  "start_block p b block_offset = start_block_loop p (unat (drop_bit kFilterBaseLog block_offset)) b"

definition add_key :: "FilterBlockBuilder \<Rightarrow> bytes \<Rightarrow> FilterBlockBuilder" where
  "add_key b key =
     b\<lparr>fb_key_starts := fb_key_starts b @ [length (fb_keys b)], fb_keys := fb_keys b @ key\<rparr>"

definition fb_finish :: "FilterPolicy \<Rightarrow> FilterBlockBuilder \<Rightarrow> bytes" where
  "fb_finish p b =
     (let b1 = (if fb_key_starts b \<noteq> [] then generate_filter p b else b);
          array_offset = word_of_nat (length (fb_result b1));
          result = foldl put_fixed32 (fb_result b1) (fb_filter_offsets b1)
      in put_fixed32 result array_offset @ [word_of_nat kFilterBaseLog])"

section \<open>FilterBlockReader\<close>

record FilterBlockReader =
  fr_data :: "bytes option"
  fr_offset :: nat
  fr_num :: nat
  fr_base_lg :: nat

definition FilterBlockReader_ctor :: "bytes \<Rightarrow> FilterBlockReader" where
  "FilterBlockReader_ctor contents =
     (let size = length contents;
          unreadable = \<lparr>fr_data = None, fr_offset = 0, fr_num = 0, fr_base_lg = 0\<rparr>
      in if size < 5 then unreadable
         else let base_lg = unat (contents ! (size - 1)) in
           if 64 \<le> base_lg then unreadable\<lparr>fr_base_lg := base_lg\<rparr>
           else let last_word = unat (decode_fixed32 (drop (size - 5) contents)) in
             if size - 5 < last_word then unreadable\<lparr>fr_base_lg := base_lg\<rparr>
             else \<lparr>fr_data = Some contents, fr_offset = last_word,
                   fr_num = (size - 5 - last_word) div 4, fr_base_lg = base_lg\<rparr>)"

definition fr_key_may_match :: "FilterPolicy \<Rightarrow> FilterBlockReader \<Rightarrow> u64 \<Rightarrow> bytes \<Rightarrow> bool" where
  "fr_key_may_match p r block_offset key =
     (case fr_data r of
        None \<Rightarrow> True
      | Some data \<Rightarrow>
          let index = unat (drop_bit (fr_base_lg r) block_offset) in
          if fr_num r \<le> index then True
          else let start = unat (decode_fixed32 (drop (fr_offset r + index * 4) data));
                   limit = unat (decode_fixed32 (drop (fr_offset r + index * 4 + 4) data))
               in if limit < start \<or> fr_offset r < limit then True
                  else if start = limit then True
                  else fp_key_may_match p key (take (limit - start) (drop start data)))"

section \<open>Layout\<close>

text \<open>The finished filters, in region order, and the keys waiting for the next one.\<close>

definition starts :: "'a list list \<Rightarrow> nat list" where
  "starts xss = map (\<lambda>i. length (concat (take i xss))) [0..<length xss]"

lemma length_starts [simp]: "length (starts xss) = length xss"
  by (simp add: starts_def)

lemma nth_starts [simp]: "i < length xss \<Longrightarrow> starts xss ! i = length (concat (take i xss))"
  by (simp add: starts_def)

lemma starts_snoc [simp]: "starts (xss @ [x]) = starts xss @ [length (concat xss)]"
  by (simp add: starts_def)

lemma starts_Nil [simp]: "starts [] = []"
  by (simp add: starts_def)

lemma starts_sentinel:
  "i \<le> length xss \<Longrightarrow> (starts xss @ [length (concat xss)]) ! i = length (concat (take i xss))"
  by (auto simp: nth_append not_less)

lemma concat_segment:
  assumes "i < length xss"
  shows "take (length (concat (take (Suc i) xss)) - length (concat (take i xss)))
      (drop (length (concat (take i xss))) (concat xss @ ys)) = xss ! i"
proof -
  have "concat xss = concat (take i xss) @ xss ! i @ concat (drop (Suc i) xss)"
    by (metis append_take_drop_id assms concat.simps(2) concat_append Cons_nth_drop_Suc)
  then show ?thesis using assms by (simp add: take_Suc_conv_app_nth)
qed

definition fb_inv :: "FilterBlockBuilder \<Rightarrow> bytes list \<Rightarrow> bytes list \<Rightarrow> bool" where
  "fb_inv b segs pending \<longleftrightarrow>
     fb_result b = concat segs \<and> fb_filter_offsets b = map word_of_nat (starts segs) \<and>
     fb_keys b = concat pending \<and> fb_key_starts b = starts pending"

lemma fb_inv_ctor: "fb_inv FilterBlockBuilder_ctor [] []"
  by (simp add: fb_inv_def FilterBlockBuilder_ctor_def)

lemma fb_inv_add_key: "fb_inv b segs pending \<Longrightarrow> fb_inv (add_key b key) segs (pending @ [key])"
  by (simp add: fb_inv_def add_key_def)

definition seg_of :: "FilterPolicy \<Rightarrow> bytes list \<Rightarrow> bytes" where
  "seg_of p pending = (if pending = [] then [] else fp_create_filter p pending [])"

text \<open>
  Every block started so far: its region has a filter over at least its keys, or is
  the one whose keys are still waiting.
\<close>

definition region_of :: "u64 \<Rightarrow> nat" where
  "region_of block_offset = unat (drop_bit kFilterBaseLog block_offset)"

abbreviation key_count :: "(u64 \<times> bytes list) list \<Rightarrow> nat" where
  "key_count blocks \<equiv> length (concat (map snd blocks))"

definition covered :: "FilterPolicy \<Rightarrow> bytes list \<Rightarrow> bytes list \<Rightarrow> (u64 \<times> bytes list) list \<Rightarrow> bool" where
  "covered p segs pending blocks \<longleftrightarrow> length pending \<le> key_count blocks \<and>
     (\<forall>(o', ks) \<in> set blocks. region_of o' \<le> length segs \<and>
        (region_of o' < length segs \<longrightarrow>
           (\<exists>ks'. segs ! region_of o' = seg_of p ks' \<and> set ks \<subseteq> set ks' \<and> length ks' \<le> key_count blocks)) \<and>
        (region_of o' = length segs \<longrightarrow> set ks \<subseteq> set pending))"

lemma covered_generate:
  "covered p segs pending blocks \<Longrightarrow> covered p (segs @ [seg_of p pending]) [] blocks"
proof -
  assume c: "covered p segs pending blocks"
  have "region_of o' \<le> length segs \<and>
      (\<exists>ks'. (segs @ [seg_of p pending]) ! region_of o' = seg_of p ks' \<and> set ks \<subseteq> set ks' \<and> length ks' \<le> key_count blocks)"
    if "(o', ks) \<in> set blocks" for o' ks
  proof (cases "region_of o' < length segs")
    case True
    then show ?thesis using c that by (fastforce simp: covered_def nth_append)
  next
    case False
    then have "region_of o' = length segs" "set ks \<subseteq> set pending" using c that by (fastforce simp: covered_def)+
    moreover have "length pending \<le> key_count blocks" using c by (simp add: covered_def)
    ultimately show ?thesis by auto
  qed
  then show ?thesis by (fastforce simp: covered_def)
qed

lemma covered_more:
  assumes "covered p segs pending blocks" "length segs = region_of o'"
  shows "covered p segs (pending @ ks) (blocks @ [(o', ks)])"
  using assms unfolding covered_def by (fastforce simp: trans_le_add1)

lemma fb_inv_add_keys: "fb_inv b segs pending \<Longrightarrow> fb_inv (foldl add_key b ks) segs (pending @ ks)"
proof (induction ks arbitrary: b pending)
  case (Cons k ks)
  then show ?case using Cons.IH [OF fb_inv_add_key [OF Cons.prems]] by simp
qed simp

context filter_policy
begin

lemma fb_inv_generate:
  assumes "fb_inv b segs pending"
  shows "fb_inv (generate_filter p b) (segs @ [seg_of p pending]) []"
proof -
  have "map (\<lambda>i. take ((starts pending @ [length (concat pending)]) ! (i + 1) -
          (starts pending @ [length (concat pending)]) ! i)
        (drop ((starts pending @ [length (concat pending)]) ! i) (concat pending))) [0..<length pending] = pending"
    using concat_segment [of _ pending "[]"] by (intro nth_equalityI) (simp_all add: starts_sentinel)
  then show ?thesis
    using assms appends [of pending "concat segs"]
    by (auto simp: fb_inv_def generate_filter_def Let_def seg_of_def)
qed

lemma start_block_loop_inv:
  assumes "fb_inv b segs pending" "covered p segs pending blocks" "length segs \<le> wanted"
  shows "\<exists>segs' pending'. fb_inv (start_block_loop p wanted b) segs' pending' \<and>
    covered p segs' pending' blocks \<and> length segs' = wanted"
  using assms
proof (induction "wanted - length segs" arbitrary: b segs pending)
  case 0
  then have "length (fb_filter_offsets b) = wanted" by (simp add: fb_inv_def)
  then show ?case using 0 by (subst start_block_loop.simps) auto
next
  case (Suc n)
  then have "length (fb_filter_offsets b) < wanted" by (simp add: fb_inv_def)
  then have "start_block_loop p wanted b = start_block_loop p wanted (generate_filter p b)"
    by (subst start_block_loop.simps) simp
  then show ?case
    using Suc.hyps(1) [OF _ fb_inv_generate [OF Suc.prems(1)] covered_generate [OF Suc.prems(2)]] Suc.hyps(2)
    by simp
qed

end

text \<open>A builder driven the way the table builder drives it.\<close>

definition fb_block :: "FilterPolicy \<Rightarrow> FilterBlockBuilder \<Rightarrow> u64 \<times> bytes list \<Rightarrow> FilterBlockBuilder" where
  "fb_block p b block = foldl add_key (start_block p b (fst block)) (snd block)"

definition fb_build :: "FilterPolicy \<Rightarrow> (u64 \<times> bytes list) list \<Rightarrow> bytes" where
  "fb_build p blocks = fb_finish p (foldl (fb_block p) FilterBlockBuilder_ctor blocks)"

lemma fb_block_pair: "fb_block p b (o', ks) = foldl add_key (start_block p b o') ks"
  by (simp add: fb_block_def)

lemma region_of_mono: "a \<le> b \<Longrightarrow> region_of a \<le> region_of b"
proof -
  assume "a \<le> b"
  moreover have "region_of x = drop_bit kFilterBaseLog (unat x)" for x
    using unsigned_less [of x, where 'a = nat]
    unfolding region_of_def by (simp add: unsigned_drop_bit_eq take_bit_nat_eq_self)
  ultimately show ?thesis by (simp add: drop_bit_eq_div word_le_nat_alt div_le_mono)
qed

context filter_policy
begin

lemma fb_blocks_inv:
  assumes "sorted (map fst blocks)"
  shows "\<exists>segs pending. fb_inv (foldl (fb_block p) FilterBlockBuilder_ctor blocks) segs pending \<and>
    covered p segs pending blocks \<and> (blocks \<noteq> [] \<longrightarrow> length segs = region_of (fst (last blocks))) \<and>
    (blocks = [] \<longrightarrow> segs = [])"
  using assms
proof (induction blocks rule: rev_induct)
  case Nil
  show ?case using fb_inv_ctor by (auto simp: covered_def)
next
  case (snoc x blocks)
  obtain o' ks where x: "x = (o', ks)" by (cases x)
  obtain segs pending where IH: "fb_inv (foldl (fb_block p) FilterBlockBuilder_ctor blocks) segs pending"
      "covered p segs pending blocks" "blocks \<noteq> [] \<longrightarrow> length segs = region_of (fst (last blocks))"
      "blocks = [] \<longrightarrow> segs = []"
    using snoc by (auto simp: sorted_append)
  have "length segs \<le> region_of o'"
  proof (cases "blocks = []")
    case False
    then have "fst (last blocks) \<le> o'" using snoc.prems x by (auto simp: sorted_append)
    then show ?thesis using IH(3) False region_of_mono by simp
  qed (use IH in simp)
  then obtain segs' pending' where st:
      "fb_inv (start_block p (foldl (fb_block p) FilterBlockBuilder_ctor blocks) o') segs' pending'"
      "covered p segs' pending' blocks" "length segs' = region_of o'"
    using start_block_loop_inv [OF IH(1,2)] unfolding start_block_def region_of_def by blast
  have "covered p segs' (pending' @ ks) (blocks @ [x])"
    unfolding x by (rule covered_more [OF st(2,3)])
  then show ?case
    using fb_inv_add_keys [OF st(1), of ks] st(3)
    by (intro exI [of _ segs'] exI [of _ "pending' @ ks"]) (simp add: fb_block_pair x)
qed

end

section \<open>Reading a finished filter block\<close>

lemma fb_finish_bytes:
  assumes "fb_inv b segs pending" "pending = []"
  shows "fb_finish p b = concat segs @
    concat (map encode_fixed32 (map word_of_nat (starts segs @ [length (concat segs)]))) @ [word_of_nat kFilterBaseLog]"
  using assms by (simp add: fb_finish_def Let_def fb_inv_def foldl_put_fixed32 put_fixed32_def)

lemma fb_reader_finish:
  assumes "contents = concat segs @
    concat (map encode_fixed32 (map word_of_nat (starts segs @ [length (concat segs)]))) @ [word_of_nat kFilterBaseLog]"
    and small: "length contents < 2 ^ 32"
  shows "FilterBlockReader_ctor contents =
    \<lparr>fr_data = Some contents, fr_offset = length (concat segs), fr_num = length segs, fr_base_lg = kFilterBaseLog\<rparr>"
proof -
  let ?n = "length (concat segs)" and ?m = "length segs"
  have len: "length contents = ?n + 4 * ?m + 5"
    by (simp add: assms(1) del: map_append concat_append map_map)
  have "contents = (concat segs @ concat (map encode_fixed32 (map word_of_nat (starts segs)))) @
      encode_fixed32 (word_of_nat ?n) @ [word_of_nat kFilterBaseLog]"
    by (simp add: assms(1))
  then have "drop (?n + 4 * ?m) contents = encode_fixed32 (word_of_nat ?n) @ [word_of_nat kFilterBaseLog]"
    by (simp del: map_map)
  then have word: "decode_fixed32 (drop (?n + 4 * ?m) contents) = word_of_nat ?n" by simp
  have last: "contents ! (?n + 4 * ?m + 4) = word_of_nat kFilterBaseLog"
    using len by (simp add: assms(1) nth_append del: map_append concat_append map_map)
  have un: "unat (word_of_nat ?n :: u32) = ?n" "unat (word_of_nat kFilterBaseLog :: byte) = kFilterBaseLog"
    using small len by (simp_all add: kFilterBaseLog_def)
  have ix: "length contents - 1 = ?n + 4 * ?m + 4" "length contents - 5 = ?n + 4 * ?m" "\<not> length contents < 5"
    using len by simp_all
  show ?thesis
    unfolding FilterBlockReader_ctor_def Let_def ix word last un
    using ix(3) by (simp add: kFilterBaseLog_def)
qed

lemma fr_key_may_match_segs:
  assumes c: "contents = concat segs @
    concat (map encode_fixed32 (map word_of_nat (starts segs @ [length (concat segs)]))) @ [word_of_nat kFilterBaseLog]"
    and small: "length contents < 2 ^ 32" and i: "region_of o' < length segs"
  shows "fr_key_may_match p (FilterBlockReader_ctor contents) o' key \<longleftrightarrow>
    segs ! region_of o' = [] \<or> fp_key_may_match p key (segs ! region_of o')"
proof -
  let ?ws = "map word_of_nat (starts segs @ [length (concat segs)]) :: u32 list"
  have word: "unat (decode_fixed32 (drop (length (concat segs) + j * 4) contents)) = length (concat (take j segs))"
    if "j \<le> length segs" for j
  proof -
    have "decode_fixed32 (drop (length (concat segs) + j * 4) contents) = ?ws ! j"
      unfolding c by (rule decode_array32) (use that in simp)
    moreover have "?ws ! j = word_of_nat (length (concat (take j segs)))"
      using that by (subst nth_map) (simp_all add: starts_sentinel)
    moreover have "length (concat (take j segs)) < 2 ^ 32"
    proof -
      have "length (concat segs) = length (concat (take j segs)) + length (concat (drop j segs))"
        by (metis append_take_drop_id concat_append length_append)
      then show ?thesis using small by (simp add: c)
    qed
    ultimately show ?thesis by simp
  qed
  let ?i = "region_of o'"
  have lim: "length (concat (take (Suc ?i) segs)) = length (concat (take ?i segs)) + length (segs ! ?i)"
    using i by (simp add: take_Suc_conv_app_nth)
  have le: "length (concat (take (Suc ?i) segs)) \<le> length (concat segs)"
    by (metis append_take_drop_id concat_append le_add1 length_append)
  have diff: "length (concat (take (Suc ?i) segs)) - length (concat (take ?i segs)) = length (segs ! ?i)"
    using lim by simp
  have seg: "take (length (segs ! ?i)) (drop (length (concat (take ?i segs))) contents) = segs ! ?i"
    unfolding c by (rule concat_segment [OF i, unfolded diff])
  have start: "unat (decode_fixed32 (drop (length (concat segs) + ?i * 4) contents)) = length (concat (take ?i segs))"
    and limit: "unat (decode_fixed32 (drop (length (concat segs) + ?i * 4 + 4) contents)) =
      length (concat (take (Suc ?i) segs))"
    using word [of ?i] word [of "Suc ?i"] i by (simp_all add: algebra_simps)
  show ?thesis
    unfolding fr_key_may_match_def fb_reader_finish [OF c small] FilterBlockReader.simps option.case Let_def
      region_of_def [symmetric] start limit
    using i lim le seg by auto
qed

context filter_policy
begin

lemma no_key_lost:
  assumes "sorted (map fst blocks)" "length (fb_build p blocks) < 2 ^ 32" "key_count blocks < 2 ^ 32"
    and "(o', ks) \<in> set blocks" "k \<in> set ks" "same k k'"
  shows "fr_key_may_match p (FilterBlockReader_ctor (fb_build p blocks)) o' k'"
proof -
  obtain segs pending where inv: "fb_inv (foldl (fb_block p) FilterBlockBuilder_ctor blocks) segs pending"
      "covered p segs pending blocks"
    using fb_blocks_inv [OF assms(1)] by blast
  let ?b = "foldl (fb_block p) FilterBlockBuilder_ctor blocks"
  let ?segs = "if pending = [] then segs else segs @ [seg_of p pending]"
  let ?b' = "if pending = [] then ?b else generate_filter p ?b"
  have "fb_inv ?b' ?segs []" "covered p ?segs [] blocks"
    using inv fb_inv_generate [OF inv(1)] covered_generate [OF inv(2)] by auto
  moreover have "fb_finish p ?b = fb_finish p ?b'"
  proof (cases "pending = []")
    case False
    then have "fb_key_starts ?b \<noteq> []" "fb_key_starts (generate_filter p ?b) = []"
      using inv(1) fb_inv_generate [OF inv(1)] by (auto simp: fb_inv_def starts_def)
    then show ?thesis using False by (simp add: fb_finish_def)
  qed simp
  ultimately have c: "fb_build p blocks = concat ?segs @
      concat (map encode_fixed32 (map word_of_nat (starts ?segs @ [length (concat ?segs)]))) @ [word_of_nat kFilterBaseLog]"
    and cov: "covered p ?segs [] blocks"
    unfolding fb_build_def using fb_finish_bytes [of ?b' ?segs "[]" p] by simp_all
  have "region_of o' < length ?segs"
    "\<exists>ks'. ?segs ! region_of o' = seg_of p ks' \<and> set ks \<subseteq> set ks' \<and> length ks' \<le> key_count blocks"
    using cov assms(4,5) by (fastforce simp: covered_def)+
  then obtain ks' where i: "region_of o' < length ?segs" "?segs ! region_of o' = seg_of p ks'" "k \<in> set ks'" "length ks' < 2 ^ 32"
    using assms(3,5) by fastforce
  then show ?thesis
    using fr_key_may_match_segs [OF c assms(2) i(1)] matches [OF i(4,3) assms(6)] by (auto simp: seg_of_def)
qed

end

section \<open>Properties\<close>

text \<open>
  C22. The filter block never loses a key.  However the data blocks fall into the 2 KiB
  regions (small blocks sharing one, large blocks spanning several), and for every number
  of bits per key that is a non-negative int, looking up a key of any data block at the
  offset that block starts at answers that it may be there; keys are internal keys and any
  version of the same user key counts.  The blocks come in the order of their offsets,
  there are fewer than 4294967296 keys, and the filter block is smaller than 4 GiB.
\<close>

theorem filter_block_no_key_lost:
  assumes "p = new_internal_filter_policy (new_bloom_filter_policy bits_per_key)" "0 \<le> bits_per_key" "bits_per_key < 2 ^ 31"
    and "sorted (map fst blocks)" "length (fb_build p blocks) < 2 ^ 32" "key_count blocks < 2 ^ 32"
    and "(block_offset, keys) \<in> set blocks" "key \<in> set keys" "filter_key key = filter_key key'"
  shows "fr_key_may_match p (FilterBlockReader_ctor (fb_build p blocks)) block_offset key'"
  by (rule filter_policy.no_key_lost [OF internal_bloom_policy [OF assms(2,3), folded assms(1)] assms(4-9)])

lemma length_create_filter:
  "length (create_filter bits_per_key keys dst) = length dst + unat (bloom_bytes bits_per_key (length keys)) + 1"
  using fold_covers [of "replicate (unat (bloom_bytes bits_per_key (length keys))) 0"
      "unat (bloom_bytes bits_per_key (length keys) * 8)" "bloom_k bits_per_key" bloom_hash
      "\<lambda>k. bloom_delta (bloom_hash k)" keys]
  by (simp add: create_filter_def Let_def covers_def)

theorem filter_block_no_key_lost_witness:
  "fr_key_may_match (new_internal_filter_policy (new_bloom_filter_policy 10))
     (FilterBlockReader_ctor (fb_build (new_internal_filter_policy (new_bloom_filter_policy 10))
        [(0, [[65, 1, 7, 0, 0, 0, 0, 0, 0]])]))
     0 [65, 1, 9, 0, 0, 0, 0, 0, 0]"
proof -
  let ?p = "new_internal_filter_policy (new_bloom_filter_policy 10)" and ?k = "[65, 1, 7, 0, 0, 0, 0, 0, 0] :: bytes"
  have "length (fb_build ?p [(0, [?k])]) = 18"
    by (simp add: fb_build_def fb_block_def start_block_def start_block_loop.simps FilterBlockBuilder_ctor_def
        add_key_def fb_finish_def generate_filter_def Let_def new_internal_filter_policy_def
        new_bloom_filter_policy_def length_create_filter bloom_bytes_eq put_fixed32_def)
  moreover have "filter_key ?k = filter_key [65, 1, 9, 0, 0, 0, 0, 0, 0]" by code_simp
  ultimately show ?thesis
    by (intro filter_block_no_key_lost [OF refl, of 10 "[(0, [?k])]" 0 "[?k]" ?k]) simp_all
qed

end
