(* ===== verification/Compress.thy ===== *)
theory Compress
  imports Encoding
begin

text \<open>
  src/compress.hpp and src/compress.cpp: the block coder.  The encoder appends to a
  byte list; the decoder writes into a buffer of the declared length, and a read or a
  write outside its bounds, or a memcpy between overlapping ranges, is the value
  \<^term>\<open>None\<close>.  Words are read the way a little-endian host reads them.
\<close>

section \<open>The encoder\<close>

definition kMinMatch :: nat where
  "kMinMatch = 4"

definition kMaxOffset :: nat where
  "kMaxOffset = 65535"

definition kMinHashBits :: nat where
  "kMinHashBits = 8"

definition kMaxHashBits :: nat where
  "kMaxHashBits = 14"

function hash_bits_loop :: "nat \<Rightarrow> nat \<Rightarrow> nat" where
  "hash_bits_loop n bits =
     (if bits < kMaxHashBits \<and> 2 ^ bits < n then hash_bits_loop n (bits + 1) else bits)"
  by auto
termination
  by (relation "measure (\<lambda>(n, bits). kMaxHashBits - bits)") auto

declare hash_bits_loop.simps [simp del]

definition hash_bits_for :: "nat \<Rightarrow> nat" where
  "hash_bits_for n = hash_bits_loop n kMinHashBits"

definition hash4 :: "bytes \<Rightarrow> nat \<Rightarrow> nat" where
  "hash4 p bits = unat (drop_bit (32 - bits) (decode_fixed32 p * 2654435761))"

fun put_length :: "bytes \<Rightarrow> nat \<Rightarrow> bytes" where
  "put_length out len = (if 255 \<le> len then put_length (out @ [255]) (len - 255) else out @ [word_of_nat len])"

declare put_length.simps [simp del]

definition nibble_of :: "nat \<Rightarrow> byte" where
  "nibble_of len = (if 15 \<le> len then 15 else word_of_nat len)"

definition emit_sequence :: "bytes \<Rightarrow> bytes \<Rightarrow> nat \<Rightarrow> nat \<Rightarrow> bytes" where
  "emit_sequence out literals match_length offset =
     (let literal_count = length literals;
          match_code = (if match_length = 0 then 0 else match_length - kMinMatch);
          token = push_bit 4 (nibble_of literal_count) OR (if match_length = 0 then 0 else nibble_of match_code);
          out1 = out @ [token];
          out2 = (if 15 \<le> literal_count then put_length out1 (literal_count - 15) else out1);
          out3 = out2 @ literals
      in if match_length = 0 then out3
         else let out4 = out3 @ [word_of_nat offset, word_of_nat (offset div 256)]
              in if 15 \<le> match_code then put_length out4 (match_code - 15) else out4)"

definition max_compressed_size :: "nat \<Rightarrow> nat" where
  "max_compressed_size n = 5 + 1 + n div 255 + 1 + n"

text \<open>The two loops that extend a match.\<close>

function extend8 :: "bytes \<Rightarrow> nat \<Rightarrow> nat \<Rightarrow> nat \<Rightarrow> nat" where
  "extend8 input match_pos pos len =
     (if pos + len + 8 \<le> length input \<and>
         take 8 (drop (match_pos + len) input) = take 8 (drop (pos + len) input)
      then extend8 input match_pos pos (len + 8) else len)"
  by auto
termination
  by (relation "measure (\<lambda>(input, match_pos, pos, len). length input - len)") auto

function extend1 :: "bytes \<Rightarrow> nat \<Rightarrow> nat \<Rightarrow> nat \<Rightarrow> nat" where
  "extend1 input match_pos pos len =
     (if pos + len < length input \<and> input ! (match_pos + len) = input ! (pos + len)
      then extend1 input match_pos pos (len + 1) else len)"
  by auto
termination
  by (relation "measure (\<lambda>(input, match_pos, pos, len). length input - len)") auto

declare extend8.simps [simp del] extend1.simps [simp del]

lemma extend8_ge: "len \<le> extend8 input match_pos pos len"
proof (induction input match_pos pos len rule: extend8.induct)
  case (1 input match_pos pos len)
  then show ?case by (subst extend8.simps) auto
qed

lemma extend1_ge: "len \<le> extend1 input match_pos pos len"
proof (induction input match_pos pos len rule: extend1.induct)
  case (1 input match_pos pos len)
  then show ?case by (subst extend1.simps) auto
qed

definition match_extent :: "bytes \<Rightarrow> nat \<Rightarrow> nat \<Rightarrow> nat" where
  "match_extent input match_pos pos = extend1 input match_pos pos (extend8 input match_pos pos kMinMatch)"

lemma match_extent_ge: "kMinMatch \<le> match_extent input match_pos pos"
  unfolding match_extent_def using extend8_ge extend1_ge le_trans by blast

definition last_hashable :: "bytes \<Rightarrow> nat" where
  "last_hashable input = (if kMinMatch \<le> length input then length input - kMinMatch + 1 else 0)"

text \<open>The main loop: the table of positions plus one, the first byte not yet emitted,
  the position, the output; what is left at the end is literals.\<close>

function compress_loop :: "bytes \<Rightarrow> nat \<Rightarrow> u32 list \<Rightarrow> nat \<Rightarrow> nat \<Rightarrow> bytes \<Rightarrow> bytes" where
  "compress_loop input bits table literal_start pos out =
     (if pos < last_hashable input
      then let h = hash4 (drop pos input) bits;
               candidate = table ! h;
               table1 = table[h := word_of_nat (pos + 1)]
           in if candidate = 0
              then compress_loop input bits table1 literal_start (pos + 1) out
              else let match_pos = unat candidate - 1;
                       offset = pos - match_pos
                   in if kMaxOffset < offset \<or>
                         take kMinMatch (drop match_pos input) \<noteq> take kMinMatch (drop pos input)
                      then compress_loop input bits table1 literal_start (pos + 1) out
                      else let len = match_extent input match_pos pos;
                               out1 = emit_sequence out (take (pos - literal_start) (drop literal_start input)) len offset;
                               pos1 = pos + len;
                               table2 = (if 1 \<le> pos1 \<and> pos1 - 1 < last_hashable input
                                         then table1[hash4 (drop (pos1 - 1) input) bits := word_of_nat pos1]
                                         else table1)
                           in compress_loop input bits table2 pos1 pos1 out1
      else emit_sequence out (drop literal_start input) 0 0)"
  by auto
termination
proof (relation "measure (\<lambda>(input, bits, table, literal_start, pos, out). last_hashable input - pos)", goal_cases)
  case (4 input bits table literal_start pos out h candidate table1 match_pos offset len)
  then show ?case using match_extent_ge [of input match_pos pos] by (simp add: kMinMatch_def)
qed auto

declare compress_loop.simps [simp del]

definition compress_block :: "bytes \<Rightarrow> bytes \<Rightarrow> bytes" where
  "compress_block input output =
     (let n = length input;
          output1 = put_varint32 output (word_of_nat n)
      in if n = 0 then output1 @ [0]
         else let bits = hash_bits_for n
              in compress_loop input bits (replicate (2 ^ bits) 0) 0 0 output1)"

section \<open>The decoder\<close>

definition kWildCopyStep :: nat where
  "kWildCopyStep = 8"

definition compressed_length :: "bytes \<Rightarrow> status + (nat \<times> bytes)" where
  "compressed_length input =
     (case get_varint32 input of
        None \<Rightarrow> Inl (corruption ''compressed block has no length'')
      | Some (declared, body) \<Rightarrow>
          if 255 * length body < unat declared
          then Inl (corruption ''compressed block declares more than its bytes could deliver'')
          else Inr (unat declared, body))"

text \<open>Memory: reading and writing a range, inside the bounds or not at all.\<close>

definition read_at :: "bytes \<Rightarrow> nat \<Rightarrow> nat \<Rightarrow> bytes option" where
  "read_at mem i n = (if i + n \<le> length mem then Some (take n (drop i mem)) else None)"

definition write_at :: "bytes \<Rightarrow> nat \<Rightarrow> bytes \<Rightarrow> bytes option" where
  "write_at mem i bs =
     (if i + length bs \<le> length mem then Some (take i mem @ bs @ drop (i + length bs) mem) else None)"

text \<open>memcpy from another object, and within one, where the ranges must be apart.\<close>

definition copy_in :: "bytes \<Rightarrow> nat \<Rightarrow> bytes \<Rightarrow> nat \<Rightarrow> nat \<Rightarrow> bytes option" where
  "copy_in out to src frm n = Option.bind (read_at src frm n) (write_at out to)"

definition copy_within :: "bytes \<Rightarrow> nat \<Rightarrow> nat \<Rightarrow> nat \<Rightarrow> bytes option" where
  "copy_within out to frm n =
     (if frm + n \<le> to \<or> to + n \<le> frm then Option.bind (read_at out frm n) (write_at out to) else None)"

text \<open>wild\_copy, by its two kinds of source.\<close>

function wild_copy :: "(bytes \<Rightarrow> nat \<Rightarrow> nat \<Rightarrow> nat \<Rightarrow> bytes option) \<Rightarrow> bytes \<Rightarrow> nat \<Rightarrow> nat \<Rightarrow> nat \<Rightarrow> bytes option" where
  "wild_copy memcpy out to frm stop =
     (case memcpy out to frm kWildCopyStep of
        None \<Rightarrow> None
      | Some out' \<Rightarrow>
          if to + kWildCopyStep < stop
          then wild_copy memcpy out' (to + kWildCopyStep) (frm + kWildCopyStep) stop
          else Some out')"
  by auto
termination
  by (relation "measure (\<lambda>(memcpy, out, to, frm, stop). stop - to)") (auto simp: kWildCopyStep_def)

declare wild_copy.simps [simp del]

text \<open>The last resort of a match: one byte after another.\<close>

primrec byte_copy :: "nat \<Rightarrow> bytes \<Rightarrow> nat \<Rightarrow> nat \<Rightarrow> bytes option" where
  "byte_copy 0 out to frm = Some out"
| "byte_copy (Suc n) out to frm =
     (if frm < length out \<and> to < length out
      then byte_copy n (out[to := out ! frm]) (to + 1) (frm + 1) else None)"

fun read_extra :: "bytes \<Rightarrow> nat \<Rightarrow> nat \<Rightarrow> (nat \<times> bytes) option" where
  "read_extra [] len room = None"
| "read_extra (b # p) len room =
     (let len1 = len + unat b in
      if room < len1 then None else if b \<noteq> 255 then Some (len1, p) else read_extra p len1 room)"

lemma read_extra_shorter: "read_extra p len room = Some (n, p') \<Longrightarrow> length p' < length p"
  by (induction p len room rule: read_extra.induct) (auto simp: Let_def split: if_splits)

definition read_count :: "nat \<Rightarrow> nat \<Rightarrow> bytes \<Rightarrow> nat \<Rightarrow> (nat \<times> bytes) option" where
  "read_count nib base p room = (if nib = 15 then read_extra p (base + nib) room else Some (base + nib, p))"

definition copy_literals :: "bytes \<Rightarrow> nat \<Rightarrow> bytes \<Rightarrow> nat \<Rightarrow> nat \<Rightarrow> bytes option" where
  "copy_literals out produced p literal_count room =
     (if literal_count + kWildCopyStep \<le> length p \<and> literal_count + kWildCopyStep \<le> room
      then wild_copy (\<lambda>out to frm n. copy_in out to p frm n) out produced 0 (produced + literal_count)
      else copy_in out produced p 0 literal_count)"

definition copy_match :: "bytes \<Rightarrow> nat \<Rightarrow> nat \<Rightarrow> nat \<Rightarrow> nat \<Rightarrow> bytes option" where
  "copy_match out produced offset match_length match_room =
     (if kWildCopyStep \<le> offset \<and> match_length + kWildCopyStep \<le> match_room
      then wild_copy copy_within out produced (produced - offset) (produced + match_length)
      else if match_length \<le> offset then copy_within out produced (produced - offset) match_length
      else byte_copy match_length out produced (produced - offset))"

lemma read_count_shorter: "read_count nib base p room = Some (n, p') \<Longrightarrow> length p' \<le> length p"
  by (auto simp: read_count_def split: if_splits dest: read_extra_shorter)

function decompress_loop :: "bytes \<Rightarrow> nat \<Rightarrow> bytes \<Rightarrow> nat \<Rightarrow> (status \<times> bytes) option" where
  "decompress_loop out produced p tot =
     (case p of
        [] \<Rightarrow> Some (corruption ''compressed block ends before its last token'', out)
      | token # p1 \<Rightarrow>
        let room = tot - produced in
        (case read_count (unat (drop_bit 4 token)) 0 p1 room of
           None \<Rightarrow> Some (corruption ''literal length overruns the block'', out)
         | Some (literal_count, p2) \<Rightarrow>
           if room < literal_count then Some (corruption ''literals overrun the declared size'', out)
           else if length p2 < literal_count
           then Some (corruption ''literals overrun the compressed input'', out)
           else (case copy_literals out produced p2 literal_count room of
             None \<Rightarrow> None
           | Some out1 \<Rightarrow>
             let produced1 = produced + literal_count; p3 = drop literal_count p2 in
             if p3 = []
             then if produced1 \<noteq> tot
                  then Some (corruption ''compressed block delivers less than it declares'', out1)
                  else Some (status_ok, out1)
             else if length p3 < 2
             then Some (corruption ''match offset overruns the compressed input'', out1)
             else let offset = unat (p3 ! 0) + 256 * unat (p3 ! 1); p4 = drop 2 p3 in
               if offset = 0 \<or> produced1 < offset
               then Some (corruption ''match reaches before the start of the block'', out1)
               else let match_room = tot - produced1 in
                 (case read_count (unat (token AND 0xf)) kMinMatch p4 match_room of
                    None \<Rightarrow> Some (corruption ''match length overruns the block'', out1)
                  | Some (match_length, p5) \<Rightarrow>
                    if match_room < match_length
                    then Some (corruption ''match overruns the declared size'', out1)
                    else (case copy_match out1 produced1 offset match_length match_room of
                      None \<Rightarrow> None
                    | Some out2 \<Rightarrow> decompress_loop out2 (produced1 + match_length) p5 tot)))))"
  by auto
termination
  by (relation "measure (\<lambda>(out, produced, p, tot). length p)")
    (auto dest!: read_count_shorter)

declare decompress_loop.simps [simp del]

definition decompress_into :: "bytes \<Rightarrow> bytes \<Rightarrow> nat \<Rightarrow> (status \<times> bytes) option" where
  "decompress_into input out tot = decompress_loop out 0 input tot"

definition decompress_block :: "bytes \<Rightarrow> (status \<times> bytes) option" where
  "decompress_block input =
     (case compressed_length input of
        Inl s \<Rightarrow> Some (s, [])
      | Inr (tot, body) \<Rightarrow> decompress_into body (replicate tot 0) tot)"

end
