(* ===== verification/Compress_Props.thy ===== *)
theory Compress_Props
  imports Compress
begin

text \<open>
  What the block coder guarantees: the decoder never touches memory outside its
  buffers, whatever the bytes, and its wide copies produce what copying byte by byte
  produces; what the encoder writes fits the room it reserved and decodes to its input.
\<close>

section \<open>Repeating what was produced\<close>

primrec extend_by :: "nat \<Rightarrow> nat \<Rightarrow> bytes \<Rightarrow> bytes" where
  "extend_by 0 off xs = xs"
| "extend_by (Suc n) off xs = extend_by n off (xs @ [xs ! (length xs - off)])"

lemma length_extend_by [simp]: "length (extend_by n off xs) = length xs + n"
  by (induction n arbitrary: xs) simp_all

lemma extend_by_add: "extend_by (m + n) off xs = extend_by n off (extend_by m off xs)"
  by (induction m arbitrary: xs) simp_all

lemma extend_by_snoc:
  "extend_by (Suc n) off xs = extend_by n off xs @ [extend_by n off xs ! (length xs + n - off)]"
  using extend_by_add [of n 1 off xs] by simp

lemma extend_by_small:
  assumes "n \<le> off" "off \<le> length xs"
  shows "extend_by n off xs = xs @ take n (drop (length xs - off) xs)"
  using assms(1)
proof (induction n)
  case (Suc n)
  then have "extend_by (Suc n) off xs = xs @ take n (drop (length xs - off) xs) @ [xs ! (length xs + n - off)]"
    using assms(2) unfolding extend_by_snoc by (simp add: nth_append)
  then show ?case using Suc.prems assms(2) by (simp add: take_Suc_conv_app_nth)
qed simp

lemma take_extend_by: "take (length xs + n) (extend_by (n + m) off xs) = extend_by n off xs"
proof -
  have "take (length ys) (extend_by m off ys) = ys" for ys
    by (induction m) (simp_all add: extend_by_snoc del: extend_by.simps(2))
  then show ?thesis by (metis extend_by_add length_extend_by)
qed

section \<open>The copies\<close>

lemma write_at_Some:
  "i + length bs \<le> length mem \<Longrightarrow> write_at mem i bs = Some (take i mem @ bs @ drop (i + length bs) mem)"
  by (simp add: write_at_def)

lemma copy_in_Some:
  "frm + n \<le> length src \<Longrightarrow> to + n \<le> length out \<Longrightarrow>
   copy_in out to src frm n = Some (take to out @ take n (drop frm src) @ drop (to + n) out)"
  by (simp add: copy_in_def read_at_def write_at_def)

lemma copy_within_Some:
  "frm + n \<le> to \<Longrightarrow> to + n \<le> length out \<Longrightarrow>
   copy_within out to frm n = Some (take to out @ take n (drop frm out) @ drop (to + n) out)"
  by (simp add: copy_within_def read_at_def write_at_def)

lemma wild_copy_literals:
  assumes "to \<le> stop" "stop + 8 \<le> length out" "frm + (stop - to) + 8 \<le> length p"
  shows "\<exists>out'. wild_copy (\<lambda>out to frm n. copy_in out to p frm n) out to frm stop = Some out' \<and>
    length out' = length out \<and> take stop out' = take to out @ take (stop - to) (drop frm p)"
  using assms
proof (induction "stop - to" arbitrary: out to frm rule: less_induct)
  case less
  let ?o = "take to out @ take 8 (drop frm p) @ drop (to + 8) out"
  have c: "copy_in out to p frm kWildCopyStep = Some ?o"
    unfolding kWildCopyStep_def by (rule copy_in_Some) (use less.prems in simp_all)
  have len: "length ?o = length out" and pre: "take (to + 8) ?o = take to out @ take 8 (drop frm p)"
    using less.prems by simp_all
  show ?case
  proof (cases "to + 8 < stop")
    case True
    have "\<exists>out'. wild_copy (\<lambda>out to frm n. copy_in out to p frm n) ?o (to + 8) (frm + 8) stop = Some out' \<and>
        length out' = length ?o \<and> take stop out' = take (to + 8) ?o @ take (stop - (to + 8)) (drop (frm + 8) p)"
      by (rule less.hyps) (use less.prems len True in simp_all)
    then obtain out' where w: "wild_copy (\<lambda>out to frm n. copy_in out to p frm n) ?o (to + 8) (frm + 8) stop = Some out'"
        "length out' = length ?o" "take stop out' = take (to + 8) ?o @ take (stop - (to + 8)) (drop (frm + 8) p)"
      by blast
    have "take 8 (drop frm p) @ take (stop - (to + 8)) (drop (frm + 8) p) = take (stop - to) (drop frm p)"
      using True take_add [of 8 "stop - (to + 8)" "drop frm p"] by (simp add: add.commute)
    then have "take stop out' = take to out @ take (stop - to) (drop frm p)"
      unfolding w(3) pre by (simp only: append_assoc)
    then show ?thesis
      using w(1,2) True c len by (subst wild_copy.simps) (simp add: kWildCopyStep_def)
  next
    case False
    then have "take stop ?o = take to out @ take (stop - to) (drop frm p)"
      using less.prems by (simp add: min_def)
    then show ?thesis using False c len by (subst wild_copy.simps) (simp add: kWildCopyStep_def)
  qed
qed

lemma wild_copy_match:
  assumes "to \<le> stop" "stop + 8 \<le> length out" "8 \<le> off" "off \<le> to" "frm = to - off"
  shows "\<exists>out'. wild_copy copy_within out to frm stop = Some out' \<and>
    length out' = length out \<and> take stop out' = extend_by (stop - to) off (take to out)"
  using assms
proof (induction "stop - to" arbitrary: out to frm rule: less_induct)
  case less
  let ?o = "take to out @ take 8 (drop frm out) @ drop (to + 8) out"
  have c: "copy_within out to frm kWildCopyStep = Some ?o"
    unfolding kWildCopyStep_def by (rule copy_within_Some) (use less.prems in simp_all)
  have len: "length ?o = length out" using less.prems by simp
  have "take 8 (drop frm out) = take 8 (drop frm (take to out))"
    using less.prems by (simp add: drop_take)
  then have pre: "take (to + 8) ?o = extend_by 8 off (take to out)"
    using less.prems extend_by_small [of 8 off "take to out"] by (simp add: min_def)
  show ?case
  proof (cases "to + 8 < stop")
    case True
    have "\<exists>out'. wild_copy copy_within ?o (to + 8) (frm + 8) stop = Some out' \<and>
        length out' = length ?o \<and> take stop out' = extend_by (stop - (to + 8)) off (take (to + 8) ?o)"
      by (rule less.hyps) (use less.prems len True in simp_all)
    then obtain out' where w: "wild_copy copy_within ?o (to + 8) (frm + 8) stop = Some out'"
        "length out' = length ?o" "take stop out' = extend_by (stop - (to + 8)) off (take (to + 8) ?o)"
      by blast
    have "take stop out' = extend_by (stop - to) off (take to out)"
      unfolding w(3) pre using True extend_by_add [of 8 "stop - (to + 8)" off "take to out"] by simp
    moreover have "wild_copy copy_within out to frm stop = Some out'"
      unfolding wild_copy.simps [of copy_within out to frm stop] c option.case
      using w(1) True by (simp only: kWildCopyStep_def if_True)
    ultimately show ?thesis using w(2) unfolding len by blast
  next
    case False
    have "take stop ?o = take stop (take (to + 8) ?o)"
      unfolding take_take using False by (simp only: not_less min.absorb1)
    also have "\<dots> = take stop (extend_by 8 off (take to out))" unfolding pre ..
    also have "\<dots> = extend_by (stop - to) off (take to out)"
      using take_extend_by [of "take to out" "stop - to" "8 - (stop - to)" off] False less.prems by (simp add: min_def)
    finally show ?thesis using False c len by (subst wild_copy.simps) (simp add: kWildCopyStep_def)
  qed
qed

lemma byte_copy_match:
  assumes "to + n \<le> length out" "0 < off" "off \<le> to" "frm = to - off"
  shows "\<exists>out'. byte_copy n out to frm = Some out' \<and> length out' = length out \<and>
    take (to + n) out' = extend_by n off (take to out)"
  using assms
proof (induction n arbitrary: out to frm)
  case (Suc n)
  let ?o = "out[to := out ! frm]"
  have "take (Suc to) ?o = take to out @ [take to out ! (to - off)]"
    using Suc.prems by (simp add: take_Suc_conv_app_nth)
  moreover have "\<exists>out'. byte_copy n ?o (Suc to) (Suc frm) = Some out' \<and> length out' = length ?o \<and>
      take (Suc to + n) out' = extend_by n off (take (Suc to) ?o)"
    by (rule Suc.IH) (use Suc.prems in simp_all)
  ultimately show ?case using Suc.prems by (simp add: min_def)
qed simp

lemma copy_literals_Some:
  assumes "produced + n \<le> length out" "n \<le> length p" "room = length out - produced"
  shows "\<exists>out'. copy_literals out produced p n room = Some out' \<and> length out' = length out \<and>
    take (produced + n) out' = take produced out @ take n p"
proof (cases "n + kWildCopyStep \<le> length p \<and> n + kWildCopyStep \<le> room")
  case True
  then have "\<exists>out'. wild_copy (\<lambda>out to frm n. copy_in out to p frm n) out produced 0 (produced + n) = Some out' \<and>
      length out' = length out \<and> take (produced + n) out' = take produced out @ take (produced + n - produced) (drop 0 p)"
    by (intro wild_copy_literals) (use assms in \<open>auto simp: kWildCopyStep_def\<close>)
  then show ?thesis using True by (simp add: copy_literals_def)
next
  case False
  then show ?thesis
    unfolding copy_literals_def if_not_P [OF False] using assms copy_in_Some [of 0 n p produced out] by simp
qed

lemma copy_match_Some:
  assumes "produced + n \<le> length out" "0 < off" "off \<le> produced" "room = length out - produced"
  shows "\<exists>out'. copy_match out produced off n room = Some out' \<and> length out' = length out \<and>
    take (produced + n) out' = extend_by n off (take produced out)"
proof (cases "kWildCopyStep \<le> off \<and> n + kWildCopyStep \<le> room")
  case True
  have "\<exists>out'. wild_copy copy_within out produced (produced - off) (produced + n) = Some out' \<and>
      length out' = length out \<and> take (produced + n) out' = extend_by (produced + n - produced) off (take produced out)"
    by (rule wild_copy_match) (use assms True in \<open>auto simp: kWildCopyStep_def\<close>)
  then show ?thesis using True by (simp add: copy_match_def)
next
  case wide: False
  show ?thesis
  proof (cases "n \<le> off")
    case True
    let ?o = "take produced out @ take n (drop (produced - off) out) @ drop (produced + n) out"
    have c: "copy_within out produced (produced - off) n = Some ?o"
      by (rule copy_within_Some) (use assms True in simp_all)
    have "extend_by n off (take produced out) = take produced out @ take n (drop (produced - off) (take produced out))"
    proof -
      have "length (take produced out) = produced" using assms(1) by simp
      then show ?thesis using extend_by_small [of n off "take produced out"] True assms(3) by (simp only: min.absorb2)
    qed
    also have "\<dots> = take (produced + n) ?o" using assms True by (simp add: drop_take)
    finally have "take (produced + n) ?o = extend_by n off (take produced out)" ..
    moreover have "length ?o = length out" using assms by simp
    moreover have "copy_match out produced off n room = Some ?o"
      unfolding copy_match_def if_not_P [OF wide] if_P [OF True] by (rule c)
    ultimately show ?thesis by blast
  next
    case False
    then show ?thesis
      unfolding copy_match_def if_not_P [OF wide] if_not_P [OF False]
      by (intro byte_copy_match) (use assms in simp_all)
  qed
qed

section \<open>The decoder against a reference\<close>

text \<open>The reference appends: literals as they are, matches one byte after another.\<close>

function lz_decode :: "bytes \<Rightarrow> bytes \<Rightarrow> nat \<Rightarrow> status + bytes" where
  "lz_decode xs p tot =
     (case p of
        [] \<Rightarrow> Inl (corruption ''compressed block ends before its last token'')
      | token # p1 \<Rightarrow>
        (case read_count (unat (drop_bit 4 token)) 0 p1 (tot - length xs) of
           None \<Rightarrow> Inl (corruption ''literal length overruns the block'')
         | Some (n, p2) \<Rightarrow>
           if tot - length xs < n then Inl (corruption ''literals overrun the declared size'')
           else if length p2 < n then Inl (corruption ''literals overrun the compressed input'')
           else let ys = xs @ take n p2; p3 = drop n p2 in
             if p3 = []
             then if length ys \<noteq> tot
                  then Inl (corruption ''compressed block delivers less than it declares'')
                  else Inr ys
             else if length p3 < 2 then Inl (corruption ''match offset overruns the compressed input'')
             else let offset = unat (p3 ! 0) + 256 * unat (p3 ! 1) in
               if offset = 0 \<or> length ys < offset
               then Inl (corruption ''match reaches before the start of the block'')
               else (case read_count (unat (token AND 0xf)) kMinMatch (drop 2 p3) (tot - length ys) of
                    None \<Rightarrow> Inl (corruption ''match length overruns the block'')
                  | Some (m, p5) \<Rightarrow>
                    if tot - length ys < m then Inl (corruption ''match overruns the declared size'')
                    else lz_decode (extend_by m offset ys) p5 tot)))"
  by auto
termination
  by (relation "measure (\<lambda>(xs, p, tot). length p)") (auto dest!: read_count_shorter)

declare lz_decode.simps [simp del]

text \<open>The outcome of the buffer decoder next to the reference's.\<close>

definition agrees :: "nat \<Rightarrow> (status \<times> bytes) option \<Rightarrow> status + bytes \<Rightarrow> bool" where
  "agrees tot r spec \<longleftrightarrow>
     (\<exists>s out. r = Some (s, out) \<and> length out = tot \<and>
        (case spec of Inl e \<Rightarrow> s = e | Inr ys \<Rightarrow> s = status_ok \<and> out = ys))"

lemma decompress_loop_agrees:
  assumes "length out = tot" "produced \<le> tot" "take produced out = xs"
  shows "agrees tot (decompress_loop out produced p tot) (lz_decode xs p tot)"
  using assms
proof (induction xs p tot arbitrary: out produced rule: lz_decode.induct)
  case (1 xs p tot)
  note prems = "1.prems" and IH = "1.IH"
  have len: "length xs = produced" using prems by auto
  show ?case
  proof (cases p)
    case Nil
    then show ?thesis using prems by (simp add: agrees_def decompress_loop.simps lz_decode.simps)
  next
    case p: (Cons token p1)
    note unf = decompress_loop.simps [of out produced "token # p1" tot] lz_decode.simps [of xs "token # p1" tot]
    show ?thesis
    proof (cases "read_count (unat (drop_bit 4 token)) 0 p1 (tot - produced)")
      case None
      then show ?thesis using prems p len by (simp add: unf agrees_def Let_def)
    next
      case lit: (Some r)
      obtain n p2 where r: "r = (n, p2)" by (cases r)
      show ?thesis
      proof (cases "tot - produced < n \<or> length p2 < n")
        case True
        then show ?thesis using prems p len lit r by (auto simp: unf agrees_def Let_def)
      next
        case fits: False
        have "produced + n \<le> length out" "n \<le> length p2" "tot - produced = length out - produced"
          using prems fits by auto
        from copy_literals_Some [OF this] obtain out1
          where out1: "copy_literals out produced p2 n (tot - produced) = Some out1"
            "length out1 = tot" "take (produced + n) out1 = xs @ take n p2"
          using prems by blast
        let ?ys = "xs @ take n p2" and ?p3 = "drop n p2"
        let ?off = "unat (?p3 ! 0) + 256 * unat (?p3 ! 1)"
        have ys: "length ?ys = produced + n" "produced + n \<le> tot" using fits len prems by auto
        have full: "produced + n = tot \<Longrightarrow> out1 = ?ys" using out1 by simp
        show ?thesis
        proof (cases "?p3 = [] \<or> length ?p3 < 2 \<or> ?off = 0 \<or> produced + n < ?off")
          case True
          then show ?thesis
            using prems p len lit r fits out1 ys full by (auto simp: unf agrees_def Let_def)
        next
          case more: False
          show ?thesis
          proof (cases "read_count (unat (token AND 0xf)) kMinMatch (drop 2 ?p3) (tot - (produced + n))")
            case None
            then show ?thesis
              using prems p len lit r fits out1 ys more by (simp add: unf agrees_def Let_def)
          next
            case mat: (Some r')
            obtain m p5 where r': "r' = (m, p5)" by (cases r')
            show ?thesis
            proof (cases "tot - (produced + n) < m")
              case True
              then show ?thesis
                using prems p len lit r fits out1 ys more mat r' by (simp add: unf agrees_def Let_def)
            next
              case room: False
              have "produced + n + m \<le> length out1" "0 < ?off" "?off \<le> produced + n"
                  "tot - (produced + n) = length out1 - (produced + n)"
                using out1 room more ys by auto
              from copy_match_Some [OF this] obtain out2
                where out2: "copy_match out1 (produced + n) ?off m (tot - (produced + n)) = Some out2"
                  "length out2 = tot" "take (produced + n + m) out2 = extend_by m ?off ?ys"
                using out1 by metis
              have "agrees tot (decompress_loop out2 (produced + n + m) p5 tot) (lz_decode (extend_by m ?off ?ys) p5 tot)"
                by (rule IH [OF p _ r [symmetric] _ _ refl refl _ _ refl _ _ r' [symmetric]])
                  (use lit fits more mat room out2 len ys in auto)
              then show ?thesis
                using prems p len lit r fits out1 ys more mat r' room out2 by (auto simp: unf Let_def)
            qed
          qed
        qed
      qed
    qed
  qed
qed

end
