(* ===== verification/Compress_Round.thy ===== *)
theory Compress_Round
  imports Compress_Props
begin

text \<open>
  The encoder: every stream it writes decodes to the input it was given, stays within
  the room reserved for it, and passes the decoder's plausibility check.
\<close>

section \<open>Lengths\<close>

fun len_bytes :: "nat \<Rightarrow> bytes" where
  "len_bytes n = (if 255 \<le> n then 255 # len_bytes (n - 255) else [word_of_nat n])"

declare len_bytes.simps [simp del]

lemma put_length_eq: "put_length out n = out @ len_bytes n"
proof (induction out n rule: put_length.induct)
  case (1 out n)
  then show ?case by (subst put_length.simps, subst len_bytes.simps) simp
qed

lemma length_len_bytes: "length (len_bytes n) = n div 255 + 1"
proof (induction n rule: len_bytes.induct)
  case (1 n)
  then show ?case by (subst len_bytes.simps) (simp add: le_div_geq)
qed

lemma byte_small: "n < 255 \<Longrightarrow> (word_of_nat n :: byte) \<noteq> 255"
proof
  assume "n < 255" "(word_of_nat n :: byte) = 255"
  then have "unat (word_of_nat n :: byte) = 255" by simp
  then show False using \<open>n < 255\<close> by simp
qed

lemma read_extra_len_bytes:
  "base + n \<le> room \<Longrightarrow> read_extra (len_bytes n @ rest) base room = Some (base + n, rest)"
proof (induction n arbitrary: base rule: len_bytes.induct)
  case (1 n)
  show ?case
  proof (cases "255 \<le> n")
    case True
    then show ?thesis using "1.IH" [of "base + 255"] "1.prems" by (subst len_bytes.simps) (simp add: Let_def)
  next
    case False
    then have "unat (word_of_nat n :: byte) = n" by simp
    then show ?thesis using False "1.prems" byte_small [of n] by (subst len_bytes.simps) (simp add: Let_def)
  qed
qed

definition extra :: "nat \<Rightarrow> bytes" where
  "extra n = (if 15 \<le> n then len_bytes (n - 15) else [])"

lemma unat_nibble_of: "unat (nibble_of n) = min 15 n"
  by (simp add: nibble_of_def min_def)

lemma read_count_extra:
  "base + n \<le> room \<Longrightarrow> read_count (unat (nibble_of n)) base (extra n @ rest) room = Some (base + n, rest)"
  using read_extra_len_bytes [of "base + 15" "n - 15" room rest]
  by (simp add: read_count_def extra_def unat_nibble_of min_def)

section \<open>Sequences\<close>

definition seq_bytes :: "bytes \<Rightarrow> nat \<Rightarrow> nat \<Rightarrow> bytes" where
  "seq_bytes lits m off =
     (push_bit 4 (nibble_of (length lits)) OR (if m = 0 then 0 else nibble_of (m - kMinMatch))) #
     extra (length lits) @ lits @
     (if m = 0 then [] else [word_of_nat off, word_of_nat (off div 256)] @ extra (m - kMinMatch))"

lemma emit_sequence_eq: "emit_sequence out lits m off = out @ seq_bytes lits m off"
  by (simp add: emit_sequence_def seq_bytes_def extra_def put_length_eq Let_def)

lemma nibble_high: "unat (a :: byte) < 16 \<Longrightarrow> unat (b :: byte) < 16 \<Longrightarrow> drop_bit 4 (push_bit 4 a OR b) = a"
proof -
  assume "unat a < 16" "unat b < 16"
  then have "take_bit 4 a = a" "take_bit 4 b = b"
    by (simp_all add: word_unat_eq_iff unsigned_take_bit_eq take_bit_nat_eq_self)
  then have "\<not> bit a n" "\<not> bit b n" if "4 \<le> n" for n
    using that by (metis bit_take_bit_iff not_le)+
  then show ?thesis by (intro bit_word_eqI) (auto simp: bit_simps, meson not_le)
qed

lemma nibble_low: "unat (b :: byte) < 16 \<Longrightarrow> (push_bit 4 a OR b) AND 0xf = b"
proof -
  assume "unat b < 16"
  then have "take_bit 4 b = b" by (simp add: word_unat_eq_iff unsigned_take_bit_eq take_bit_nat_eq_self)
  then have "\<not> bit b n" if "4 \<le> n" for n using that by (metis bit_take_bit_iff not_le)
  then have "(push_bit 4 a OR b) AND mask 4 = b"
    by (intro bit_word_eqI) (auto simp: bit_simps, meson not_le)
  moreover have "(0xf :: byte) = mask 4" by (simp add: mask_eq_exp_minus_1)
  ultimately show ?thesis by simp
qed

lemma offset_bytes:
  "off \<le> kMaxOffset \<Longrightarrow> unat (word_of_nat off :: byte) + 256 * unat (word_of_nat (off div 256) :: byte) = off"
  by (simp add: kMaxOffset_def unsigned_of_nat take_bit_eq_mod)

lemma lz_decode_last:
  assumes "length xs + length lits = tot"
  shows "lz_decode xs (seq_bytes lits 0 0) tot = Inr (xs @ lits)"
proof -
  have "drop_bit 4 (push_bit 4 (nibble_of (length lits)) OR 0) = nibble_of (length lits)"
    by (rule nibble_high) (simp_all add: unat_nibble_of min_def)
  moreover have "read_count (unat (nibble_of (length lits))) 0 (extra (length lits) @ lits) (tot - length xs) = Some (length lits, lits)"
    using read_count_extra [of 0 "length lits" "tot - length xs" lits] assms by simp
  ultimately show ?thesis
    using assms unfolding seq_bytes_def lz_decode.simps [of xs "_ # _"] by (simp add: Let_def)
qed

lemma lz_decode_match:
  assumes "4 \<le> m" "0 < off" "off \<le> kMaxOffset" "off \<le> length xs + length lits"
    and "length xs + length lits + m \<le> tot"
  shows "lz_decode xs (seq_bytes lits m off @ rest) tot = lz_decode (extend_by m off (xs @ lits)) rest tot"
proof -
  let ?l = "length lits" and ?t = "push_bit 4 (nibble_of (length lits)) OR nibble_of (m - kMinMatch)"
  let ?p = "[word_of_nat off, word_of_nat (off div 256)] @ extra (m - kMinMatch) @ rest"
  have high: "drop_bit 4 ?t = nibble_of ?l" and low: "?t AND 0xf = nibble_of (m - kMinMatch)"
    by (rule nibble_high nibble_low; simp add: unat_nibble_of min_def)+
  have lit: "read_count (unat (nibble_of ?l)) 0 (extra ?l @ lits @ ?p) (tot - length xs) = Some (?l, lits @ ?p)"
    using read_count_extra [of 0 ?l "tot - length xs" "lits @ ?p"] assms by simp
  have mat: "read_count (unat (nibble_of (m - kMinMatch))) kMinMatch (extra (m - kMinMatch) @ rest)
      (tot - length (xs @ lits)) = Some (m, rest)"
    using read_count_extra [of kMinMatch "m - kMinMatch" "tot - length (xs @ lits)" rest] assms by (simp add: kMinMatch_def)
  have seq: "seq_bytes lits m off @ rest = ?t # extra ?l @ lits @ ?p"
    using assms(1) by (simp add: seq_bytes_def)
  have room: "\<not> tot - (length xs + ?l) < m" "\<not> tot - length xs < ?l" using assms by linarith+
  show ?thesis
    unfolding seq lz_decode.simps [of xs "?t # extra ?l @ lits @ ?p"] list.case high lit option.case prod.case Let_def
    using assms(1,2,4) room low mat offset_bytes [OF assms(3)] by simp
qed

section \<open>Matches\<close>

definition same_run :: "bytes \<Rightarrow> nat \<Rightarrow> nat \<Rightarrow> nat \<Rightarrow> bool" where
  "same_run input q pos len \<longleftrightarrow> pos + len \<le> length input \<and> (\<forall>j < len. input ! (q + j) = input ! (pos + j))"

lemma same_run_take:
  assumes "q < pos" "pos + n \<le> length input" "take n (drop q input) = take n (drop pos input)"
  shows "\<forall>j < n. input ! (q + j) = input ! (pos + j)"
proof (intro allI impI)
  fix j assume "j < n"
  then have "take n (drop q input) ! j = input ! (q + j)" "take n (drop pos input) ! j = input ! (pos + j)"
    using assms(1,2) by simp_all
  then show "input ! (q + j) = input ! (pos + j)" using assms(3) by simp
qed

lemma same_run_extend8: "q < pos \<Longrightarrow> same_run input q pos len \<Longrightarrow> same_run input q pos (extend8 input q pos len)"
proof (induction input q pos len rule: extend8.induct)
  case (1 input q pos len)
  show ?case
  proof (cases "pos + len + 8 \<le> length input \<and> take 8 (drop (q + len) input) = take 8 (drop (pos + len) input)")
    case True
    have "input ! (q + j) = input ! (pos + j)" if "j < len + 8" for j
    proof (cases "j < len")
      case False
      then have "j - len < 8" using that by simp
      then have "input ! (q + len + (j - len)) = input ! (pos + len + (j - len))"
        using same_run_take [of "q + len" "pos + len" 8 input] True "1.prems" by simp
      then show ?thesis using False by simp
    qed (use "1.prems" in \<open>simp add: same_run_def\<close>)
    then have "same_run input q pos (len + 8)" using True by (simp add: same_run_def)
    then show ?thesis using "1.IH" "1.prems" True by (subst extend8.simps) simp
  next
    case False
    then show ?thesis using "1.prems" by (subst extend8.simps) auto
  qed
qed

lemma same_run_extend1: "same_run input q pos len \<Longrightarrow> same_run input q pos (extend1 input q pos len)"
proof (induction input q pos len rule: extend1.induct)
  case (1 input q pos len)
  show ?case
  proof (cases "pos + len < length input \<and> input ! (q + len) = input ! (pos + len)")
    case True
    then have "same_run input q pos (len + 1)" using "1.prems" by (auto simp: same_run_def less_Suc_eq)
    then show ?thesis using "1.IH" True by (subst extend1.simps) simp
  next
    case False
    then show ?thesis using "1.prems" by (subst extend1.simps) auto
  qed
qed

lemma same_run_match_extent:
  assumes "q < pos" "pos < last_hashable input" "take kMinMatch (drop q input) = take kMinMatch (drop pos input)"
  shows "same_run input q pos (match_extent input q pos)"
proof -
  have n: "pos + 4 \<le> length input" using assms(2) by (auto simp: last_hashable_def kMinMatch_def split: if_splits)
  then have "same_run input q pos kMinMatch"
    using same_run_take [of q pos 4 input] assms by (simp add: same_run_def kMinMatch_def)
  then show ?thesis
    unfolding match_extent_def by (intro same_run_extend1 same_run_extend8 assms(1))
qed

lemma extend_by_run:
  assumes "q < pos" "same_run input q pos m"
  shows "extend_by m (pos - q) (take pos input) = take (pos + m) input"
  using assms(2)
proof (induction m)
  case (Suc m)
  then have run: "same_run input q pos m" "pos + m < length input" "input ! (q + m) = input ! (pos + m)"
    by (auto simp: same_run_def)
  have "extend_by (Suc m) (pos - q) (take pos input) =
      take (pos + m) input @ [take (pos + m) input ! (pos + m - (pos - q))]"
    unfolding extend_by_snoc Suc.IH [OF run(1)] using run(2) by (simp add: min_def)
  also have "take (pos + m) input ! (pos + m - (pos - q)) = input ! (pos + m)"
    using assms(1) run by (simp add: add.commute)
  finally show ?case using run(2) by (simp add: take_Suc_conv_app_nth)
qed simp

section \<open>Sizes\<close>

lemma length_extra: "length (extra n) = (if 15 \<le> n then (n - 15) div 255 + 1 else 0)"
  by (simp add: extra_def length_len_bytes)

lemma length_seq_last: "length (seq_bytes lits 0 0) = 1 + length (extra (length lits)) + length lits"
  by (simp add: seq_bytes_def)

lemma length_seq_match:
  "4 \<le> m \<Longrightarrow> length (seq_bytes lits m off) = 3 + length (extra (length lits)) + length lits + length (extra (m - 4))"
  by (simp add: seq_bytes_def kMinMatch_def)

lemma seq_last_bounds:
  "length (seq_bytes lits 0 0) \<le> length lits + length lits div 255 + 2"
  "length lits \<le> 255 * length (seq_bytes lits 0 0)"
proof -
  have "(length lits - 15) div 255 \<le> length lits div 255" by (rule div_le_mono) simp
  then show "length (seq_bytes lits 0 0) \<le> length lits + length lits div 255 + 2"
    unfolding length_seq_last length_extra by simp
  show "length lits \<le> 255 * length (seq_bytes lits 0 0)" unfolding length_seq_last by simp
qed

lemma seq_match_bounds:
  assumes "4 \<le> m"
  shows "length (seq_bytes lits m off) \<le> length lits + m + length lits div 255"
    "length lits + m \<le> 255 * length (seq_bytes lits m off)"
proof -
  have "(length lits - 15) div 255 \<le> length lits div 255" by (rule div_le_mono) simp
  moreover have "(m - 19) div 255 + 1 \<le> m - 4" if "19 \<le> m" using that by simp
  ultimately show "length (seq_bytes lits m off) \<le> length lits + m + length lits div 255"
    using assms unfolding length_seq_match [OF assms] length_extra by auto
  have "m - 19 \<le> 255 * ((m - 19) div 255) + 254"
    using div_mult_mod_eq [of "m - 19" 255] mod_less_divisor [of 255 "m - 19"] by linarith
  then show "length lits + m \<le> 255 * length (seq_bytes lits m off)"
    using assms unfolding length_seq_match [OF assms] length_extra by auto
qed

lemma div_superadditive: "a div 255 + b div 255 \<le> (a + b) div (255 :: nat)"
  by (metis div_add1_eq le_add1)

section \<open>The main loop\<close>

lemma hash_bits_bound: "bits \<le> kMaxHashBits \<Longrightarrow> hash_bits_loop n bits \<le> kMaxHashBits"
proof (induction n bits rule: hash_bits_loop.induct)
  case (1 n bits)
  then show ?case by (subst hash_bits_loop.simps) auto
qed

lemma hash4_bound:
  assumes "bits \<le> 32"
  shows "hash4 p bits < 2 ^ bits"
proof -
  let ?w = "decode_fixed32 p * 2654435761"
  have "unat ?w < 2 ^ bits * 2 ^ (32 - bits)"
    using unsigned_less [of ?w, where 'a = nat] assms by (simp flip: power_add)
  then have "unat ?w div 2 ^ (32 - bits) < 2 ^ bits" by (rule less_mult_imp_div_less)
  moreover have "hash4 p bits = drop_bit (32 - bits) (unat ?w)"
    unfolding hash4_def using unsigned_less [of ?w, where 'a = nat]
    by (simp add: unsigned_drop_bit_eq take_bit_nat_eq_self)
  ultimately show ?thesis by (simp add: drop_bit_eq_div)
qed

definition good :: "bytes \<Rightarrow> nat \<Rightarrow> bytes \<Rightarrow> bytes \<Rightarrow> bool" where
  "good input ls out r \<longleftrightarrow>
     (\<exists>body. r = out @ body \<and> lz_decode (take ls input) body (length input) = Inr input \<and>
        length body \<le> (length input - ls) + (length input - ls) div 255 + 2 \<and>
        length input - ls \<le> 255 * length body)"

lemma good_last:
  "ls \<le> length input \<Longrightarrow> good input ls out (emit_sequence out (drop ls input) 0 0)"
  unfolding good_def emit_sequence_eq
  using lz_decode_last [of "take ls input" "drop ls input" "length input"] seq_last_bounds [of "drop ls input"]
  by (auto intro!: exI [of _ "seq_bytes (drop ls input) 0 0"])

lemma good_match:
  assumes "ls \<le> pos" "q < pos" "same_run input q pos m" "4 \<le> m" "pos - q \<le> kMaxOffset"
    and "good input (pos + m) (emit_sequence out (take (pos - ls) (drop ls input)) m (pos - q)) r"
  shows "good input ls out r"
proof -
  let ?l = "take (pos - ls) (drop ls input)" and ?s = "seq_bytes (take (pos - ls) (drop ls input)) m (pos - q)"
  let ?n = "length input"
  have n: "pos + m \<le> ?n" using assms(3) by (simp add: same_run_def)
  obtain body where body: "r = out @ ?s @ body" "lz_decode (take (pos + m) input) body ?n = Inr input"
      "length body \<le> (?n - (pos + m)) + (?n - (pos + m)) div 255 + 2" "?n - (pos + m) \<le> 255 * length body"
    using assms(6) by (auto simp: good_def emit_sequence_eq)
  have lits: "take ls input @ ?l = take pos input" "length ?l = pos - ls"
    using assms(1) n take_add [of ls "pos - ls" input] by simp_all
  have "lz_decode (take ls input) (?s @ body) ?n = lz_decode (extend_by m (pos - q) (take ls input @ ?l)) body ?n"
    by (rule lz_decode_match) (use assms n lits in auto)
  then have dec: "lz_decode (take ls input) (?s @ body) ?n = Inr input"
    using body(2) extend_by_run [OF assms(2,3)] lits by simp
  have sum: "?n - ls = (pos - ls) + m + (?n - (pos + m))" using assms(1) n by simp
  note b = seq_match_bounds [OF assms(4), of ?l "pos - q", unfolded lits(2)]
  have "(pos - ls) div 255 + (?n - (pos + m)) div 255 \<le> (?n - ls) div 255"
    using div_superadditive [of "pos - ls" "?n - (pos + m)"] div_le_mono [of "(pos - ls) + (?n - (pos + m))" "?n - ls" 255] sum
    by linarith
  then have "length (?s @ body) \<le> (?n - ls) + (?n - ls) div 255 + 2" using b(1) body(3) sum by simp
  moreover have "?n - ls \<le> 255 * length (?s @ body)" using b(2) body(4) sum by simp
  ultimately show ?thesis unfolding good_def using body(1) dec by blast
qed

lemma table_le:
  assumes "\<forall>c \<in> set t. unat (c :: u32) \<le> p" "p \<le> p'"
  shows "\<forall>c \<in> set (t[h := word_of_nat p']). unat c \<le> p'" "\<forall>c \<in> set t. unat c \<le> p'"
proof -
  have "unat (word_of_nat p' :: u32) \<le> p'" by (simp add: unsigned_of_nat take_bit_eq_mod)
  then show "\<forall>c \<in> set (t[h := word_of_nat p']). unat c \<le> p'"
    using assms set_update_subset_insert [of t h "word_of_nat p'"] by (blast intro: le_trans)
qed (use assms in \<open>auto intro: le_trans\<close>)

lemma compress_loop_good:
  assumes "length table = 2 ^ bits" "bits \<le> 32" "\<forall>c \<in> set table. unat c \<le> pos" "ls \<le> pos" "pos \<le> length input"
  shows "good input ls out (compress_loop input bits table ls pos out)"
  using assms
proof (induction "last_hashable input - pos" arbitrary: table ls pos out rule: less_induct)
  case less
  show ?case
  proof (cases "pos < last_hashable input")
    case False
    then show ?thesis using less.prems good_last [of ls input out] by (subst compress_loop.simps) simp
  next
    case True
    let ?h = "hash4 (drop pos input) bits"
    let ?c = "table ! ?h" and ?t = "table[?h := word_of_nat (pos + 1)]"
    let ?q = "unat ?c - 1"
    have h: "?h < length table" using hash4_bound less.prems by simp
    have t: "\<forall>c \<in> set ?t. unat c \<le> pos + 1" by (rule table_le(1) [OF less.prems(3) le_add1])
    have n: "pos + 4 \<le> length input" using True by (auto simp: last_hashable_def kMinMatch_def split: if_splits)
    have skip: "good input ls out (compress_loop input bits ?t ls (pos + 1) out)"
      by (rule less.hyps) (use less.prems t n True in simp_all)
    show ?thesis
    proof (cases "?c = 0 \<or> kMaxOffset < pos - ?q \<or> take kMinMatch (drop ?q input) \<noteq> take kMinMatch (drop pos input)")
      case no: True
      then have "compress_loop input bits table ls pos out = compress_loop input bits ?t ls (pos + 1) out"
        using True unfolding compress_loop.simps [of input bits table ls pos out] by (auto simp: Let_def)
      then show ?thesis using skip by simp
    next
      case yes: False
      let ?m = "match_extent input ?q pos"
      have "unat ?c \<le> pos" "0 < unat ?c" using less.prems(3) h yes by (auto simp: unat_gt_0)
      then have q: "?q < pos" by simp
      have run: "same_run input ?q pos ?m" using same_run_match_extent [OF q True] yes by simp
      have m: "4 \<le> ?m" using match_extent_ge [of input ?q pos] by (simp add: kMinMatch_def)
      let ?t2 = "if 1 \<le> pos + ?m \<and> pos + ?m - 1 < last_hashable input
          then ?t[hash4 (drop (pos + ?m - 1) input) bits := word_of_nat (pos + ?m)] else ?t"
      have t2: "\<forall>c \<in> set ?t2. unat c \<le> pos + ?m"
        using table_le [OF t, of "pos + ?m"] m by (simp only: split: if_splits) auto
      let ?o = "emit_sequence out (take (pos - ls) (drop ls input)) ?m (pos - ?q)"
      have "good input (pos + ?m) ?o (compress_loop input bits ?t2 (pos + ?m) (pos + ?m) ?o)"
        by (rule less.hyps) (use less.prems t2 m True run in \<open>simp_all add: same_run_def\<close>)
      then have "good input ls out (compress_loop input bits ?t2 (pos + ?m) (pos + ?m) ?o)"
        by (rule good_match [OF less.prems(4) q run m, rotated]) (use yes in simp)
      moreover have "compress_loop input bits table ls pos out = compress_loop input bits ?t2 (pos + ?m) (pos + ?m) ?o"
        using True yes unfolding compress_loop.simps [of input bits table ls pos out] by (simp add: Let_def)
      ultimately show ?thesis by simp
    qed
  qed
qed

lemma compress_block_good:
  "good input 0 (put_varint32 output (word_of_nat (length input))) (compress_block input output)"
proof (cases "input = []")
  case True
  have "lz_decode [] [0] 0 = Inr []" by code_simp
  then show ?thesis using True by (simp add: good_def compress_block_def)
next
  case False
  let ?bits = "hash_bits_for (length input)"
  have "?bits \<le> 32" using hash_bits_bound [of kMinHashBits "length input"]
    by (simp add: hash_bits_for_def kMinHashBits_def kMaxHashBits_def)
  then show ?thesis
    using False compress_loop_good [of "replicate (2 ^ ?bits) 0" ?bits 0 0 input]
    by (simp add: compress_block_def Let_def)
qed

lemma compress_block_decodes:
  assumes "length input < 2 ^ 32"
  shows "\<exists>body. compressed_length (compress_block input []) = Inr (length input, body) \<and>
    (\<forall>out. length out = length input \<longrightarrow> decompress_into body out (length input) = Some (status_ok, input))"
proof -
  obtain body where body: "compress_block input [] = put_varint32 [] (word_of_nat (length input)) @ body"
      "lz_decode [] body (length input) = Inr input" "length input \<le> 255 * length body"
    using compress_block_good [of input "[]"] by (auto simp: good_def)
  have len: "compressed_length (compress_block input []) = Inr (length input, body)"
    using assms body(1,3) by (simp add: compressed_length_def put_varint32_def)
  have "decompress_into body out (length input) = Some (status_ok, input)" if "length out = length input" for out
    using decompress_loop_agrees [of out "length input" 0 "[]" body] that
    by (simp add: decompress_into_def agrees_def body(2))
  then show ?thesis using len by blast
qed

section \<open>Properties\<close>

text \<open>
  C23. Compression is lossless: for every input the format can carry (below 4 GiB),
  runs and overlapping matches included, decompressing what compress\_block wrote
  reports success and yields the input byte for byte.
\<close>

theorem compress_round_trip:
  assumes "length input < 2 ^ 32"
  shows "decompress_block (compress_block input []) = Some (status_ok, input)"
  using compress_block_decodes [OF assms] by (auto simp: decompress_block_def)

theorem compress_round_trip_witness:
  "decompress_block (compress_block [7, 7, 7, 7, 7, 7, 7, 7, 7, 7, 7, 7] []) =
     Some (status_ok, [7, 7, 7, 7, 7, 7, 7, 7, 7, 7, 7, 7])"
  by (rule compress_round_trip) simp

text \<open>
  C24. The decoder is memory safe on every input: whatever bytes it is handed, no
  read leaves the input, no write leaves the output buffer and no memcpy overlaps,
  the eight-byte steps included; and it reports exactly the error, or produces
  exactly the bytes, of a decoder that copies one byte at a time.
\<close>

theorem decompress_memory_safe:
  assumes "length out = tot"
  shows "\<exists>s out'. decompress_into body out tot = Some (s, out') \<and> length out' = tot \<and>
    (case lz_decode [] body tot of Inl e \<Rightarrow> s = e | Inr ys \<Rightarrow> s = status_ok \<and> out' = ys)"
  using decompress_loop_agrees [of out tot 0 "[]" body] assms unfolding decompress_into_def agrees_def by simp

theorem decompress_memory_safe_witness:
  "\<exists>s out'. decompress_into [0x11, 65, 1, 0, 0x00] [0, 0, 0, 0, 0, 0] 6 = Some (s, out') \<and> length out' = 6"
  using decompress_memory_safe [of "[0, 0, 0, 0, 0, 0]" 6 "[0x11, 65, 1, 0, 0x00]"] by auto

text \<open>
  C29. The encoder never writes past the room it reserves: after the length prefix the
  stream takes at most max\_compressed\_size bytes, however the input splits into
  literals and matches.
\<close>

theorem compress_fits_reserved_room:
  "length (compress_block input output) \<le>
     length (put_varint32 output (word_of_nat (length input))) + max_compressed_size (length input)"
  using compress_block_good [of input "output"] by (auto simp: good_def max_compressed_size_def)

end
