(* ===== verification/Format.thy ===== *)
theory Format
  imports Compress_Round Files
begin

text \<open>
  src/format.hpp and src/format.cpp: block handles, the table footer, and reading one
  block with its checksum.  LocalRandomAccessFile always fills the caller's buffer, so
  a block is always the reader's own and may be cached.  The decoder's memory accesses
  stay in bounds (Compress\_Round), so its outcome exists.
\<close>

section \<open>BlockHandle\<close>

datatype CompressionType = CtNone | CtLz

definition compression_byte :: "CompressionType \<Rightarrow> byte" where
  "compression_byte t = (case t of CtNone \<Rightarrow> 0 | CtLz \<Rightarrow> 1)"

definition kBlockTrailerSize :: nat where
  "kBlockTrailerSize = 5"

record BlockHandle =
  bh_offset :: u64
  bh_size :: u64

definition kMaxEncodedLength :: nat where
  "kMaxEncodedLength = 10 + 10"

definition handle_encode_to :: "BlockHandle \<Rightarrow> bytes \<Rightarrow> bytes" where
  "handle_encode_to h dst = put_varint64 (put_varint64 dst (bh_offset h)) (bh_size h)"

definition handle_decode_from :: "bytes \<Rightarrow> status + (BlockHandle \<times> bytes)" where
  "handle_decode_from input =
     (case get_varint64 input of
        None \<Rightarrow> Inl (corruption ''bad block handle'')
      | Some (offset, i1) \<Rightarrow>
          (case get_varint64 i1 of
             None \<Rightarrow> Inl (corruption ''bad block handle'')
           | Some (sz, i2) \<Rightarrow> Inr (\<lparr>bh_offset = offset, bh_size = sz\<rparr>, i2)))"

section \<open>Footer\<close>

record Footer =
  ft_metaindex :: BlockHandle
  ft_index :: BlockHandle

definition kEncodedLength :: nat where
  "kEncodedLength = 2 * kMaxEncodedLength + 8"

definition kTableMagicNumber :: u64 where
  "kTableMagicNumber = 0x9d4f2b6c1a73e850"

text \<open>std::string::resize with zeros.\<close>

definition resize :: "bytes \<Rightarrow> nat \<Rightarrow> bytes" where
  "resize s n = take n s @ replicate (n - length s) 0"

definition footer_encode_to :: "Footer \<Rightarrow> bytes \<Rightarrow> bytes" where
  "footer_encode_to f dst =
     (let d1 = handle_encode_to (ft_index f) (handle_encode_to (ft_metaindex f) dst);
          d2 = resize d1 (length dst + 2 * kMaxEncodedLength);
          d3 = put_fixed32 d2 (ucast (kTableMagicNumber AND 0xffffffff))
      in put_fixed32 d3 (ucast (drop_bit 32 kTableMagicNumber)))"

definition footer_decode_from :: "bytes \<Rightarrow> status + Footer" where
  "footer_decode_from input =
     (if length input < kEncodedLength
      then Inl (corruption ''file is too short to hold a table footer'')
      else let magic_ptr = drop (kEncodedLength - 8) input;
               magic = push_bit 32 (ucast (decode_fixed32 (drop 4 magic_ptr))) OR ucast (decode_fixed32 magic_ptr)
           in if magic \<noteq> kTableMagicNumber
              then Inl (corruption ''not an Ambar table file (bad magic number)'')
              else case handle_decode_from (take (kEncodedLength - 8) input) of
                     Inl s \<Rightarrow> Inl s
                   | Inr (metaindex, remaining) \<Rightarrow>
                       (case handle_decode_from remaining of
                          Inl s \<Rightarrow> Inl s
                        | Inr (index, _) \<Rightarrow> Inr \<lparr>ft_metaindex = metaindex, ft_index = index\<rparr>))"

section \<open>Reading a block\<close>

definition decode_body :: "bytes \<Rightarrow> nat \<Rightarrow> status \<times> bytes" where
  "decode_body body len = the (decompress_into body (replicate len 0) len)"

definition outside_message :: "u64 \<Rightarrow> BlockHandle \<Rightarrow> string" where
  "outside_message file_size handle =
     ''block handle points outside the file: offset '' @ to_string (unat (bh_offset handle)) @
     '', size '' @ to_string (unat (bh_size handle)) @
     '', in a file of '' @ to_string (unat file_size) @ '' bytes''"

definition read_block :: "RandomAccessFile \<Rightarrow> u64 \<Rightarrow> BlockHandle \<Rightarrow> status + bytes" where
  "read_block f file_size handle =
     (let n = bh_size handle; offset = bh_offset handle in
      if n > file_size \<or> offset > file_size - n \<or> n + 5 > file_size - offset
      then Inl (corruption (outside_message file_size handle))
      else case rf_read f (unat offset) (unat n + kBlockTrailerSize) of
        Inl s \<Rightarrow> Inl s
      | Inr data \<Rightarrow>
          let stored = decode_fixed32 (drop (unat n + 1) data);
              actual = crc32c (take (unat n + 1) data);
              type = data ! unat n;
              contents = take (unat n) data
          in if stored \<noteq> actual
             then Inl (corruption (''block checksum mismatch at offset '' @ to_string (unat offset)))
             else if type = compression_byte CtNone then Inr contents
             else if type = compression_byte CtLz
             then (case compressed_length contents of
                     Inl s \<Rightarrow> Inl (corruption (''compressed block at offset '' @ to_string (unat offset) @
                                '' does not decode: '' @ message s))
                   | Inr (len, body) \<Rightarrow>
                       (case decode_body body len of (s, out) \<Rightarrow>
                          if is_ok s then Inr out
                          else Inl (corruption (''compressed block at offset '' @ to_string (unat offset) @
                                '' does not decode: '' @ message s))))
             else Inl (Status kNotSupported (''block at offset '' @ to_string (unat offset) @
                    '' uses a compression this build cannot read (type '' @ to_string (unat type) @ '')'')))"

section \<open>Round trips\<close>

lemma handle_encode_eq: "handle_encode_to h dst = dst @ put_varint (bh_offset h) @ put_varint (bh_size h)"
  by (simp add: handle_encode_to_def put_varint64_def)

lemma handle_round_trip [codec_simps, simp]:
  "handle_decode_from (put_varint (bh_offset h) @ put_varint (bh_size h) @ rest) = Inr (h, rest)"
  by (simp add: handle_decode_from_def)

lemma handle_round_trip_enc [simp]: "handle_decode_from (handle_encode_to h []) = Inr (h, [])"
  using handle_round_trip [of h "[]"] by (simp add: handle_encode_eq)

lemma handle_length: "length (handle_encode_to h []) \<le> 20"
  using length_put_varint64 [of "bh_offset h"] length_put_varint64 [of "bh_size h"]
  by (simp add: handle_encode_eq)

lemma magic_halves:
  "push_bit 32 (ucast (ucast (drop_bit 32 w) :: u32)) OR ucast (ucast (w AND 0xffffffff) :: u32) = (w :: u64)"
proof -
  have m: "(0xffffffff :: u64) = mask 32" by (simp add: mask_eq_exp_minus_1)
  show ?thesis unfolding m by (rule bit_word_eqI) (auto simp: bit_simps)
qed

definition footer_bytes :: "Footer \<Rightarrow> bytes" where
  "footer_bytes f = footer_encode_to f []"

lemma footer_layout:
  "\<exists>pad. footer_encode_to f dst = dst @
     (put_varint (bh_offset (ft_metaindex f)) @ put_varint (bh_size (ft_metaindex f)) @
      put_varint (bh_offset (ft_index f)) @ put_varint (bh_size (ft_index f)) @ pad) @
     encode_fixed32 (ucast (kTableMagicNumber AND 0xffffffff)) @ encode_fixed32 (ucast (drop_bit 32 kTableMagicNumber)) \<and>
   length (put_varint (bh_offset (ft_metaindex f)) @ put_varint (bh_size (ft_metaindex f)) @
      put_varint (bh_offset (ft_index f)) @ put_varint (bh_size (ft_index f)) @ pad) = 40"
proof -
  let ?h = "put_varint (bh_offset (ft_metaindex f)) @ put_varint (bh_size (ft_metaindex f)) @
      put_varint (bh_offset (ft_index f)) @ put_varint (bh_size (ft_index f))"
  have "length ?h \<le> 40"
    using length_put_varint64 [of "bh_offset (ft_metaindex f)"] length_put_varint64 [of "bh_size (ft_metaindex f)"]
      length_put_varint64 [of "bh_offset (ft_index f)"] length_put_varint64 [of "bh_size (ft_index f)"] by simp
  then show ?thesis
    by (intro exI [of _ "replicate (40 - length ?h) 0"])
      (simp add: footer_encode_to_def handle_encode_eq Let_def resize_def put_fixed32_def kMaxEncodedLength_def)
qed

lemma footer_round_trip: "footer_decode_from (footer_encode_to f []) = Inr f"
proof -
  obtain pad where eq: "footer_encode_to f [] =
     (put_varint (bh_offset (ft_metaindex f)) @ put_varint (bh_size (ft_metaindex f)) @
      put_varint (bh_offset (ft_index f)) @ put_varint (bh_size (ft_index f)) @ pad) @
     encode_fixed32 (ucast (kTableMagicNumber AND 0xffffffff)) @ encode_fixed32 (ucast (drop_bit 32 kTableMagicNumber))"
   and len: "length (put_varint (bh_offset (ft_metaindex f)) @ put_varint (bh_size (ft_metaindex f)) @
      put_varint (bh_offset (ft_index f)) @ put_varint (bh_size (ft_index f)) @ pad) = 40"
    using footer_layout [of f "[]"] by auto
  let ?h = "put_varint (bh_offset (ft_metaindex f)) @ put_varint (bh_size (ft_metaindex f)) @
      put_varint (bh_offset (ft_index f)) @ put_varint (bh_size (ft_index f)) @ pad"
  let ?lo = "ucast (kTableMagicNumber AND 0xffffffff) :: u32" and ?hi = "ucast (drop_bit 32 kTableMagicNumber) :: u32"
  have take: "take 40 (footer_encode_to f []) = ?h" and drop: "drop 40 (footer_encode_to f []) = encode_fixed32 ?lo @ encode_fixed32 ?hi"
    unfolding eq using len by (simp_all only: take_append_exact drop_append_exact)
  have drop4: "drop 4 (drop 40 (footer_encode_to f [])) = encode_fixed32 ?hi @ []" unfolding drop by simp
  have size: "length (footer_encode_to f []) = 48" unfolding eq length_append [of ?h] len by simp
  show ?thesis
    unfolding footer_decode_from_def kEncodedLength_def kMaxEncodedLength_def Let_def
    using size by (simp add: take drop drop4 magic_halves del: append_Nil2 drop_drop)
      (simp add: decode_encode_fixed32 [of _ "[]", simplified] magic_halves)
qed

section \<open>Blocks as they are stored\<close>

definition stored_block :: "bytes \<Rightarrow> CompressionType \<Rightarrow> bytes" where
  "stored_block contents t =
     contents @ [compression_byte t] @ encode_fixed32 (crc32c (contents @ [compression_byte t]))"

lemma length_stored_block [simp]: "length (stored_block contents t) = length contents + 5"
  by (simp add: stored_block_def)

text \<open>Where a block of \<open>m\<close> bytes starting after \<open>p\<close> bytes is.\<close>

definition handle_at :: "nat \<Rightarrow> nat \<Rightarrow> BlockHandle" where
  "handle_at p m = \<lparr>bh_offset = word_of_nat p, bh_size = word_of_nat m\<rparr>"

definition reads_ok :: "RandomAccessFile \<Rightarrow> bool" where
  "reads_ok f \<longleftrightarrow> (\<forall>offset n. rf_os f offset n = None)"

lemma handle_inside:
  assumes "p + m + 5 \<le> s" "s < 2 ^ 64"
  shows "\<not> ((word_of_nat m :: u64) > word_of_nat s \<or> (word_of_nat p :: u64) > word_of_nat s - word_of_nat m \<or>
    (word_of_nat m :: u64) + 5 > word_of_nat s - word_of_nat p)"
proof -
  have sub: "(word_of_nat s - word_of_nat k :: u64) = word_of_nat (s - k)" if "k \<le> s" for k
    using that by (simp add: of_nat_diff)
  have le: "(word_of_nat a :: u64) \<le> word_of_nat b" if "a \<le> b" "b \<le> s" for a b
    using that assms(2) by (simp add: word_le_nat_alt)
  have "(word_of_nat m :: u64) + 5 = word_of_nat (m + 5)" by simp
  then show ?thesis
    unfolding not_less de_Morgan_disj using assms(1) le [of m s] le [of p "s - m"] le [of "m + 5" "s - p"]
    by (simp only: sub)
qed

lemma read_block_data:
  assumes "rf_data f = pre @ block @ post" "reads_ok f" "length (rf_data f) < 2 ^ 64"
    and "length block = m + 5"
  shows "read_block f (word_of_nat (length (rf_data f))) (handle_at (length pre) m) =
    (if decode_fixed32 (drop (m + 1) block) \<noteq> crc32c (take (m + 1) block)
     then Inl (corruption (''block checksum mismatch at offset '' @ to_string (length pre)))
     else if block ! m = 0 then Inr (take m block)
     else if block ! m = 1
     then (case compressed_length (take m block) of
             Inl s \<Rightarrow> Inl (corruption (''compressed block at offset '' @ to_string (length pre) @
                        '' does not decode: '' @ message s))
           | Inr (len, body) \<Rightarrow>
               (case decode_body body len of (s, out) \<Rightarrow>
                  if is_ok s then Inr out
                  else Inl (corruption (''compressed block at offset '' @ to_string (length pre) @
                        '' does not decode: '' @ message s))))
     else Inl (Status kNotSupported (''block at offset '' @ to_string (length pre) @
            '' uses a compression this build cannot read (type '' @ to_string (unat (block ! m)) @ '')'')))"
proof -
  let ?s = "length (rf_data f)"
  have len: "length pre + m + 5 \<le> ?s" using assms(1,4) by simp
  have un: "unat (word_of_nat (length pre) :: u64) = length pre" "unat (word_of_nat m :: u64) = m"
    using len assms(3) by simp_all
  have "take (m + 5) (drop (length pre) (rf_data f)) = block" using assms(1,4) by simp
  then have rd: "rf_read f (length pre) (m + kBlockTrailerSize) = Inr block"
    using assms(2,4) by (simp add: rf_read_def reads_ok_def kBlockTrailerSize_def)
  show ?thesis
    unfolding read_block_def handle_at_def Let_def BlockHandle.select_convs
      if_not_P [OF handle_inside [OF len assms(3)]] un rd sum.case compression_byte_def CompressionType.case ..
qed

lemma read_block_none:
  assumes "rf_data f = pre @ stored_block contents CtNone @ post" "reads_ok f" "length (rf_data f) < 2 ^ 64"
  shows "read_block f (word_of_nat (length (rf_data f))) (handle_at (length pre) (length contents)) = Inr contents"
  using read_block_data [OF assms, of "length contents"]
    decode_encode_fixed32 [of "crc32c (contents @ [0])" "[]"]
  by (simp add: stored_block_def compression_byte_def)

lemma read_block_lz:
  assumes "rf_data f = pre @ stored_block (compress_block raw []) CtLz @ post" "reads_ok f"
    and "length (rf_data f) < 2 ^ 64" "length raw < 2 ^ 32"
  shows "read_block f (word_of_nat (length (rf_data f))) (handle_at (length pre) (length (compress_block raw []))) = Inr raw"
proof -
  obtain body where body: "compressed_length (compress_block raw []) = Inr (length raw, body)"
      "decode_body body (length raw) = (status_ok, raw)"
    using compress_block_decodes [OF assms(4)] by (auto simp: decode_body_def)
  then show ?thesis
    using read_block_data [OF assms(1-3), of "length (compress_block raw [])"]
      decode_encode_fixed32 [of "crc32c (compress_block raw [] @ [1])" "[]"]
    by (simp add: stored_block_def compression_byte_def)
qed

section \<open>Properties\<close>

text \<open>
  C25. A damaged block is refused: whatever block was stored, of whichever compression
  type, if up to four consecutive bytes of it (its contents and its type byte) were
  changed, reading it reports a checksum mismatch and returns no bytes.
\<close>

theorem block_damage_detected:
  assumes "contents @ [compression_byte t] = a @ x @ b"
    and "length y = length x" "length x \<le> 4" "y \<noteq> x"
    and "rf_data f = pre @ (a @ y @ b @ drop (length contents + 1) (stored_block contents t)) @ post"
    and "reads_ok f" "length (rf_data f) < 2 ^ 64"
  shows "read_block f (word_of_nat (length (rf_data f))) (handle_at (length pre) (length contents)) =
    Inl (corruption (''block checksum mismatch at offset '' @ to_string (length pre)))"
proof -
  let ?block = "a @ y @ b @ drop (length contents + 1) (stored_block contents t)"
  have len: "length (a @ y @ b) = length contents + 1"
    using assms(1,2) by (metis add.commute length_append length_append_singleton plus_1_eq_Suc)
  have d: "drop (length contents + 1) (stored_block contents t) = encode_fixed32 (crc32c (a @ x @ b))"
    using assms(1) by (simp add: stored_block_def)
  have split: "?block = (a @ y @ b) @ encode_fixed32 (crc32c (a @ x @ b))" by (simp only: d append_assoc)
  have "drop (length contents + 1) ?block = encode_fixed32 (crc32c (a @ x @ b)) @ []"
      "take (length contents + 1) ?block = a @ y @ b"
    unfolding split using len by (simp_all only: take_append_exact drop_append_exact append_Nil2)
  then have "decode_fixed32 (drop (length contents + 1) ?block) \<noteq> crc32c (take (length contents + 1) ?block)"
    using crc32c_burst [of x y a b] assms(2-4) by (simp only: decode_encode_fixed32) simp
  moreover have "length ?block = length contents + 5" unfolding split length_append [of "a @ y @ b"] len by simp
  ultimately show ?thesis using read_block_data [OF assms(5-7), of "length contents"] by simp
qed

theorem block_damage_detected_witness:
  "read_block \<lparr>rf_path = [], rf_data = [9, 9, 1, 7, 3, 0] @ encode_fixed32 (crc32c [1, 2, 3, 0]), rf_os = \<lambda>_ _. None\<rparr>
     10 (handle_at 2 3) = Inl (corruption (''block checksum mismatch at offset '' @ to_string 2))"
proof -
  let ?f = "\<lparr>rf_path = [], rf_data = [9, 9, 1, 7, 3, 0] @ encode_fixed32 (crc32c [1, 2, 3, 0]), rf_os = \<lambda>_ _. None\<rparr> :: RandomAccessFile"
  have "rf_data ?f = [9, 9] @ ([1] @ [7] @ [3, 0] @ drop (length [1, 2, 3 :: byte] + 1) (stored_block [1, 2, 3] CtNone)) @ []"
    by (simp add: stored_block_def compression_byte_def)
  then have "read_block ?f (word_of_nat (length (rf_data ?f))) (handle_at (length [9 :: byte, 9]) (length [1, 2, 3 :: byte])) =
      Inl (corruption (''block checksum mismatch at offset '' @ to_string (length [9 :: byte, 9])))"
    by (intro block_damage_detected [where a = "[1]" and x = "[2]" and y = "[7]" and b = "[3, 0]" and t = CtNone and post = "[]"])
      (simp_all add: compression_byte_def reads_ok_def)
  moreover have "length (rf_data ?f) = 10" "length [9 :: byte, 9] = 2" "length [1, 2, 3 :: byte] = 3" by simp_all
  ultimately show ?thesis by (simp only: of_nat_numeral)
qed

text \<open>
  C30. A block whose checksum holds but whose compression type this build does not
  know is refused as not supported, by name and never guessed at.
\<close>

theorem unknown_compression_not_supported:
  assumes "rf_data f = pre @ contents @ [type] @ encode_fixed32 (crc32c (contents @ [type])) @ post"
    and "reads_ok f" "length (rf_data f) < 2 ^ 64" "type \<noteq> 0" "type \<noteq> 1"
  shows "\<exists>m. read_block f (word_of_nat (length (rf_data f))) (handle_at (length pre) (length contents)) =
    Inl (Status kNotSupported m)"
proof -
  have "rf_data f = pre @ (contents @ [type] @ encode_fixed32 (crc32c (contents @ [type]))) @ post"
    using assms(1) by simp
  from read_block_data [OF this assms(2,3), of "length contents"] show ?thesis
    using assms(4,5) decode_encode_fixed32 [of "crc32c (contents @ [type])" "[]"] by simp
qed

theorem unknown_compression_not_supported_witness:
  "\<exists>m. read_block \<lparr>rf_path = [], rf_data = [5] @ [2] @ encode_fixed32 (crc32c ([5] @ [2])), rf_os = \<lambda>_ _. None\<rparr>
     6 (handle_at 0 1) = Inl (Status kNotSupported m)"
  using unknown_compression_not_supported [of "\<lparr>rf_path = [], rf_data = [5] @ [2] @ encode_fixed32 (crc32c ([5] @ [2])), rf_os = \<lambda>_ _. None\<rparr>" "[]" "[5]" 2 "[]"]
  by (simp add: reads_ok_def)

end
