(* ===== verification/Table_Builder.thy ===== *)
theory Table_Builder
  imports Block_Iter Filter_Block Format
begin

text \<open>
  include/ambar/options.hpp and src/table\_builder.cpp: writing a table file.  The
  borrowed file travels inside the builder's record.
\<close>

section \<open>Options\<close>

datatype Compression = CompNone | CompLz

record Options =
  opt_create_if_missing :: bool
  opt_error_if_exists :: bool
  opt_write_buffer_size :: nat
  opt_block_size :: nat
  opt_block_restart_interval :: nat
  opt_compression :: Compression
  opt_max_file_size :: nat
  opt_max_open_files :: int
  opt_filter_policy :: "FilterPolicy option"

section \<open>TableBuilder\<close>

record TableBuilder =
  tb_options :: Options
  tb_comparator :: Comparator
  tb_file :: WritableFile
  tb_offset :: u64
  tb_status :: status
  tb_data_block :: BlockBuilder
  tb_index_block :: BlockBuilder
  tb_filter_block :: "FilterBlockBuilder option"
  tb_last_key :: bytes
  tb_num_entries :: nat
  tb_closed :: bool
  tb_pending_index_entry :: bool
  tb_pending_handle :: BlockHandle

definition TableBuilder_ctor :: "Options \<Rightarrow> WritableFile \<Rightarrow> Comparator \<Rightarrow> TableBuilder" where
  "TableBuilder_ctor options file comparator =
     \<lparr>tb_options = options, tb_comparator = comparator, tb_file = file, tb_offset = 0,
      tb_status = status_ok,
      tb_data_block = BlockBuilder_ctor (opt_block_restart_interval options),
      tb_index_block = BlockBuilder_ctor 1,
      tb_filter_block =
        (case opt_filter_policy options of
           None \<Rightarrow> None
         | Some p \<Rightarrow> Some (start_block p FilterBlockBuilder_ctor 0)),
      tb_last_key = [], tb_num_entries = 0, tb_closed = False, tb_pending_index_entry = False,
      tb_pending_handle = \<lparr>bh_offset = 0, bh_size = 0\<rparr>\<rparr>"

definition write_raw_block :: "TableBuilder \<Rightarrow> bytes \<Rightarrow> CompressionType \<Rightarrow> BlockHandle \<times> TableBuilder" where
  "write_raw_block tb contents type =
     (let handle = \<lparr>bh_offset = tb_offset tb, bh_size = word_of_nat (length contents)\<rparr> in
      case wf_append (tb_file tb) contents of (s1, f1) \<Rightarrow>
        let tb1 = tb\<lparr>tb_status := s1, tb_file := f1\<rparr> in
        if \<not> is_ok s1 then (handle, tb1)
        else let crc = crc32c_extend (crc32c contents) [compression_byte type];
                 trailer = compression_byte type # encode_fixed32 crc
             in case wf_append f1 trailer of (s2, f2) \<Rightarrow>
                  let tb2 = tb1\<lparr>tb_status := s2, tb_file := f2\<rparr> in
                  (handle,
                   if is_ok s2
                   then tb2\<lparr>tb_offset := tb_offset tb2 + word_of_nat (length contents + kBlockTrailerSize)\<rparr>
                   else tb2))"

text \<open>The bytes write\_block stores, and their type.\<close>

definition choose_contents :: "Options \<Rightarrow> bool \<Rightarrow> bytes \<Rightarrow> bytes \<times> CompressionType" where
  "choose_contents options compressible raw =
     (if compressible \<and> opt_compression options = CompLz
      then let compressed = compress_block raw []
           in if length compressed < length raw - length raw div 8 then (compressed, CtLz) else (raw, CtNone)
      else (raw, CtNone))"

definition write_block ::
    "TableBuilder \<Rightarrow> BlockBuilder \<Rightarrow> bool \<Rightarrow> BlockHandle \<times> BlockBuilder \<times> TableBuilder" where
  "write_block tb block compressible =
     (case bb_finish block of (raw, finished) \<Rightarrow>
      case choose_contents (tb_options tb) compressible raw of (contents, type) \<Rightarrow>
      case write_raw_block tb contents type of (handle, tb1) \<Rightarrow>
        (handle, bb_reset finished, tb1))"

definition tb_flush :: "TableBuilder \<Rightarrow> TableBuilder" where
  "tb_flush tb =
     (if \<not> is_ok (tb_status tb) then tb
      else if bb_entries (tb_data_block tb) = 0 then tb
      else case write_block tb (tb_data_block tb) True of (handle, block, tb1) \<Rightarrow>
        let tb2 = tb1\<lparr>tb_data_block := block, tb_pending_handle := handle\<rparr>;
            tb3 = (if is_ok (tb_status tb2)
                   then case wf_flush (tb_file tb2) of (s, f) \<Rightarrow>
                          tb2\<lparr>tb_pending_index_entry := True, tb_status := s, tb_file := f\<rparr>
                   else tb2)
        in (case (tb_filter_block tb3, opt_filter_policy (tb_options tb3)) of
              (Some fb, Some p) \<Rightarrow> tb3\<lparr>tb_filter_block := Some (start_block p fb (tb_offset tb3))\<rparr>
            | _ \<Rightarrow> tb3))"

text \<open>The index entry of the block before, once the key that follows it is known.\<close>

definition add_pending_index :: "TableBuilder \<Rightarrow> bytes \<Rightarrow> TableBuilder" where
  "add_pending_index tb separator =
     tb\<lparr>tb_last_key := separator,
        tb_index_block := bb_add (tb_index_block tb) separator (handle_encode_to (tb_pending_handle tb) []),
        tb_pending_index_entry := False\<rparr>"

definition tb_add :: "TableBuilder \<Rightarrow> bytes \<Rightarrow> bytes \<Rightarrow> TableBuilder" where
  "tb_add tb key value =
     (if \<not> is_ok (tb_status tb) then tb
      else let tb1 = (if tb_pending_index_entry tb
                      then add_pending_index tb (find_shortest_separator (tb_comparator tb) (tb_last_key tb) key)
                      else tb);
               tb2 = tb1\<lparr>tb_filter_block := map_option (\<lambda>fb. add_key fb key) (tb_filter_block tb1),
                         tb_last_key := key, tb_num_entries := tb_num_entries tb1 + 1,
                         tb_data_block := bb_add (tb_data_block tb1) key value\<rparr>
           in if opt_block_size (tb_options tb2) \<le> current_size_estimate (tb_data_block tb2)
              then tb_flush tb2 else tb2)"

text \<open>The parts of finish, each skipped once something failed.\<close>

definition write_filter :: "TableBuilder \<Rightarrow> BlockHandle \<times> TableBuilder" where
  "write_filter tb =
     (if is_ok (tb_status tb)
      then case (tb_filter_block tb, opt_filter_policy (tb_options tb)) of
             (Some fb, Some p) \<Rightarrow> write_raw_block tb (fb_finish p fb) CtNone
           | _ \<Rightarrow> (\<lparr>bh_offset = 0, bh_size = 0\<rparr>, tb)
      else (\<lparr>bh_offset = 0, bh_size = 0\<rparr>, tb))"

definition filter_meta_key :: "FilterPolicy \<Rightarrow> bytes" where
  "filter_meta_key p = map (\<lambda>ch. word_of_nat (of_char ch)) (''filter.'' @ fp_name p)"

definition write_metaindex :: "TableBuilder \<Rightarrow> BlockHandle \<Rightarrow> BlockHandle \<times> TableBuilder" where
  "write_metaindex tb filter_handle =
     (if is_ok (tb_status tb)
      then let empty = BlockBuilder_ctor (opt_block_restart_interval (tb_options tb));
               block = (case (tb_filter_block tb, opt_filter_policy (tb_options tb)) of
                          (Some fb, Some p) \<Rightarrow> bb_add empty (filter_meta_key p) (handle_encode_to filter_handle [])
                        | _ \<Rightarrow> empty)
           in case write_block tb block False of (handle, _, tb1) \<Rightarrow> (handle, tb1)
      else (\<lparr>bh_offset = 0, bh_size = 0\<rparr>, tb))"

definition write_index :: "TableBuilder \<Rightarrow> BlockHandle \<times> TableBuilder" where
  "write_index tb =
     (if is_ok (tb_status tb)
      then let tb1 = (if tb_pending_index_entry tb
                      then add_pending_index tb (find_short_successor (tb_comparator tb) (tb_last_key tb))
                      else tb)
           in case write_block tb1 (tb_index_block tb1) False of (handle, block, tb2) \<Rightarrow>
                (handle, tb2\<lparr>tb_index_block := block\<rparr>)
      else (\<lparr>bh_offset = 0, bh_size = 0\<rparr>, tb))"

definition write_footer :: "TableBuilder \<Rightarrow> BlockHandle \<Rightarrow> BlockHandle \<Rightarrow> TableBuilder" where
  "write_footer tb metaindex_handle index_handle =
     (if is_ok (tb_status tb)
      then let encoding = footer_encode_to \<lparr>ft_metaindex = metaindex_handle, ft_index = index_handle\<rparr> []
           in case wf_append (tb_file tb) encoding of (s, f) \<Rightarrow>
                let tb1 = tb\<lparr>tb_status := s, tb_file := f\<rparr>
                in if is_ok s then tb1\<lparr>tb_offset := tb_offset tb1 + word_of_nat (length encoding)\<rparr> else tb1
      else tb)"

definition tb_finish :: "TableBuilder \<Rightarrow> status \<times> TableBuilder" where
  "tb_finish tb =
     (let tb1 = (tb_flush tb)\<lparr>tb_closed := True\<rparr> in
      case write_filter tb1 of (filter_handle, tb2) \<Rightarrow>
      case write_metaindex tb2 filter_handle of (metaindex_handle, tb3) \<Rightarrow>
      case write_index tb3 of (index_handle, tb4) \<Rightarrow>
        let tb5 = write_footer tb4 metaindex_handle index_handle in (tb_status tb5, tb5))"

definition tb_abandon :: "TableBuilder \<Rightarrow> TableBuilder" where
  "tb_abandon tb = tb\<lparr>tb_closed := True\<rparr>"

end
