(* ===== verification/Table.thy ===== *)
theory Table
  imports Table_Builder
begin

text \<open>
  src/table.hpp and src/table.cpp: opening a table and looking keys up in it.  The
  block cache is what a lookup in it answers, the argument \<open>cache\<close>, and the insertions
  a read asks for are part of its result; \<open>nul\<close> is the null-pointer difference of the
  block iterator, \<open>block_bytes\<close> is sizeof(Block).
\<close>

record Table =
  tr_options :: Options
  tr_comparator :: Comparator
  tr_file :: RandomAccessFile
  tr_file_size :: u64
  tr_cache_id :: u64
  tr_metaindex_handle :: BlockHandle
  tr_index_block :: Block
  tr_filter :: "FilterBlockReader option"

text \<open>
  What a new iterator of a block shows after a seek: nothing from the error iterator of a
  block that is too small and from the empty one of a block without restart points.
\<close>

definition block_seek :: "Comparator \<Rightarrow> nat \<Rightarrow> Block \<Rightarrow> bytes \<Rightarrow> (bytes \<times> bytes) option" where
  "block_seek c nul b target =
     (if bl_size b < 4 \<or> bl_num_restarts b = 0 then None
      else let it = bi_seek c nul b (BlockIter_ctor b) target in
           if bi_valid b it then Some (bi_key it, bi_value_bytes b it) else None)"

text \<open>The filter block a metaindex block names, if all of it reads.\<close>

definition read_filter ::
    "nat \<Rightarrow> RandomAccessFile \<Rightarrow> u64 \<Rightarrow> FilterPolicy \<Rightarrow> BlockHandle \<Rightarrow> FilterBlockReader option" where
  "read_filter nul file sz p metaindex_handle =
     (case read_block file sz metaindex_handle of
        Inl _ \<Rightarrow> None
      | Inr meta_contents \<Rightarrow>
          let key = filter_meta_key p in
          (case block_seek kBytewise nul (Block_ctor meta_contents) key of
             None \<Rightarrow> None
           | Some (found, handle_value) \<Rightarrow>
               if found \<noteq> key then None
               else (case handle_decode_from handle_value of
                       Inl _ \<Rightarrow> None
                     | Inr (filter_handle, _) \<Rightarrow>
                         (case read_block file sz filter_handle of
                            Inl _ \<Rightarrow> None
                          | Inr filter_contents \<Rightarrow> Some (FilterBlockReader_ctor filter_contents)))))"

definition Table_open ::
    "nat \<Rightarrow> Options \<Rightarrow> Comparator \<Rightarrow> RandomAccessFile \<Rightarrow> u64 \<Rightarrow> u64 \<Rightarrow> status + Table" where
  "Table_open nul options comparator file sz cache_id =
     (if sz < word_of_nat kEncodedLength then Inl (corruption ''file is too short to be a table'')
      else case rf_read file (unat (sz - word_of_nat kEncodedLength)) kEncodedLength of
        Inl s \<Rightarrow> Inl s
      | Inr footer_input \<Rightarrow>
          (case footer_decode_from footer_input of
             Inl s \<Rightarrow> Inl s
           | Inr footer \<Rightarrow>
               (case read_block file sz (ft_index footer) of
                  Inl s \<Rightarrow> Inl s
                | Inr index_contents \<Rightarrow>
                    Inr \<lparr>tr_options = options, tr_comparator = comparator, tr_file = file,
                         tr_file_size = sz, tr_cache_id = cache_id,
                         tr_metaindex_handle = ft_metaindex footer,
                         tr_index_block = Block_ctor index_contents,
                         tr_filter =
                           (case opt_filter_policy options of
                              None \<Rightarrow> None
                            | Some p \<Rightarrow> read_filter nul file sz p (ft_metaindex footer))\<rparr>)))"

type_synonym insertion = "bytes \<times> Block \<times> nat"

definition cache_key :: "u64 \<Rightarrow> u64 \<Rightarrow> bytes" where
  "cache_key cache_id offset = encode_fixed64 cache_id @ encode_fixed64 offset"

definition block_for ::
    "nat \<Rightarrow> Table \<Rightarrow> bool \<Rightarrow> (bytes \<Rightarrow> Block option) option \<Rightarrow> bytes \<Rightarrow> (status + Block) \<times> insertion option" where
  "block_for block_bytes t fill_cache cache index_value =
     (case handle_decode_from index_value of
        Inl s \<Rightarrow> (Inl s, None)
      | Inr (handle, _) \<Rightarrow>
          (case cache of
             Some lookup \<Rightarrow>
               let key = cache_key (tr_cache_id t) (bh_offset handle) in
               (case lookup key of
                  Some block \<Rightarrow> (Inr block, None)
                | None \<Rightarrow>
                    (case read_block (tr_file t) (tr_file_size t) handle of
                       Inl s \<Rightarrow> (Inl s, None)
                     | Inr contents \<Rightarrow>
                         let block = Block_ctor contents in
                         (Inr block,
                          if fill_cache
                          then Some (key, block, if 0 < bl_size block then bl_size block else block_bytes + length key)
                          else None)))
           | None \<Rightarrow>
               (case read_block (tr_file t) (tr_file_size t) handle of
                  Inl s \<Rightarrow> (Inl s, None)
                | Inr contents \<Rightarrow> (Inr (Block_ctor contents), None))))"

text \<open>The status, and the pair the callback is called with, if it is called.\<close>

definition internal_get ::
    "nat \<Rightarrow> Table \<Rightarrow> bool \<Rightarrow> (bytes \<Rightarrow> Block option) option \<Rightarrow> bytes \<Rightarrow>
     (status + (bytes \<times> bytes) option) \<times> insertion option" where
  "internal_get block_bytes t fill_cache cache key =
     (case Block_find (tr_comparator t) (tr_index_block t) key of
        Inl s \<Rightarrow> (Inl s, None)
      | Inr None \<Rightarrow> (Inr None, None)
      | Inr (Some (_, index_value)) \<Rightarrow>
          let absent = (case (tr_filter t, opt_filter_policy (tr_options t)) of
                          (Some filt, Some p) \<Rightarrow>
                            (case handle_decode_from index_value of
                               Inl _ \<Rightarrow> False
                             | Inr (handle, _) \<Rightarrow> \<not> fr_key_may_match p filt (bh_offset handle) key)
                        | _ \<Rightarrow> False)
          in if absent then (Inr None, None)
             else case block_for block_bytes t fill_cache cache index_value of
                    (Inl s, ins) \<Rightarrow> (Inl s, ins)
                  | (Inr block, ins) \<Rightarrow> (Block_find (tr_comparator t) block key, ins))"

definition approximate_offset_of :: "nat \<Rightarrow> Table \<Rightarrow> bytes \<Rightarrow> u64" where
  "approximate_offset_of nul t key =
     (case block_seek (tr_comparator t) nul (tr_index_block t) key of
        None \<Rightarrow> bh_offset (tr_metaindex_handle t)
      | Some (_, input) \<Rightarrow>
          (case handle_decode_from input of
             Inl _ \<Rightarrow> bh_offset (tr_metaindex_handle t)
           | Inr (handle, _) \<Rightarrow> bh_offset handle))"

end
