(* ===== verification/Version_Edit.thy ===== *)
theory Version_Edit
  imports Encoding "HOL-Library.Product_Lexorder"
begin

text \<open>
  src/version_edit.hpp and src/version_edit.cpp: what one table file is known by, and the
  record of a change to the set of files, as it is written to the manifest.
\<close>

section \<open>Data\<close>

record FileMetaData =
  fm_number :: u64
  fm_file_size :: u64
  fm_smallest :: bytes
  fm_largest :: bytes
  fm_allowed_seeks :: int

definition kNoSeekLimit :: int where
  "kNoSeekLimit = 2 ^ 30"

text \<open>The set of deleted files is the ascending list of its elements.\<close>

record VersionEdit =
  ve_comparator :: bytes
  ve_log_number :: u64
  ve_prev_log_number :: u64
  ve_next_file_number :: u64
  ve_last_sequence :: u64
  ve_has_comparator :: bool
  ve_has_log_number :: bool
  ve_has_prev_log_number :: bool
  ve_has_next_file_number :: bool
  ve_has_last_sequence :: bool
  ve_compact_pointers :: "(nat \<times> bytes) list"
  ve_deleted_files :: "(nat \<times> u64) list"
  ve_new_files :: "(nat \<times> FileMetaData) list"

definition ve_clear :: VersionEdit where
  "ve_clear =
     \<lparr>ve_comparator = [], ve_log_number = 0, ve_prev_log_number = 0, ve_next_file_number = 0, ve_last_sequence = 0,
      ve_has_comparator = False, ve_has_log_number = False, ve_has_prev_log_number = False,
      ve_has_next_file_number = False, ve_has_last_sequence = False,
      ve_compact_pointers = [], ve_deleted_files = [], ve_new_files = []\<rparr>"

definition set_comparator_name :: "bytes \<Rightarrow> VersionEdit \<Rightarrow> VersionEdit" where
  "set_comparator_name name e = e\<lparr>ve_comparator := name, ve_has_comparator := True\<rparr>"

definition set_log_number :: "u64 \<Rightarrow> VersionEdit \<Rightarrow> VersionEdit" where
  "set_log_number number e = e\<lparr>ve_log_number := number, ve_has_log_number := True\<rparr>"

definition set_prev_log_number :: "u64 \<Rightarrow> VersionEdit \<Rightarrow> VersionEdit" where
  "set_prev_log_number number e = e\<lparr>ve_prev_log_number := number, ve_has_prev_log_number := True\<rparr>"

definition set_next_file :: "u64 \<Rightarrow> VersionEdit \<Rightarrow> VersionEdit" where
  "set_next_file number e = e\<lparr>ve_next_file_number := number, ve_has_next_file_number := True\<rparr>"

definition set_last_sequence :: "u64 \<Rightarrow> VersionEdit \<Rightarrow> VersionEdit" where
  "set_last_sequence sequence e = e\<lparr>ve_last_sequence := sequence, ve_has_last_sequence := True\<rparr>"

definition set_compact_pointer :: "nat \<Rightarrow> bytes \<Rightarrow> VersionEdit \<Rightarrow> VersionEdit" where
  "set_compact_pointer level key e = e\<lparr>ve_compact_pointers := ve_compact_pointers e @ [(level, key)]\<rparr>"

definition new_meta :: "u64 \<Rightarrow> u64 \<Rightarrow> bytes \<Rightarrow> bytes \<Rightarrow> FileMetaData" where
  "new_meta number file_size smallest largest =
     \<lparr>fm_number = number, fm_file_size = file_size, fm_smallest = smallest, fm_largest = largest,
      fm_allowed_seeks = kNoSeekLimit\<rparr>"

definition ve_add_file :: "nat \<Rightarrow> u64 \<Rightarrow> u64 \<Rightarrow> bytes \<Rightarrow> bytes \<Rightarrow> VersionEdit \<Rightarrow> VersionEdit" where
  "ve_add_file level number file_size smallest largest e =
     e\<lparr>ve_new_files := ve_new_files e @ [(level, new_meta number file_size smallest largest)]\<rparr>"

definition ve_remove_file :: "nat \<Rightarrow> u64 \<Rightarrow> VersionEdit \<Rightarrow> VersionEdit" where
  "ve_remove_file level number e = e\<lparr>ve_deleted_files := insort_insert (level, number) (ve_deleted_files e)\<rparr>"

section \<open>Encoding\<close>

datatype Tag = kComparator | kLogNumber | kNextFileNumber | kLastSequence | kCompactPointer
  | kDeletedFile | kNewFile | kPrevLogNumber

primrec tag_value :: "Tag \<Rightarrow> u32" where
  "tag_value kComparator = 1"
| "tag_value kLogNumber = 2"
| "tag_value kNextFileNumber = 3"
| "tag_value kLastSequence = 4"
| "tag_value kCompactPointer = 5"
| "tag_value kDeletedFile = 6"
| "tag_value kNewFile = 7"
| "tag_value kPrevLogNumber = 9"

definition put_number :: "bool \<Rightarrow> Tag \<Rightarrow> u64 \<Rightarrow> bytes \<Rightarrow> bytes" where
  "put_number present tag number dst =
     (if present then put_varint64 (put_varint32 dst (tag_value tag)) number else dst)"

definition put_compact_pointer :: "bytes \<Rightarrow> nat \<times> bytes \<Rightarrow> bytes" where
  "put_compact_pointer dst p =
     (case p of (level, key) \<Rightarrow>
        put_length_prefixed (put_varint32 (put_varint32 dst (tag_value kCompactPointer)) (word_of_nat level)) key)"

definition put_deleted_file :: "bytes \<Rightarrow> nat \<times> u64 \<Rightarrow> bytes" where
  "put_deleted_file dst p =
     (case p of (level, number) \<Rightarrow>
        put_varint64 (put_varint32 (put_varint32 dst (tag_value kDeletedFile)) (word_of_nat level)) number)"

definition put_new_file :: "bytes \<Rightarrow> nat \<times> FileMetaData \<Rightarrow> bytes" where
  "put_new_file dst p =
     (case p of (level, meta) \<Rightarrow>
        put_length_prefixed
          (put_length_prefixed
             (put_varint64
                (put_varint64
                   (put_varint32 (put_varint32 dst (tag_value kNewFile)) (word_of_nat level))
                   (fm_number meta))
                (fm_file_size meta))
             (fm_smallest meta))
          (fm_largest meta))"

definition ve_encode_to :: "VersionEdit \<Rightarrow> bytes \<Rightarrow> bytes" where
  "ve_encode_to e dst =
     (let d1 = (if ve_has_comparator e
                then put_length_prefixed (put_varint32 dst (tag_value kComparator)) (ve_comparator e) else dst);
          d2 = put_number (ve_has_log_number e) kLogNumber (ve_log_number e) d1;
          d3 = put_number (ve_has_prev_log_number e) kPrevLogNumber (ve_prev_log_number e) d2;
          d4 = put_number (ve_has_next_file_number e) kNextFileNumber (ve_next_file_number e) d3;
          d5 = put_number (ve_has_last_sequence e) kLastSequence (ve_last_sequence e) d4;
          d6 = foldl put_compact_pointer d5 (ve_compact_pointers e);
          d7 = foldl put_deleted_file d6 (ve_deleted_files e)
      in foldl put_new_file d7 (ve_new_files e))"

section \<open>Decoding\<close>

definition get_level :: "bytes \<Rightarrow> (nat \<times> bytes) option" where
  "get_level input =
     (case get_varint32 input of
        None \<Rightarrow> None
      | Some (value, rest) \<Rightarrow> if 7 \<le> value then None else Some (unat value, rest))"

definition get_number ::
    "string \<Rightarrow> (u64 \<Rightarrow> VersionEdit \<Rightarrow> VersionEdit) \<Rightarrow> bytes \<Rightarrow> VersionEdit \<Rightarrow> string + (VersionEdit \<times> bytes)" where
  "get_number failure store input e =
     (case get_varint64 input of None \<Rightarrow> Inl failure | Some (number, rest) \<Rightarrow> Inr (store number e, rest))"

definition get_compact_pointer :: "bytes \<Rightarrow> VersionEdit \<Rightarrow> string + (VersionEdit \<times> bytes)" where
  "get_compact_pointer input e =
     (case get_level input of
        None \<Rightarrow> Inl ''compaction pointer''
      | Some (level, r1) \<Rightarrow>
          (case get_length_prefixed r1 of
             None \<Rightarrow> Inl ''compaction pointer''
           | Some (field, r2) \<Rightarrow>
               if length field < 8 then Inl ''compaction pointer: a key too short to be an internal key''
               else Inr (set_compact_pointer level field e, r2)))"

definition get_deleted_file :: "bytes \<Rightarrow> VersionEdit \<Rightarrow> string + (VersionEdit \<times> bytes)" where
  "get_deleted_file input e =
     (case get_level input of
        None \<Rightarrow> Inl ''deleted file''
      | Some (level, r1) \<Rightarrow>
          (case get_varint64 r1 of
             None \<Rightarrow> Inl ''deleted file''
           | Some (number, r2) \<Rightarrow> Inr (ve_remove_file level number e, r2)))"

definition get_new_file :: "bytes \<Rightarrow> VersionEdit \<Rightarrow> string + (VersionEdit \<times> bytes)" where
  "get_new_file input e =
     (case get_level input of
        None \<Rightarrow> Inl ''new file''
      | Some (level, r1) \<Rightarrow>
     (case get_varint64 r1 of
        None \<Rightarrow> Inl ''new file''
      | Some (number, r2) \<Rightarrow>
     (case get_varint64 r2 of
        None \<Rightarrow> Inl ''new file''
      | Some (file_size, r3) \<Rightarrow>
     (case get_length_prefixed r3 of
        None \<Rightarrow> Inl ''new file''
      | Some (smallest, r4) \<Rightarrow>
     (case get_length_prefixed r4 of
        None \<Rightarrow> Inl ''new file''
      | Some (largest, r5) \<Rightarrow>
          if length smallest < 8 \<or> length largest < 8
          then Inl ''new file: a key too short to be an internal key''
          else Inr (ve_add_file level number file_size smallest largest e, r5))))))"

definition decode_field :: "u32 \<Rightarrow> bytes \<Rightarrow> VersionEdit \<Rightarrow> string + (VersionEdit \<times> bytes)" where
  "decode_field tag input e =
     (if tag = tag_value kComparator then
        (case get_length_prefixed input of
           None \<Rightarrow> Inl ''comparator name''
         | Some (field, rest) \<Rightarrow> Inr (set_comparator_name field e, rest))
      else if tag = tag_value kLogNumber then get_number ''log number'' set_log_number input e
      else if tag = tag_value kPrevLogNumber then get_number ''previous log number'' set_prev_log_number input e
      else if tag = tag_value kNextFileNumber then get_number ''next file number'' set_next_file input e
      else if tag = tag_value kLastSequence then get_number ''last sequence'' set_last_sequence input e
      else if tag = tag_value kCompactPointer then get_compact_pointer input e
      else if tag = tag_value kDeletedFile then get_deleted_file input e
      else if tag = tag_value kNewFile then get_new_file input e
      else Inl ''unknown tag'')"

lemma decode_field_shorter: "decode_field tag input e = Inr (e', rest) \<Longrightarrow> length rest < length input"
  by (auto simp: decode_field_def get_number_def get_compact_pointer_def get_deleted_file_def get_new_file_def get_level_def
      split: if_splits option.splits dest!: get_length_prefixed_shorter get_varint64_shorter get_varint32_shorter)

function decode_fields :: "bytes \<Rightarrow> VersionEdit \<Rightarrow> string + VersionEdit" where
  "decode_fields input e =
     (case get_varint32 input of
        None \<Rightarrow> if input \<noteq> [] then Inl ''trailing bytes after the last field'' else Inr e
      | Some (tag, rest) \<Rightarrow>
          (case decode_field tag rest e of
             Inl failure \<Rightarrow> Inl failure
           | Inr (e', rest') \<Rightarrow> decode_fields rest' e'))"
  by auto
termination
  by (relation "measure (\<lambda>(input, e). length input)")
    (auto dest!: decode_field_shorter get_varint32_shorter)

declare decode_fields.simps [simp del]

definition ve_decode_from :: "bytes \<Rightarrow> status + VersionEdit" where
  "ve_decode_from src =
     (case decode_fields src ve_clear of
        Inl failure \<Rightarrow> Inl (corruption (''version edit: '' @ failure))
      | Inr e \<Rightarrow> Inr e)"

section \<open>Well-formed edits\<close>

text \<open>What every edit is that was read from a manifest.\<close>

definition ve_inv :: "VersionEdit \<Rightarrow> bool" where
  "ve_inv e \<longleftrightarrow>
     (\<forall>(level, key) \<in> set (ve_compact_pointers e). level < 7 \<and> 8 \<le> length key) \<and>
     (\<forall>(level, number) \<in> set (ve_deleted_files e). level < 7) \<and>
     sorted (ve_deleted_files e) \<and> distinct (ve_deleted_files e) \<and>
     (\<forall>(level, meta) \<in> set (ve_new_files e).
        level < 7 \<and> 8 \<le> length (fm_smallest meta) \<and> 8 \<le> length (fm_largest meta) \<and>
        fm_allowed_seeks meta = kNoSeekLimit) \<and>
     (\<not> ve_has_comparator e \<longrightarrow> ve_comparator e = []) \<and>
     (\<not> ve_has_log_number e \<longrightarrow> ve_log_number e = 0) \<and>
     (\<not> ve_has_prev_log_number e \<longrightarrow> ve_prev_log_number e = 0) \<and>
     (\<not> ve_has_next_file_number e \<longrightarrow> ve_next_file_number e = 0) \<and>
     (\<not> ve_has_last_sequence e \<longrightarrow> ve_last_sequence e = 0)"

lemma ve_inv_clear: "ve_inv ve_clear"
  by (simp add: ve_inv_def ve_clear_def)

lemma get_level_bound: "get_level input = Some (level, rest) \<Longrightarrow> level < 7"
  by (auto simp: get_level_def word_le_nat_alt not_le split: option.splits if_splits)

lemma ve_inv_numbers:
  assumes "ve_inv e"
  shows "ve_inv (set_comparator_name name e)" "ve_inv (set_log_number n e)" "ve_inv (set_prev_log_number n e)"
    "ve_inv (set_next_file n e)" "ve_inv (set_last_sequence n e)"
  using assms unfolding ve_inv_def set_comparator_name_def set_log_number_def set_prev_log_number_def set_next_file_def
    set_last_sequence_def by simp_all

lemma ve_inv_files:
  assumes "ve_inv e" "level < 7"
  shows "8 \<le> length key \<Longrightarrow> ve_inv (set_compact_pointer level key e)" "ve_inv (ve_remove_file level n e)"
    "8 \<le> length a \<Longrightarrow> 8 \<le> length b \<Longrightarrow> ve_inv (ve_add_file level n m a b e)"
  using assms
  by (simp_all add: ve_inv_def set_compact_pointer_def ve_remove_file_def ve_add_file_def new_meta_def
      sorted_insort_insert distinct_insort_insert set_insort_insert)

lemma decode_field_inv:
  assumes "ve_inv e" "decode_field tag input e = Inr (e', rest)"
  shows "ve_inv e'"
proof -
  have n: "ve_inv e'" if "get_number f store input e = Inr (e', rest)" "\<And>n. ve_inv (store n e)" for f store
    using that by (auto simp: get_number_def split: option.splits)
  have c: "ve_inv e'" if "get_compact_pointer input e = Inr (e', rest)"
    using that assms(1)
    by (auto simp: get_compact_pointer_def ve_inv_files(1) get_level_bound split: option.splits if_splits)
  have d: "ve_inv e'" if "get_deleted_file input e = Inr (e', rest)"
    using that assms(1) by (auto simp: get_deleted_file_def ve_inv_files(2) get_level_bound split: option.splits)
  have f: "ve_inv e'" if "get_new_file input e = Inr (e', rest)"
    using that assms(1) by (auto simp: get_new_file_def ve_inv_files(3) get_level_bound split: option.splits if_splits)
  show ?thesis
    using assms(2) n [of _ set_log_number] n [of _ set_prev_log_number] n [of _ set_next_file] n [of _ set_last_sequence] c d f
    unfolding decode_field_def
    by (auto simp: ve_inv_numbers [OF assms(1)] split: if_splits option.splits)
qed

lemma decode_fields_inv: "ve_inv e \<Longrightarrow> decode_fields input e = Inr e' \<Longrightarrow> ve_inv e'"
proof (induction input e rule: decode_fields.induct)
  case (1 input e)
  show ?case using "1.prems" "1.IH" decode_field_inv [OF "1.prems"(1)]
    by (subst (asm) decode_fields.simps) (auto split: option.splits sum.splits if_splits)
qed

section \<open>Round trip\<close>

text \<open>What an edit that can be written is: its strings have a 32 bit length.\<close>

definition ve_small :: "VersionEdit \<Rightarrow> bool" where
  "ve_small e \<longleftrightarrow> length (ve_comparator e) < 2 ^ 32 \<and>
     (\<forall>(level, key) \<in> set (ve_compact_pointers e). length key < 2 ^ 32) \<and>
     (\<forall>(level, meta) \<in> set (ve_new_files e). length (fm_smallest meta) < 2 ^ 32 \<and> length (fm_largest meta) < 2 ^ 32)"

lemma decode_fields_Nil [simp]: "decode_fields [] e = Inr e"
  by (subst decode_fields.simps) (simp add: get_varint32_def get_varint_def eval_nat_numeral)

lemma decode_fields_tag:
  "decode_field tag (body @ rest) e = Inr (e', rest) \<Longrightarrow> decode_fields (put_varint tag @ body @ rest) e = decode_fields rest e'"
  by (subst decode_fields.simps) simp

lemma get_level_put: "level < 7 \<Longrightarrow> get_level (put_varint (word_of_nat level :: u32) @ rest) = Some (level, rest)"
  by (simp add: get_level_def word_le_nat_alt)

lemma put_deleted_file_eq:
  "put_deleted_file dst (level, number) = dst @ put_varint (tag_value kDeletedFile) @ (put_varint (word_of_nat level :: u32) @ put_varint number)"
  by (simp add: put_deleted_file_def put_varint32_def put_varint64_def)

lemma decode_put_number:
  "decode_fields (put_number present kLogNumber n [] @ rest) e = decode_fields rest (if present then set_log_number n e else e)"
  "decode_fields (put_number present kPrevLogNumber n [] @ rest) e = decode_fields rest (if present then set_prev_log_number n e else e)"
  "decode_fields (put_number present kNextFileNumber n [] @ rest) e = decode_fields rest (if present then set_next_file n e else e)"
  "decode_fields (put_number present kLastSequence n [] @ rest) e = decode_fields rest (if present then set_last_sequence n e else e)"
  by (auto simp: put_number_def put_varint32_def put_varint64_def decode_field_def get_number_def intro!: decode_fields_tag)

lemma decode_put_compact_pointer:
  assumes "level < 7" "8 \<le> length key" "length key < 2 ^ 32"
  shows "decode_fields (put_compact_pointer [] (level, key) @ rest) e = decode_fields rest (set_compact_pointer level key e)"
  using assms
  by (simp add: put_compact_pointer_def put_varint32_def put_length_prefixed_append [of "put_varint x @ y" for x y])
    (rule decode_fields_tag [where body = "put_varint (word_of_nat level :: u32) @ put_length_prefixed [] key", simplified],
     simp add: decode_field_def get_compact_pointer_def get_level_put)

lemma decode_put_deleted_file:
  assumes "level < 7"
  shows "decode_fields (put_deleted_file [] (level, number) @ rest) e = decode_fields rest (ve_remove_file level number e)"
  using assms by (simp add: put_deleted_file_eq)
    (rule decode_fields_tag [where body = "put_varint (word_of_nat level :: u32) @ put_varint number", simplified],
     simp add: decode_field_def get_deleted_file_def get_level_put)

lemma decode_put_new_file:
  assumes "level < 7" "8 \<le> length (fm_smallest m)" "8 \<le> length (fm_largest m)"
    "length (fm_smallest m) < 2 ^ 32" "length (fm_largest m) < 2 ^ 32" "fm_allowed_seeks m = kNoSeekLimit"
  shows "decode_fields (put_new_file [] (level, m) @ rest) e = decode_fields rest (e\<lparr>ve_new_files := ve_new_files e @ [(level, m)]\<rparr>)"
proof -
  let ?body = "put_varint (word_of_nat level :: u32) @ put_varint (fm_number m) @ put_varint (fm_file_size m) @
      put_length_prefixed [] (fm_smallest m) @ put_length_prefixed [] (fm_largest m)"
  have "put_new_file [] (level, m) = put_varint (tag_value kNewFile) @ ?body"
    by (simp add: put_new_file_def put_varint32_def put_varint64_def put_length_prefixed_def)
  moreover have "new_meta (fm_number m) (fm_file_size m) (fm_smallest m) (fm_largest m) = m"
    using assms(6) by (simp add: new_meta_def)
  then have "decode_field (tag_value kNewFile) (?body @ rest) e = Inr (e\<lparr>ve_new_files := ve_new_files e @ [(level, m)]\<rparr>, rest)"
    using assms by (simp add: decode_field_def get_new_file_def get_level_put ve_add_file_def)
  from decode_fields_tag [OF this] show ?thesis unfolding \<open>put_new_file [] (level, m) = _\<close> append_assoc .
qed

lemma foldl_appends:
  assumes "\<And>dst x. put dst x = dst @ put [] x"
  shows "foldl put dst xs = dst @ concat (map (put []) xs)"
proof (induction xs arbitrary: dst)
  case (Cons x xs)
  show ?case using Cons [of "put dst x"] assms [of dst x] by simp
qed simp

lemma decode_fields_many:
  assumes "\<And>x e rest. x \<in> set xs \<Longrightarrow> decode_fields (put x @ rest) e = decode_fields rest (store e x)"
  shows "decode_fields (concat (map put xs) @ rest) e = decode_fields rest (foldl store e xs)"
  using assms by (induction xs arbitrary: e) auto

lemma foldl_insort_insert:
  "sorted (ys @ xs) \<Longrightarrow> distinct (ys @ xs) \<Longrightarrow> foldl (\<lambda>acc x. insort_insert x acc) ys xs = ys @ (xs :: 'a::linorder list)"
proof (induction xs arbitrary: ys)
  case (Cons x xs)
  have "insort_insert x ys = ys @ [x]"
    using Cons.prems by (auto simp: sorted_append insort_insert_insort intro!: sorted_insort_is_snoc)
  then show ?case using Cons.IH [of "ys @ [x]"] Cons.prems by simp
qed simp

lemma foldl_compact_pointers:
  "foldl (\<lambda>e (level, key). set_compact_pointer level key e) e ps = e\<lparr>ve_compact_pointers := ve_compact_pointers e @ ps\<rparr>"
  by (induction ps arbitrary: e) (auto simp: set_compact_pointer_def)

lemma foldl_deleted_files:
  "foldl (\<lambda>e (level, n). ve_remove_file level n e) e ds =
     e\<lparr>ve_deleted_files := foldl (\<lambda>acc x. insort_insert x acc) (ve_deleted_files e) ds\<rparr>"
  by (induction ds arbitrary: e) (auto simp: ve_remove_file_def)

lemma foldl_new_files:
  "foldl (\<lambda>e x. e\<lparr>ve_new_files := ve_new_files e @ [x]\<rparr>) e fs = e\<lparr>ve_new_files := ve_new_files e @ fs\<rparr>"
  by (induction fs arbitrary: e) auto

lemma put_appends:
  "put_compact_pointer dst p = dst @ put_compact_pointer [] p" "put_deleted_file dst d = dst @ put_deleted_file [] d"
  "put_new_file dst f = dst @ put_new_file [] f" "put_number b t n dst = dst @ put_number b t n []"
  by (simp_all add: put_compact_pointer_def put_deleted_file_def put_new_file_def put_number_def put_varint32_def
      put_varint64_def put_length_prefixed_def split: prod.split)

lemma decode_put_comparator:
  "length name < 2 ^ 32 \<Longrightarrow>
   decode_fields (put_varint (tag_value kComparator) @ put_length_prefixed [] name @ rest) e =
     decode_fields rest (set_comparator_name name e)"
  by (rule decode_fields_tag) (simp add: decode_field_def)

lemma ve_encode_eq:
  "ve_encode_to e dst = dst @
     (if ve_has_comparator e then put_varint (tag_value kComparator) @ put_length_prefixed [] (ve_comparator e) else []) @
     put_number (ve_has_log_number e) kLogNumber (ve_log_number e) [] @
     put_number (ve_has_prev_log_number e) kPrevLogNumber (ve_prev_log_number e) [] @
     put_number (ve_has_next_file_number e) kNextFileNumber (ve_next_file_number e) [] @
     put_number (ve_has_last_sequence e) kLastSequence (ve_last_sequence e) [] @
     concat (map (put_compact_pointer []) (ve_compact_pointers e)) @
     concat (map (put_deleted_file []) (ve_deleted_files e)) @
     concat (map (put_new_file []) (ve_new_files e))"
  unfolding ve_encode_to_def Let_def foldl_appends [of put_compact_pointer, OF put_appends(1)]
    foldl_appends [of put_deleted_file, OF put_appends(2)] foldl_appends [of put_new_file, OF put_appends(3)]
    put_appends(4) [of _ _ _ "put_number b t n d" for b t n d]
  by (simp add: put_number_def put_varint32_def put_varint64_def put_length_prefixed_def)

lemma ve_decode_encode:
  assumes "ve_inv e" "ve_small e"
  shows "ve_decode_from (ve_encode_to e []) = Inr e"
proof -
  define e1 where "e1 = (if ve_has_comparator e then set_comparator_name (ve_comparator e) ve_clear else ve_clear)"
  define e2 where "e2 = (if ve_has_log_number e then set_log_number (ve_log_number e) e1 else e1)"
  define e3 where "e3 = (if ve_has_prev_log_number e then set_prev_log_number (ve_prev_log_number e) e2 else e2)"
  define e4 where "e4 = (if ve_has_next_file_number e then set_next_file (ve_next_file_number e) e3 else e3)"
  define e5 where "e5 = (if ve_has_last_sequence e then set_last_sequence (ve_last_sequence e) e4 else e4)"
  have pointers: "\<forall>x \<in> set (ve_compact_pointers e). fst x < 7 \<and> 8 \<le> length (snd x) \<and> length (snd x) < 2 ^ 32"
    and deleted: "\<forall>x \<in> set (ve_deleted_files e). fst x < 7"
    and news: "\<forall>x \<in> set (ve_new_files e). fst x < 7 \<and> 8 \<le> length (fm_smallest (snd x)) \<and> 8 \<le> length (fm_largest (snd x)) \<and>
        length (fm_smallest (snd x)) < 2 ^ 32 \<and> length (fm_largest (snd x)) < 2 ^ 32 \<and> fm_allowed_seeks (snd x) = kNoSeekLimit"
    using assms unfolding ve_inv_def ve_small_def case_prod_beta by blast+
  have cp: "decode_fields (concat (map (put_compact_pointer []) (ve_compact_pointers e)) @ rest) x =
      decode_fields rest (foldl (\<lambda>e (level, key). set_compact_pointer level key e) x (ve_compact_pointers e))" for x rest
    by (rule decode_fields_many) (use pointers decode_put_compact_pointer in fastforce)
  have df: "decode_fields (concat (map (put_deleted_file []) (ve_deleted_files e)) @ rest) x =
      decode_fields rest (foldl (\<lambda>e (level, n). ve_remove_file level n e) x (ve_deleted_files e))" for x rest
    by (rule decode_fields_many) (use deleted decode_put_deleted_file in fastforce)
  have "decode_fields (concat (map (put_new_file []) (ve_new_files e)) @ []) x =
      decode_fields [] (foldl (\<lambda>e x. e\<lparr>ve_new_files := ve_new_files e @ [x]\<rparr>) x (ve_new_files e))" for x
    by (rule decode_fields_many) (use news decode_put_new_file in fastforce)
  then have nf: "decode_fields (concat (map (put_new_file []) (ve_new_files e))) x =
      Inr (foldl (\<lambda>e x. e\<lparr>ve_new_files := ve_new_files e @ [x]\<rparr>) x (ve_new_files e))" for x by simp
  have cmp: "decode_fields ((if ve_has_comparator e then put_varint (tag_value kComparator) @ put_length_prefixed [] (ve_comparator e)
      else []) @ rest) ve_clear = decode_fields rest e1" for rest
    using assms(2) decode_put_comparator [of "ve_comparator e" rest ve_clear] by (simp add: e1_def ve_small_def)
  have ds: "foldl (\<lambda>acc x. insort_insert x acc) [] (ve_deleted_files e) = ve_deleted_files e"
    using foldl_insort_insert [of "[]" "ve_deleted_files e"] assms(1) by (simp add: ve_inv_def)
  have lists: "ve_compact_pointers e5 = []" "ve_deleted_files e5 = []" "ve_new_files e5 = []"
    by (simp_all add: e1_def e2_def e3_def e4_def e5_def ve_clear_def set_comparator_name_def set_log_number_def
        set_prev_log_number_def set_next_file_def set_last_sequence_def)
  have "decode_fields (ve_encode_to e []) ve_clear =
      Inr (e5\<lparr>ve_compact_pointers := ve_compact_pointers e, ve_deleted_files := ve_deleted_files e,
        ve_new_files := ve_new_files e\<rparr>)"
    unfolding ve_encode_eq append_Nil cmp decode_put_number e2_def [symmetric] e3_def [symmetric] e4_def [symmetric]
      e5_def [symmetric] cp df nf foldl_compact_pointers foldl_deleted_files foldl_new_files
    by (simp add: lists ds)
  moreover have "e5\<lparr>ve_compact_pointers := ve_compact_pointers e, ve_deleted_files := ve_deleted_files e,
        ve_new_files := ve_new_files e\<rparr> = e"
    using assms(1)
    by (simp add: e1_def e2_def e3_def e4_def e5_def ve_clear_def set_comparator_name_def set_log_number_def
        set_prev_log_number_def set_next_file_def set_last_sequence_def ve_inv_def)
  ultimately show ?thesis by (simp add: ve_decode_from_def)
qed

text \<open>
  C20. A version edit survives the manifest: decoding what was encoded gives the edit back,
  for every edit the engine makes, one whose levels are below seven, whose keys are internal
  keys and whose strings have a 32 bit length.
\<close>

theorem version_edit_round_trip:
  assumes "ve_inv e" "ve_small e"
  shows "ve_decode_from (ve_encode_to e []) = Inr e"
  using assms by (rule ve_decode_encode)

definition sample_edit :: VersionEdit where
  "sample_edit = ve_add_file 1 9 4096 [97, 1, 5, 0, 0, 0, 0, 0, 0] [98, 1, 4, 0, 0, 0, 0, 0, 0]
     (ve_remove_file 0 7 (ve_remove_file 0 300 (set_compact_pointer 2 [97, 1, 5, 0, 0, 0, 0, 0, 0]
       (set_last_sequence 5 (set_next_file 10 (set_log_number 8 (set_comparator_name [120] ve_clear)))))))"

theorem version_edit_round_trip_witness: "ve_decode_from (ve_encode_to sample_edit []) = Inr sample_edit"
proof (rule version_edit_round_trip)
  show "ve_inv sample_edit" by (simp add: sample_edit_def ve_inv_files ve_inv_numbers ve_inv_clear)
  show "ve_small sample_edit"
    by (simp add: sample_edit_def ve_small_def ve_add_file_def new_meta_def ve_remove_file_def set_compact_pointer_def
        set_last_sequence_def set_next_file_def set_log_number_def set_comparator_name_def ve_clear_def)
qed

text \<open>
  C21. Whatever bytes a manifest record holds, an edit that is accepted is safe to apply:
  every level is one of the seven, every file's bounds and every compaction pointer
  are long enough to be an internal key, and the set of deleted files has no duplicates.
\<close>

theorem version_edit_accepted_is_safe:
  assumes "ve_decode_from src = Inr e"
  shows "ve_inv e"
proof -
  have "decode_fields src ve_clear = Inr e" using assms by (auto simp: ve_decode_from_def split: sum.splits)
  then show ?thesis by (rule decode_fields_inv [OF ve_inv_clear])
qed

theorem version_edit_accepted_is_safe_witness:
  "\<exists>e. ve_decode_from [6, 0, 7, 2, 8] = Inr e \<and> ve_deleted_files e = [(0, 7)] \<and> ve_log_number e = 8 \<and> ve_inv e"
proof -
  have "isl (ve_decode_from [6, 0, 7, 2, 8]) = False" by code_simp
  then obtain e where e: "ve_decode_from [6, 0, 7, 2, 8] = Inr e" by (cases "ve_decode_from [6, 0, 7, 2, 8]") auto
  have "map_sum id (\<lambda>e. (ve_deleted_files e, ve_log_number e)) (ve_decode_from [6, 0, 7, 2, 8]) = Inr ([(0, 7)], 8)" by code_simp
  then show ?thesis using e version_edit_accepted_is_safe [OF e] by simp
qed

end
