(* ===== verification/Iterators.thy ===== *)
theory Iterators
  imports Block_Iter Memtable
begin

text \<open>
  include/ambar/iterator.hpp and src/iterator.cpp: the interface every ordered source
  has, its contract, and the empty, block and memtable iterators as instances.
\<close>

section \<open>The interface\<close>

text \<open>
  The virtual functions of an iterator whose state is \<open>'i\<close>.  A positioning call that does
  not return is \<^term>\<open>None\<close>.
\<close>

record 'i Iterator =
  it_valid :: "'i \<Rightarrow> bool"
  it_key :: "'i \<Rightarrow> bytes"
  it_value :: "'i \<Rightarrow> bytes"
  it_status :: "'i \<Rightarrow> status"
  it_do :: "cursor_op \<Rightarrow> 'i \<Rightarrow> 'i option"

section \<open>The contract\<close>

text \<open>
  \<open>at it kvs i\<close>: the iterator ranges over the entries \<open>kvs\<close>, in order, and stands at the
  \<open>i\<close>-th; at the length of \<open>kvs\<close> it is not valid.  Next and prev may be called when
  it is valid, and a key has a 32-bit length wherever it is stored or sought.
\<close>

abbreviation short :: "bytes \<Rightarrow> bool" where
  "short key \<equiv> length key < 2 ^ 32"

definition may_do :: "(bytes \<times> bytes) list \<Rightarrow> nat \<Rightarrow> cursor_op \<Rightarrow> bool" where
  "may_do kvs i op \<longleftrightarrow> (case op of Next \<Rightarrow> i < length kvs | Prev \<Rightarrow> i < length kvs | Seek t \<Rightarrow> short t | _ \<Rightarrow> True)"

locale cursor = key_order c for c +
  fixes V :: "'i Iterator" and at :: "'i \<Rightarrow> (bytes \<times> bytes) list \<Rightarrow> nat \<Rightarrow> bool"
  assumes at_ordered: "at it kvs i \<Longrightarrow> ordered c kvs"
    and at_short: "at it kvs i \<Longrightarrow> x \<in> set kvs \<Longrightarrow> short (fst x)"
    and at_le: "at it kvs i \<Longrightarrow> i \<le> length kvs"
    and at_valid: "at it kvs i \<Longrightarrow> it_valid V it \<longleftrightarrow> i < length kvs"
    and at_key: "at it kvs i \<Longrightarrow> i < length kvs \<Longrightarrow> it_key V it = fst (kvs ! i)"
    and at_value: "at it kvs i \<Longrightarrow> i < length kvs \<Longrightarrow> it_value V it = snd (kvs ! i)"
    and at_status: "at it kvs i \<Longrightarrow> it_status V it = status_ok"
    and at_do: "at it kvs i \<Longrightarrow> may_do kvs i op \<Longrightarrow> \<exists>it'. it_do V op it = Some it' \<and> at it' kvs (cursor_step c kvs i op)"
begin

lemma at_seek: "at it kvs i \<Longrightarrow> short t \<Longrightarrow> \<exists>it'. it_do V (Seek t) it = Some it' \<and> at it' kvs (lower_bound c t kvs)"
  using at_do [of it kvs i "Seek t"] by (simp add: may_do_def)

lemma at_first: "at it kvs i \<Longrightarrow> \<exists>it'. it_do V SeekToFirst it = Some it' \<and> at it' kvs 0"
  using at_do [of it kvs i SeekToFirst] by (simp add: may_do_def)

lemma at_last: "at it kvs i \<Longrightarrow> \<exists>it'. it_do V SeekToLast it = Some it' \<and> at it' kvs (length kvs - 1)"
  using at_do [of it kvs i SeekToLast] by (simp add: may_do_def)

lemma at_next: "at it kvs i \<Longrightarrow> i < length kvs \<Longrightarrow> \<exists>it'. it_do V Next it = Some it' \<and> at it' kvs (Suc i)"
  using at_do [of it kvs i Next] by (simp add: may_do_def)

lemma at_prev: "at it kvs i \<Longrightarrow> i < length kvs \<Longrightarrow>
    \<exists>it'. it_do V Prev it = Some it' \<and> at it' kvs (if i = 0 then length kvs else i - 1)"
  using at_do [of it kvs i Prev] by (simp add: may_do_def)

end

text \<open>A whole sequence of calls; next and prev are only made when the iterator is valid.\<close>

fun it_run :: "'i Iterator \<Rightarrow> cursor_op list \<Rightarrow> 'i \<Rightarrow> 'i option" where
  "it_run V [] it = Some it"
| "it_run V (op # ops) it =
     (if (op = Next \<or> op = Prev) \<and> \<not> it_valid V it then it_run V ops it
      else Option.bind (it_do V op it) (it_run V ops))"

definition short_targets :: "cursor_op list \<Rightarrow> bool" where
  "short_targets ops \<longleftrightarrow> (\<forall>t. Seek t \<in> set ops \<longrightarrow> short t)"

lemma it_run_steps:
  assumes "\<And>it i. P it i \<Longrightarrow> it_valid V it \<longleftrightarrow> i < length kvs"
    and "\<And>it i op. P it i \<Longrightarrow> op \<in> set ops \<Longrightarrow> op = Next \<or> op = Prev \<longrightarrow> i < length kvs \<Longrightarrow>
      \<exists>it'. it_do V op it = Some it' \<and> P it' (cursor_step c kvs i op)"
    and "P it i"
  shows "\<exists>it'. it_run V ops it = Some it' \<and> P it' (foldl (cursor_step c kvs) i ops)"
  using assms(2,3)
proof (induction ops arbitrary: it i)
  case (Cons op ops)
  have IH: "\<exists>it'. it_run V ops it1 = Some it' \<and> P it' (foldl (cursor_step c kvs) i1 ops)" if "P it1 i1" for it1 i1
    by (rule Cons.IH [OF Cons.prems(1) that]) simp_all
  show ?case
  proof (cases "(op = Next \<or> op = Prev) \<and> \<not> it_valid V it")
    case True
    then show ?thesis using IH [OF Cons.prems(2)] assms(1) [OF Cons.prems(2)] by auto
  next
    case False
    then obtain it1 where "it_do V op it = Some it1" "P it1 (cursor_step c kvs i op)"
      using Cons.prems(1) [OF Cons.prems(2), of op] assms(1) [OF Cons.prems(2)] by auto
    then show ?thesis using IH False by auto
  qed
qed simp

context cursor
begin

lemma at_run:
  assumes "at it kvs i" "short_targets ops"
  shows "\<exists>it'. it_run V ops it = Some it' \<and> at it' kvs (foldl (cursor_step c kvs) i ops)"
proof (rule it_run_steps [where P = "\<lambda>it i. at it kvs i"])
  fix it i op assume "at it kvs i" "op \<in> set ops" "op = Next \<or> op = Prev \<longrightarrow> i < length kvs"
  then show "\<exists>it'. it_do V op it = Some it' \<and> at it' kvs (cursor_step c kvs i op)"
    using assms(2) by (intro at_do) (auto simp: may_do_def short_targets_def split: cursor_op.splits)
qed (use at_valid assms(1) in auto)

lemma at_run_observed:
  assumes "at it kvs n" "short_targets ops" "i = foldl (cursor_step c kvs) n ops"
  shows "\<exists>it'. it_run V ops it = Some it' \<and> it_status V it' = status_ok \<and> (it_valid V it' \<longleftrightarrow> i < length kvs) \<and>
    (i < length kvs \<longrightarrow> it_key V it' = fst (kvs ! i) \<and> it_value V it' = snd (kvs ! i))"
  using at_run [OF assms(1,2)] at_valid at_key at_value at_status assms(3) by blast

end

section \<open>EmptyIterator\<close>

text \<open>The state is the status; next and prev fail an assertion, and key and value too.\<close>

definition EmptyIterator :: "status Iterator" where
  "EmptyIterator =
     \<lparr>it_valid = (\<lambda>_. False), it_key = (\<lambda>_. []), it_value = (\<lambda>_. []), it_status = (\<lambda>s. s),
      it_do = (\<lambda>op s. if op = Next \<or> op = Prev then None else Some s)\<rparr>"

definition new_empty_iterator :: status where
  "new_empty_iterator = status_ok"

definition new_error_iterator :: "status \<Rightarrow> status" where
  "new_error_iterator s = s"

interpretation empty_bw: cursor kBytewise EmptyIterator "\<lambda>s kvs i. s = status_ok \<and> kvs = [] \<and> i = 0"
  by unfold_locales
    (auto simp: EmptyIterator_def ordered_def may_do_def lower_bound_def split: cursor_op.splits)

interpretation empty_ik: cursor kInternal EmptyIterator "\<lambda>s kvs i. s = status_ok \<and> kvs = [] \<and> i = 0"
  by unfold_locales
    (auto simp: EmptyIterator_def ordered_def may_do_def lower_bound_def split: cursor_op.splits)

section \<open>The block iterator\<close>

definition BlockIterator :: "Comparator \<Rightarrow> nat \<Rightarrow> (Block \<times> BlockIter) Iterator" where
  "BlockIterator c nul =
     \<lparr>it_valid = (\<lambda>(b, it). bi_valid b it), it_key = (\<lambda>(b, it). bi_key it), it_value = (\<lambda>(b, it). bi_value_bytes b it),
      it_status = (\<lambda>(b, it). bi_status it),
      it_do = (\<lambda>op (b, it). Some (b, case op of
          SeekToFirst \<Rightarrow> bi_seek_to_first c nul b it
        | SeekToLast \<Rightarrow> bi_seek_to_last c nul b it
        | Seek target \<Rightarrow> bi_seek c nul b it target
        | Next \<Rightarrow> bi_next c nul b it
        | Prev \<Rightarrow> bi_prev c nul b it))\<rparr>"

definition block_at :: "Comparator \<Rightarrow> Block \<times> BlockIter \<Rightarrow> (bytes \<times> bytes) list \<Rightarrow> nat \<Rightarrow> bool" where
  "block_at c x kvs i \<longleftrightarrow> ordered c kvs \<and> i \<le> length kvs \<and>
     (\<exists>off sh ri. holds (fst x) kvs off sh ri \<and> points_at (fst x) kvs off ri (snd x) i)"

context key_order
begin

lemma cursor_step_le: "i \<le> length kvs \<Longrightarrow> cursor_step c kvs i op \<le> length kvs"
  by (cases op) (auto simp: lower_bound_def length_takeWhile_le)

lemma block_at_do:
  assumes "block_at c x kvs i" "may_do kvs i op"
  shows "\<exists>x'. it_do (BlockIterator c nul) op x = Some x' \<and> block_at c x' kvs (cursor_step c kvs i op)"
proof -
  obtain b it where x: "x = (b, it)" by (cases x)
  obtain off sh ri where o: "ordered c kvs" and h: "holds b kvs off sh ri" and p: "points_at b kvs off ri it i"
    using assms(1) by (auto simp: block_at_def x)
  have "\<exists>it'. it_do (BlockIterator c nul) op x = Some (b, it') \<and> it' = bi_step c nul b it op"
    using assms(2) points_valid [OF h p] by (cases op) (auto simp: BlockIterator_def x may_do_def)
  then show ?thesis using o h cursor_step_le [of i kvs op] assms(1) bi_step_points [OF h o p, of nul op] by (auto simp: block_at_def)
qed

lemma block_cursor: "cursor c (BlockIterator c nul) (block_at c)"
proof (unfold_locales, goal_cases)
  case (2 it kvs i x)
  then show ?case by (auto simp: block_at_def holds_def in_set_conv_nth)
next
  case (8 it kvs i op)
  then show ?case by (rule block_at_do)
qed (auto simp: block_at_def BlockIterator_def dest: points_observed split: prod.splits)

end

interpretation block_ik: cursor kInternal "BlockIterator kInternal nul" "block_at kInternal" for nul
  by (rule ik.block_cursor)

interpretation block_bw: cursor kBytewise "BlockIterator kBytewise nul" "block_at kBytewise" for nul
  by (rule bw.block_cursor)

section \<open>The memtable iterator\<close>

definition MemTableIterator :: "(MemTable \<times> sl_iter) Iterator" where
  "MemTableIterator =
     \<lparr>it_valid = (\<lambda>(mt, it). it \<noteq> None), it_key = (\<lambda>(mt, it). mi_key mt it), it_value = (\<lambda>(mt, it). mi_value mt it),
      it_status = (\<lambda>_. status_ok),
      it_do = (\<lambda>op (mt, it). map_option (Pair mt) (case op of
          SeekToFirst \<Rightarrow> Some (mi_seek_to_first mt)
        | SeekToLast \<Rightarrow> mi_seek_to_last mt
        | Seek target \<Rightarrow> mi_seek mt target
        | Next \<Rightarrow> Some (mi_next mt it)
        | Prev \<Rightarrow> mi_prev mt it))\<rparr>"

definition mem_new_iterator :: "MemTable \<Rightarrow> MemTable \<times> sl_iter" where
  "mem_new_iterator mt = (mt, None)"

text \<open>Node \<open>i\<close> of the list, or null past its end.\<close>

definition node_at :: "nat list \<Rightarrow> nat \<Rightarrow> sl_iter" where
  "node_at ns i = (if i < length ns then Some (ns ! i) else None)"

definition kv_of :: "entry \<Rightarrow> bytes \<times> bytes" where
  "kv_of e = (ikey e, e_value e)"

definition mem_at :: "MemTable \<times> sl_iter \<Rightarrow> (bytes \<times> bytes) list \<Rightarrow> nat \<Rightarrow> bool" where
  "mem_at x kvs i \<longleftrightarrow>
     (\<exists>es ns h. mt_inv (fst x) es \<and> sl_inv mem_compare (mt_table (fst x)) ns h \<and>
        sl_keys (mt_table (fst x)) ns = map enc es \<and> kvs = map kv_of es \<and> i \<le> length ns \<and> snd x = node_at ns i)"

lemma first_of_drop: "first_of (drop i ns) = node_at ns i"
  by (cases "i < length ns") (simp_all add: node_at_def first_of_def Cons_nth_drop_Suc [symmetric])

lemma path_next: "path nx p ns \<Longrightarrow> nx p = node_at ns 0 \<and> (\<forall>i < length ns. nx (ns ! i) = node_at ns (Suc i))"
proof (induction ns arbitrary: p)
  case (Cons n ns)
  have n: "nx p = Some n" "path nx n ns" using Cons.prems by simp_all
  have "nx ((n # ns) ! i) = node_at (n # ns) (Suc i)" if "i < length (n # ns)" for i
    using Cons.IH [OF n(2)] that by (cases i) (simp_all add: node_at_def)
  then show ?case using n(1) by (simp add: node_at_def)
qed (simp add: node_at_def)

lemma length_takeWhile_map2:
  "map P xs = map Q ys \<Longrightarrow> length (takeWhile P xs) = length (takeWhile Q ys)"
proof (induction xs arbitrary: ys)
  case (Cons x xs)
  then show ?case by (cases ys) auto
qed simp

lemma takeWhile_below_nth:
  assumes "sorted_wrt R ns" "i < length ns" "\<not> R (ns ! i) (ns ! i)"
  shows "takeWhile (\<lambda>n. R n (ns ! i)) ns = take i ns"
  using assms by (intro takeWhile_eq_take_P_nth) (auto simp: sorted_wrt_iff_nth_less)

lemma last_node: "sl_head \<notin> set ns \<Longrightarrow> i \<le> length ns \<Longrightarrow>
    (if last (sl_head # take i ns) = sl_head then None else Some (last (sl_head # take i ns))) =
    (if i = 0 then None else Some (ns ! (i - 1)))"
proof (cases "i = 0")
  case False
  assume head: "sl_head \<notin> set ns" and i: "i \<le> length ns"
  have "ns ! (i - 1) \<in> set ns" using False i by (intro nth_mem) simp
  then have "ns ! (i - 1) \<noteq> sl_head" using head by metis
  moreover have "last (sl_head # take i ns) = ns ! (i - 1)"
    using False i by (auto simp: last_conv_nth min_def)
  ultimately show ?thesis using False by metis
qed simp

lemma node_key:
  assumes "mt_inv mt es" "sl_keys (mt_table mt) ns = map enc es" "kvs = map kv_of es" "j < length ns"
  shows "rec_key (sl_key (mt_table mt) (ns ! j)) = fst (kvs ! j)"
    "rec_value (sl_key (mt_table mt) (ns ! j)) = snd (kvs ! j)"
proof -
  have len: "length ns = length es" using assms(2) by (metis length_map sl_keys_def)
  have "sl_key (mt_table mt) (ns ! j) = enc (es ! j)"
    using assms(2,4) len by (metis nth_map sl_keys_def)
  moreover have "wf_entry (es ! j)" using assms(1,4) len by (simp add: mt_inv_def)
  ultimately show "rec_key (sl_key (mt_table mt) (ns ! j)) = fst (kvs ! j)"
    "rec_value (sl_key (mt_table mt) (ns ! j)) = snd (kvs ! j)"
    using assms(3,4) len by (simp_all add: kv_of_def)
qed

lemma mem_at_do:
  assumes "mem_at x kvs i" "may_do kvs i op"
  shows "\<exists>x'. it_do MemTableIterator op x = Some x' \<and> mem_at x' kvs (cursor_step kInternal kvs i op)"
proof -
  obtain mt it where x: "x = (mt, it)" by (cases x)
  let ?l = "mt_table mt"
  obtain es ns h where m: "mt_inv mt es" "sl_inv mem_compare ?l ns h" "sl_keys ?l ns = map enc es"
      "kvs = map kv_of es" "i \<le> length ns" "it = node_at ns i"
    using assms(1) by (auto simp: mem_at_def x)
  have len: "length ns = length kvs" using m(3,4) by (metis length_map sl_keys_def)
  have goal: ?thesis if "it_do MemTableIterator op x = Some (mt, node_at ns j)" "j = cursor_step kInternal kvs i op" for j
  proof -
    have "j \<le> length ns" using that(2) m(5) len ik.cursor_step_le by simp
    then show ?thesis using that m by (auto simp: mem_at_def)
  qed
  have head: "sl_head \<notin> set ns" using m(2) by (simp add: sl_inv_def)
  note nx = path_next [OF sl_inv_path_0 [OF m(2)]]
  show ?thesis
  proof (cases op)
    case SeekToFirst
    show ?thesis by (rule goal [of 0])
      (use nx in \<open>simp_all add: x SeekToFirst MemTableIterator_def mi_seek_to_first_def it_seek_to_first_def\<close>)
  next
    case SeekToLast
    have "mi_seek_to_last mt = Some (node_at ns (length ns - 1))"
      using last_node [OF head, of "length ns"]
      by (auto simp: mi_seek_to_last_def it_seek_to_last_def mem.find_last_correct [OF m(2)] node_at_def split: if_splits)
    then show ?thesis by (intro goal [of "length ns - 1"]) (simp_all add: x SeekToLast MemTableIterator_def len)
  next
    case (Seek t)
    let ?K = "put_varint32 [] (word_of_nat (length t)) @ t"
    have "rec_key ?K = t" using assms(2) read_length_prefixed_put [of t "[]"] by (simp add: Seek may_do_def rec_key_def put_varint32_def)
    moreover have "rec_key (sl_key ?l (ns ! j)) = fst (kvs ! j)" if "j < length ns" for j
      using that by (rule node_key [OF m(1,3,4)])
    ultimately have "map (before mem_compare ?l ?K) ns = map (\<lambda>x. cmp_compare kInternal (fst x) t < 0) kvs"
      by (intro nth_equalityI) (simp_all add: len mem_compare_def kInternal_def)
    then have "length (takeWhile (before mem_compare ?l ?K) ns) = lower_bound kInternal t kvs"
      unfolding lower_bound_def by (rule length_takeWhile_map2)
    then have "mi_seek mt t = Some (node_at ns (lower_bound kInternal t kvs))"
      using mem.find_greater_or_equal_correct [OF m(2), of ?K]
      by (auto simp: mi_seek_def it_seek_def dropWhile_eq_drop first_of_drop)
    then show ?thesis by (intro goal) (simp_all add: x Seek MemTableIterator_def)
  next
    case Next
    then have "i < length ns" using assms(2) len by (simp add: may_do_def)
    then show ?thesis using nx len m(6)
      by (intro goal [of "Suc i"]) (simp_all add: x Next MemTableIterator_def mi_next_def it_next_def node_at_def)
  next
    case Prev
    then have i: "i < length ns" using assms(2) len by (simp add: may_do_def)
    have "takeWhile (before mem_compare ?l (sl_key ?l (ns ! i))) ns = take i ns"
      by (rule takeWhile_below_nth [where R = "\<lambda>a b. mem_compare (sl_key ?l a) (sl_key ?l b) < 0"])
        (use m(2) i mem.cmp_swap [of "sl_key ?l (ns ! i)" "sl_key ?l (ns ! i)"] in \<open>auto simp: sl_inv_def\<close>)
    then have "find_less_than mem_compare ?l (sl_key ?l (the it)) = Some (last (sl_head # take i ns))"
      using mem.find_less_than_correct [OF m(2), of "sl_key ?l (ns ! i)"] i m(6) by (simp only: node_at_def if_True option.sel)
    then have "mi_prev mt it = Some (if i = 0 then None else Some (ns ! (i - 1)))"
      using last_node [OF head, of i] i by (simp only: mi_prev_def it_prev_def option.map less_imp_le)
    then show ?thesis using i len
      by (intro goal [of "if i = 0 then length ns else i - 1"]) (auto simp: x Prev MemTableIterator_def node_at_def)
  qed
qed

lemma mem_at_entry:
  assumes "mem_at (mt, it) kvs i"
  shows "(it \<noteq> None \<longleftrightarrow> i < length kvs) \<and>
    (i < length kvs \<longrightarrow> mi_key mt it = fst (kvs ! i) \<and> mi_value mt it = snd (kvs ! i))"
proof -
  obtain es ns where m: "mt_inv mt es" "sl_keys (mt_table mt) ns = map enc es" "kvs = map kv_of es"
      "i \<le> length ns" "it = node_at ns i"
    using assms by (auto simp: mem_at_def)
  have "length ns = length kvs" using m(2,3) by (metis length_map sl_keys_def)
  then show ?thesis using m(5) node_key [OF m(1-3), of i] by (auto simp: node_at_def mi_key_def mi_value_def)
qed

lemma mem_at_keys:
  assumes "mem_at x kvs i"
  shows "ordered kInternal kvs \<and> (\<forall>x \<in> set kvs. short (fst x)) \<and> i \<le> length kvs"
proof -
  obtain es ns where m: "mt_inv (fst x) es" "sl_keys (mt_table (fst x)) ns = map enc es" "kvs = map kv_of es" "i \<le> length ns"
    using assms by (auto simp: mem_at_def)
  have "length ns = length es" using m(2) by (metis length_map sl_keys_def)
  then show ?thesis using m mt_sorted [OF m(1)] e_less_def [abs_def]
    by (auto simp: ordered_def sorted_wrt_map kv_of_def kInternal_def readable_def mt_inv_def wf_entry_def)
qed

interpretation mem_it: cursor kInternal MemTableIterator mem_at
proof (unfold_locales, goal_cases)
  case (2 it kvs i x)
  then show ?case using mem_at_keys [of it kvs i] by blast
next
  case (8 it kvs i op)
  then show ?case by (rule mem_at_do)
qed (auto simp: MemTableIterator_def dest: mem_at_keys mem_at_entry split: prod.splits)

lemma mem_at_new:
  assumes "mt_inv mt es"
  shows "mem_at (mem_new_iterator mt) (map kv_of es) (length es)"
proof -
  obtain ns h where ns: "sl_inv mem_compare (mt_table mt) ns h" "sl_keys (mt_table mt) ns = map enc es"
    using assms by (auto simp: mt_inv_def)
  moreover have "length ns = length es" using ns(2) by (metis length_map sl_keys_def)
  ultimately show ?thesis using assms unfolding mem_at_def mem_new_iterator_def
    by (intro exI [of _ es] exI [of _ ns] exI [of _ h]) (simp add: node_at_def)
qed

end
