(* ===== verification/Version.thy ===== *)
theory Version
  imports Complex_Main Version_Edit Table_Builder Iterators
begin

text \<open>
  The class Version of src/version_set.hpp and src/version_set.cpp: one immutable list of
  files per level, and what is asked of it.

  A file is the record its pointer leads to.  The table cache is a parameter: \<open>'s\<close> is its
  state, and a \<open>'s table_get\<close> its lookup, which hands over a failure or the entry its
  callback is called with.
\<close>

definition kNumLevels :: nat where
  "kNumLevels = 7"

definition kL0CompactionTrigger :: nat where
  "kL0CompactionTrigger = 4"

definition kL0SlowdownWritesTrigger :: nat where
  "kL0SlowdownWritesTrigger = 8"

definition kL0StopWritesTrigger :: nat where
  "kL0StopWritesTrigger = 12"

definition kMaxMemCompactLevel :: nat where
  "kMaxMemCompactLevel = 2"

section \<open>Searching the files of a level\<close>

text \<open>The sum is an int64; it is taken to stay below the bound past which the sum would be undefined.\<close>

definition total_file_size :: "FileMetaData list \<Rightarrow> int" where
  "total_file_size files = sum_list (map (\<lambda>f. sint (fm_file_size f)) files)"

definition after_file :: "Comparator \<Rightarrow> bytes option \<Rightarrow> FileMetaData \<Rightarrow> bool" where
  "after_file user_comparator ukey file =
     (case ukey of None \<Rightarrow> False
      | Some k \<Rightarrow> cmp_compare user_comparator k (extract_user_key (fm_largest file)) > 0)"

definition before_file :: "Comparator \<Rightarrow> bytes option \<Rightarrow> FileMetaData \<Rightarrow> bool" where
  "before_file user_comparator ukey file =
     (case ukey of None \<Rightarrow> False
      | Some k \<Rightarrow> cmp_compare user_comparator k (extract_user_key (fm_smallest file)) < 0)"

function find_file_loop :: "Comparator \<Rightarrow> FileMetaData list \<Rightarrow> bytes \<Rightarrow> nat \<Rightarrow> nat \<Rightarrow> nat" where
  "find_file_loop comparator files key left right =
     (if left < right
      then let mid = (left + right) div 2 in
           if cmp_compare comparator (fm_largest (files ! mid)) key < 0
           then find_file_loop comparator files key (mid + 1) right
           else find_file_loop comparator files key left mid
      else right)"
  by pat_completeness auto
termination
  by (relation "measure (\<lambda>(_, _, _, left, right). right - left)") auto

declare find_file_loop.simps [simp del]

definition find_file :: "Comparator \<Rightarrow> FileMetaData list \<Rightarrow> bytes \<Rightarrow> nat" where
  "find_file comparator files key = find_file_loop comparator files key 0 (length files)"

definition some_file_overlaps_range ::
    "Comparator \<Rightarrow> Comparator \<Rightarrow> bool \<Rightarrow> FileMetaData list \<Rightarrow> bytes option \<Rightarrow> bytes option \<Rightarrow> bool" where
  "some_file_overlaps_range comparator user_comparator disjoint_sorted_files files smallest_user_key largest_user_key =
     (if \<not> disjoint_sorted_files
      then \<exists>file \<in> set files. \<not> after_file user_comparator smallest_user_key file \<and>
             \<not> before_file user_comparator largest_user_key file
      else let index = (case smallest_user_key of None \<Rightarrow> 0
                        | Some k \<Rightarrow> find_file comparator files (make_internal_key k kMaxSequenceNumber kValueTypeForSeek))
           in if index \<ge> length files then False
              else \<not> before_file user_comparator largest_user_key (files ! index))"

section \<open>The files of a level as an iterator\<close>

text \<open>Its state is the index into the list.\<close>

definition level_value :: "FileMetaData \<Rightarrow> bytes" where
  "level_value file = encode_fixed64 (fm_number file) @ encode_fixed64 (fm_file_size file)"

fun level_do :: "Comparator \<Rightarrow> FileMetaData list \<Rightarrow> cursor_op \<Rightarrow> nat \<Rightarrow> nat" where
  "level_do c files (Seek target) i = find_file c files target"
| "level_do c files SeekToFirst i = 0"
| "level_do c files SeekToLast i = (if files = [] then 0 else length files - 1)"
| "level_do c files Next i = i + 1"
| "level_do c files Prev i = (if i = 0 then length files else i - 1)"

definition LevelFileNumIterator :: "Comparator \<Rightarrow> FileMetaData list \<Rightarrow> nat Iterator" where
  "LevelFileNumIterator c files =
     \<lparr>it_valid = \<lambda>i. i < length files,
      it_key = \<lambda>i. fm_largest (files ! i),
      it_value = \<lambda>i. level_value (files ! i),
      it_status = \<lambda>_. status_ok,
      it_do = \<lambda>op i. Some (level_do c files op i)\<rparr>"

section \<open>Version\<close>

record Version =
  v_files :: "nat \<Rightarrow> FileMetaData list"
  v_file_to_compact :: "FileMetaData option"
  v_file_to_compact_level :: int
  v_compaction_score :: rat
  v_compaction_level :: int

definition Version_ctor :: Version where
  "Version_ctor = \<lparr>v_files = \<lambda>_. [], v_file_to_compact = None, v_file_to_compact_level = -1,
     v_compaction_score = -1, v_compaction_level = -1\<rparr>"

record GetStats =
  seek_file :: "FileMetaData option"
  seek_file_level :: int

subsection \<open>Lookup\<close>

datatype SaverState = kAbsent | kFound | kDeleted | kCorrupt

record Saver =
  sv_state :: SaverState
  sv_user_key :: bytes
  sv_value :: bytes

definition save_value :: "Saver \<Rightarrow> bytes \<times> bytes \<Rightarrow> Saver" where
  "save_value saver kv =
     (case parse_internal_key (fst kv) of
        None \<Rightarrow> saver\<lparr>sv_state := kCorrupt\<rparr>
      | Some parsed \<Rightarrow>
          if user_key parsed \<noteq> sv_user_key saver then saver
          else if key_type parsed = kValue then saver\<lparr>sv_state := kFound, sv_value := snd kv\<rparr>
          else saver\<lparr>sv_state := kDeleted\<rparr>)"

type_synonym 's table_get = "u64 \<Rightarrow> u64 \<Rightarrow> bytes \<Rightarrow> 's \<Rightarrow> (status + (bytes \<times> bytes) option) \<times> 's"

text \<open>What a lookup changes as it goes from file to file: its locals, the value it was given room for, and the cache.\<close>

record 's Lookup =
  lu_stats :: GetStats
  lu_last_file_read :: "FileMetaData option"
  lu_last_file_read_level :: int
  lu_value :: bytes
  lu_cache :: 's

definition charge :: "'s Lookup \<Rightarrow> 's Lookup" where
  "charge l =
     (if lu_last_file_read l \<noteq> None \<and> seek_file (lu_stats l) = None
      then l\<lparr>lu_stats := \<lparr>seek_file = lu_last_file_read l, seek_file_level = lu_last_file_read_level l\<rparr>\<rparr>
      else l)"

definition search :: "'s table_get \<Rightarrow> LookupKey \<Rightarrow> FileMetaData \<Rightarrow> nat \<Rightarrow> 's Lookup \<Rightarrow> status option \<times> 's Lookup" where
  "search get key file level l =
     (let l1 = (charge l)\<lparr>lu_last_file_read := Some file, lu_last_file_read_level := int level\<rparr>;
          (result, cache) = get (fm_number file) (fm_file_size file) (lk_internal_key key) (lu_cache l1);
          l2 = l1\<lparr>lu_cache := cache\<rparr>
      in case result of
           Inl s \<Rightarrow> (Some s, l2)
         | Inr found \<Rightarrow>
             let saver = \<lparr>sv_state = kAbsent, sv_user_key = lk_user_key key, sv_value = lu_value l2\<rparr>;
                 saver1 = (case found of None \<Rightarrow> saver | Some kv \<Rightarrow> save_value saver kv)
             in (case sv_state saver1 of
                   kAbsent \<Rightarrow> None
                 | kFound \<Rightarrow> Some status_ok
                 | kDeleted \<Rightarrow> Some (Status kNotFound ''deleted'')
                 | kCorrupt \<Rightarrow> Some (corruption ''table entry has a malformed internal key''),
                 l2\<lparr>lu_value := sv_value saver1\<rparr>))"

definition covers :: "LookupKey \<Rightarrow> FileMetaData \<Rightarrow> bool" where
  "covers key file \<longleftrightarrow>
     cmp_compare kBytewise (lk_user_key key) (extract_user_key (fm_smallest file)) \<ge> 0 \<and>
     cmp_compare kBytewise (lk_user_key key) (extract_user_key (fm_largest file)) \<le> 0"

definition newer_file :: "LookupKey \<Rightarrow> u64 \<Rightarrow> FileMetaData option \<Rightarrow> FileMetaData \<Rightarrow> FileMetaData option" where
  "newer_file key newer_than best file =
     (if fm_number file < newer_than \<and> (best = None \<or> fm_number file > fm_number (the best)) \<and> covers key file
      then Some file else best)"

definition newest_unsearched :: "LookupKey \<Rightarrow> u64 \<Rightarrow> FileMetaData list \<Rightarrow> FileMetaData option" where
  "newest_unsearched key newer_than files = foldl (newer_file key newer_than) None files"

lemma newest_unsearched_Some:
  "newest_unsearched key newer_than files = Some f \<Longrightarrow> f \<in> set files \<and> fm_number f < newer_than \<and> covers key f"
proof -
  have "foldl (newer_file key newer_than) best fs = Some f \<Longrightarrow>
      best = Some f \<or> f \<in> set fs \<and> fm_number f < newer_than \<and> covers key f" for best fs
    by (induction fs arbitrary: best) (force simp: newer_file_def split: if_splits)+
  from this [of None files] show "newest_unsearched key newer_than files = Some f \<Longrightarrow> ?thesis"
    by (simp add: newest_unsearched_def)
qed

function search_level0 :: "'s table_get \<Rightarrow> LookupKey \<Rightarrow> FileMetaData list \<Rightarrow> u64 \<Rightarrow> 's Lookup \<Rightarrow>
    status option \<times> 's Lookup" where
  "search_level0 get key files newer_than l =
     (case newest_unsearched key newer_than files of
        None \<Rightarrow> (None, l)
      | Some f \<Rightarrow>
          (case search get key f 0 l of
             (Some s, l1) \<Rightarrow> (Some s, l1)
           | (None, l1) \<Rightarrow> search_level0 get key files (fm_number f) l1))"
  by pat_completeness auto
termination
  by (relation "measure (\<lambda>(_, _, _, newer_than, _). unat newer_than)")
    (auto dest: newest_unsearched_Some simp: word_less_nat_alt)

declare search_level0.simps [simp del]

fun search_levels :: "'s table_get \<Rightarrow> LookupKey \<Rightarrow> Version \<Rightarrow> nat list \<Rightarrow> 's Lookup \<Rightarrow> status option \<times> 's Lookup" where
  "search_levels get key v [] l = (None, l)"
| "search_levels get key v (level # levels) l =
     (let files = v_files v level; index = find_file kInternal files (lk_internal_key key) in
      if files = [] \<or> index \<ge> length files \<or>
         cmp_compare kBytewise (lk_user_key key) (extract_user_key (fm_smallest (files ! index))) < 0
      then search_levels get key v levels l
      else case search get key (files ! index) level l of
             (Some s, l1) \<Rightarrow> (Some s, l1)
           | (None, l1) \<Rightarrow> search_levels get key v levels l1)"

text \<open>The status, and the lookup's record at the end: the value, the file to charge, and the cache.\<close>

definition Version_get :: "'s table_get \<Rightarrow> Version \<Rightarrow> LookupKey \<Rightarrow> bytes \<Rightarrow> 's \<Rightarrow> status \<times> 's Lookup" where
  "Version_get get v key out cache =
     (let l0 = \<lparr>lu_stats = \<lparr>seek_file = None, seek_file_level = -1\<rparr>, lu_last_file_read = None,
                lu_last_file_read_level = -1, lu_value = out, lu_cache = cache\<rparr>
      in case search_level0 get key (v_files v 0) (- 1) l0 of
           (Some s, l1) \<Rightarrow> (s, l1)
         | (None, l1) \<Rightarrow>
             (case search_levels get key v [1..<kNumLevels] l1 of
                (Some s, l2) \<Rightarrow> (s, l2)
              | (None, l2) \<Rightarrow> (Status kNotFound ''not present'', l2)))"

text \<open>The charged file is changed in place; its new state is the third result.\<close>

definition update_stats :: "GetStats \<Rightarrow> Version \<Rightarrow> bool \<times> Version \<times> FileMetaData option" where
  "update_stats stats v =
     (case seek_file stats of
        None \<Rightarrow> (False, v, None)
      | Some f \<Rightarrow>
          let f1 = f\<lparr>fm_allowed_seeks := fm_allowed_seeks f - 1\<rparr> in
          if fm_allowed_seeks f1 \<le> 0 \<and> v_file_to_compact v = None
          then (True, v\<lparr>v_file_to_compact := Some f1, v_file_to_compact_level := seek_file_level stats\<rparr>, Some f1)
          else (False, v, Some f1))"

subsection \<open>Overlapping files\<close>

text \<open>
  The loop restarts whenever a file of level 0 widens the range.  Each restart leaves fewer
  files that stick out of the range, and there are finitely many.
\<close>

definition sticking_out :: "FileMetaData list \<Rightarrow> bytes option \<Rightarrow> bytes option \<Rightarrow> nat" where
  "sticking_out files user_begin user_end =
     length (filter (\<lambda>f. case user_begin of None \<Rightarrow> False | Some b \<Rightarrow> extract_user_key (fm_smallest f) < b) files) +
     length (filter (\<lambda>f. case user_end of None \<Rightarrow> False | Some e \<Rightarrow> e < extract_user_key (fm_largest f)) files)"

lemma sticking_out_less:
  assumes "f \<in> set files"
  shows "extract_user_key (fm_smallest f) < b \<Longrightarrow>
      sticking_out files (Some (extract_user_key (fm_smallest f))) user_end < sticking_out files (Some b) user_end"
    and "e < extract_user_key (fm_largest f) \<Longrightarrow>
      sticking_out files user_begin (Some (extract_user_key (fm_largest f))) < sticking_out files user_begin (Some e)"
proof -
  have strict: "length (filter P files) < length (filter Q files)" if "\<And>x. P x \<Longrightarrow> Q x" "Q f" "\<not> P f" for P Q
  proof -
    have "filter P files = filter P (filter Q files)" using that(1) by (auto intro: filter_cong)
    then show ?thesis using length_filter_less [of f "filter Q files" P] that assms by simp
  qed
  show "sticking_out files (Some (extract_user_key (fm_smallest f))) user_end < sticking_out files (Some b) user_end"
    if "extract_user_key (fm_smallest f) < b"
    unfolding sticking_out_def by (rule add_less_le_mono [OF strict]) (use that in auto)
  show "sticking_out files user_begin (Some (extract_user_key (fm_largest f))) < sticking_out files user_begin (Some e)"
    if "e < extract_user_key (fm_largest f)"
    unfolding sticking_out_def by (rule add_le_less_mono [OF _ strict]) (use that in auto)
qed

function overlapping_loop :: "nat \<Rightarrow> FileMetaData list \<Rightarrow> bytes option \<Rightarrow> bytes option \<Rightarrow> nat \<Rightarrow> FileMetaData list \<Rightarrow>
    FileMetaData list" where
  "overlapping_loop level files user_begin user_end i inputs =
     (if i < length files
      then let file = files ! i;
               file_start = extract_user_key (fm_smallest file);
               file_limit = extract_user_key (fm_largest file)
           in if user_begin \<noteq> None \<and> cmp_compare kBytewise file_limit (the user_begin) < 0 \<or>
                 user_end \<noteq> None \<and> cmp_compare kBytewise file_start (the user_end) > 0
              then overlapping_loop level files user_begin user_end (i + 1) inputs
              else if level = 0 \<and> user_begin \<noteq> None \<and> cmp_compare kBytewise file_start (the user_begin) < 0
              then overlapping_loop level files (Some file_start) user_end 0 []
              else if level = 0 \<and> user_end \<noteq> None \<and> cmp_compare kBytewise file_limit (the user_end) > 0
              then overlapping_loop level files user_begin (Some file_limit) 0 []
              else overlapping_loop level files user_begin user_end (i + 1) (inputs @ [file])
      else inputs)"
  by pat_completeness auto
termination
proof (relation "measures [\<lambda>(_, files, b, e, _, _). sticking_out files b e, \<lambda>(_, files, _, _, i, _). length files - i]",
    goal_cases)
  case (3 level files b e i inputs f file_start file_limit)
  then show ?case
    using sticking_out_less(1) [of f files "the b" e] by (auto simp: kBytewise_def order_simps)
next
  case (4 level files b e i inputs f file_start file_limit)
  then show ?case
    using sticking_out_less(2) [of f files "the e" b] by (auto simp: kBytewise_def order_simps)
qed auto

declare overlapping_loop.simps [simp del]

definition get_overlapping_inputs :: "Version \<Rightarrow> nat \<Rightarrow> bytes option \<Rightarrow> bytes option \<Rightarrow> FileMetaData list" where
  "get_overlapping_inputs v level begin_key end_key =
     overlapping_loop level (v_files v level) (map_option extract_user_key begin_key)
       (map_option extract_user_key end_key) 0 []"

definition overlaps_in_level :: "Version \<Rightarrow> nat \<Rightarrow> bytes option \<Rightarrow> bytes option \<Rightarrow> bool" where
  "overlaps_in_level v level smallest_user_key largest_user_key =
     some_file_overlaps_range kInternal kBytewise (level > 0) (v_files v level) smallest_user_key largest_user_key"

function pick_level_loop :: "Options \<Rightarrow> Version \<Rightarrow> bytes \<Rightarrow> bytes \<Rightarrow> nat \<Rightarrow> nat" where
  "pick_level_loop options v smallest largest level =
     (if level < kMaxMemCompactLevel
      then if overlaps_in_level v (level + 1) (Some smallest) (Some largest) then level
           else if level + 2 < kNumLevels \<and>
             total_file_size (get_overlapping_inputs v (level + 2)
               (Some (make_internal_key smallest kMaxSequenceNumber kValueTypeForSeek))
               (Some (make_internal_key largest 0 kDeletion))) > 10 * int (opt_max_file_size options)
           then level
           else pick_level_loop options v smallest largest (level + 1)
      else level)"
  by pat_completeness auto
termination
  by (relation "measure (\<lambda>(_, _, _, _, level). kMaxMemCompactLevel - level)") auto

declare pick_level_loop.simps [simp del]

definition pick_level_for_memtable_output :: "Options \<Rightarrow> Version \<Rightarrow> bytes \<Rightarrow> bytes \<Rightarrow> nat" where
  "pick_level_for_memtable_output options v smallest_user_key largest_user_key =
     (if overlaps_in_level v 0 (Some smallest_user_key) (Some largest_user_key) then 0
      else pick_level_loop options v smallest_user_key largest_user_key 0)"

end
