(* ===== verification/Table_Cache.thy ===== *)
theory Table_Cache
  imports Table Filename Version "HOL-Library.Monad_Syntax"
begin

text \<open>
  src/table_cache.hpp and src/table_cache.cpp: open tables, shared by number, and closed
  when the last user lets go.

  An entry is a cell of a heap, and the maps and lists of the shards refer to cells.  A
  call that touches a cell after it was deleted is \<^term>\<open>None\<close>.  The critical sections
  are separate definitions: what other threads do happens between them.  The counts of
  reads and bytes are not modelled.
\<close>

section \<open>Surroundings\<close>

text \<open>
  What the operating system answers when a path is opened for reading, what the block
  cache answers during the k-th lookup made through this cache, in the file of a given
  number, and the identifiers it hands out.
\<close>

record TableEnv =
  te_disk :: "string \<Rightarrow> string + bytes \<times> (nat \<Rightarrow> nat \<Rightarrow> string option)"
  te_blocks :: "nat \<Rightarrow> u64 \<Rightarrow> (bytes \<Rightarrow> Block option) option"
  te_ids :: "nat \<Rightarrow> u64"
  te_nul :: nat
  te_block_bytes :: nat

definition open_random_access :: "string \<Rightarrow> string + bytes \<times> (nat \<Rightarrow> nat \<Rightarrow> string option) \<Rightarrow> status + RandomAccessFile" where
  "open_random_access name reply =
     (case reply of
        Inl e \<Rightarrow> Inl (io_error (errno_message ''cannot open for reading'' name e))
      | Inr (contents, os) \<Rightarrow> Inr \<lparr>rf_path = name, rf_data = contents, rf_os = os\<rparr>)"

section \<open>Data\<close>

record Entry =
  en_file :: RandomAccessFile
  en_table :: Table
  en_file_number :: u64
  en_refs :: int
  en_in_cache :: bool

record TableShard =
  ts_lru :: "u64 list"
  ts_entries :: "(u64 \<times> nat) list"

record TableCache =
  tc_dbname :: string
  tc_options :: Options
  tc_comparator :: Comparator
  tc_capacity :: nat
  tc_shards :: "nat \<Rightarrow> TableShard"
  tc_heap :: "nat \<Rightarrow> Entry option"
  tc_allocated :: nat
  tc_opens :: nat
  tc_lookups :: nat
  tc_inserted :: "insertion list"

definition kTableShards :: nat where
  "kTableShards = 16"

definition TableCache_ctor :: "string \<Rightarrow> Options \<Rightarrow> Comparator \<Rightarrow> int \<Rightarrow> TableCache" where
  "TableCache_ctor dbname options comparator entries =
     \<lparr>tc_dbname = dbname, tc_options = options, tc_comparator = comparator,
      tc_capacity = ((if entries < 1 then 1 else nat entries) + kTableShards - 1) div kTableShards,
      tc_shards = \<lambda>_. \<lparr>ts_lru = [], ts_entries = []\<rparr>, tc_heap = \<lambda>_. None, tc_allocated = 0,
      tc_opens = 0, tc_lookups = 0, tc_inserted = []\<rparr>"

definition table_shard :: "u64 \<Rightarrow> nat" where
  "table_shard file_number = unat file_number mod kTableShards"

section \<open>Entries and references\<close>

definition take_ref :: "u64 \<Rightarrow> nat \<Rightarrow> TableCache \<Rightarrow> TableCache option" where
  "take_ref n a c =
     (case tc_heap c a of
        None \<Rightarrow> None
      | Some e \<Rightarrow>
          let i = table_shard n; s = tc_shards c i in
          Some (c\<lparr>tc_shards := (tc_shards c)(i := s\<lparr>ts_lru := n # remove1 n (ts_lru s)\<rparr>),
                  tc_heap := (tc_heap c)(a \<mapsto> e\<lparr>en_refs := en_refs e + 1\<rparr>)\<rparr>))"

definition drop_cache_ref :: "nat \<Rightarrow> (nat \<Rightarrow> Entry option) \<Rightarrow> (nat \<Rightarrow> Entry option) option" where
  "drop_cache_ref a heap =
     (case heap a of
        None \<Rightarrow> None
      | Some e \<Rightarrow>
          let e1 = e\<lparr>en_in_cache := False, en_refs := en_refs e - 1\<rparr> in
          Some (if en_refs e1 = 0 then heap(a := None) else heap(a \<mapsto> e1)))"

text \<open>The recency list with its back first, which is where the loop of evict_if_over_capacity takes from.\<close>

fun evict_over :: "nat \<Rightarrow> u64 list \<Rightarrow> (u64 \<times> nat) list \<Rightarrow> (nat \<Rightarrow> Entry option) \<Rightarrow>
    (u64 list \<times> (u64 \<times> nat) list \<times> (nat \<Rightarrow> Entry option)) option" where
  "evict_over capacity [] entries heap = Some ([], entries, heap)"
| "evict_over capacity (victim # rest) entries heap =
     (if length entries > capacity
      then case map_of entries victim of
             None \<Rightarrow> evict_over capacity rest entries heap
           | Some a \<Rightarrow>
               do { heap1 \<leftarrow> drop_cache_ref a heap;
                    evict_over capacity rest (filter (\<lambda>p. fst p \<noteq> victim) entries) heap1 }
      else Some (victim # rest, entries, heap))"

definition evict_if_over_capacity :: "nat \<Rightarrow> TableCache \<Rightarrow> TableCache option" where
  "evict_if_over_capacity i c =
     do { (rlru, entries, heap) \<leftarrow>
            evict_over (tc_capacity c) (rev (ts_lru (tc_shards c i))) (ts_entries (tc_shards c i)) (tc_heap c);
          Some (c\<lparr>tc_shards := (tc_shards c)(i := \<lparr>ts_lru = rev rlru, ts_entries = entries\<rparr>), tc_heap := heap\<rparr>) }"

definition tc_release :: "nat \<Rightarrow> TableCache \<Rightarrow> TableCache option" where
  "tc_release a c =
     (case tc_heap c a of
        None \<Rightarrow> None
      | Some e \<Rightarrow>
          Some (c\<lparr>tc_heap := (tc_heap c)(a := if en_refs e - 1 = 0 then None else Some (e\<lparr>en_refs := en_refs e - 1\<rparr>))\<rparr>))"

definition tc_evict :: "u64 \<Rightarrow> TableCache \<Rightarrow> TableCache option" where
  "tc_evict n c =
     (let i = table_shard n; s = tc_shards c i in
      case map_of (ts_entries s) n of
        None \<Rightarrow> Some c
      | Some a \<Rightarrow>
          do { heap \<leftarrow> drop_cache_ref a (tc_heap c);
               Some (c\<lparr>tc_shards := (tc_shards c)(i := \<lparr>ts_lru = remove1 n (ts_lru s),
                         ts_entries = filter (\<lambda>p. fst p \<noteq> n) (ts_entries s)\<rparr>),
                       tc_heap := heap\<rparr>) })"

section \<open>Finding a table\<close>

definition find_cached :: "u64 \<Rightarrow> TableCache \<Rightarrow> (nat option \<times> TableCache) option" where
  "find_cached n c =
     (case map_of (ts_entries (tc_shards c (table_shard n))) n of
        None \<Rightarrow> Some (None, c)
      | Some a \<Rightarrow> do { c1 \<leftarrow> take_ref n a c; Some (Some a, c1) })"

definition open_table :: "TableEnv \<Rightarrow> u64 \<Rightarrow> u64 \<Rightarrow> TableCache \<Rightarrow> (status + RandomAccessFile \<times> Table) \<times> TableCache" where
  "open_table env n sz c =
     (let name = table_file_name (tc_dbname c) n in
      case open_random_access name (te_disk env name) of
        Inl s \<Rightarrow> (Inl s, c)
      | Inr f \<Rightarrow>
          (case Table_open (te_nul env) (tc_options c) (tc_comparator c) f sz (te_ids env (tc_opens c)) of
             Inl s \<Rightarrow> (Inl s, c)
           | Inr t \<Rightarrow> (Inr (f, t), c\<lparr>tc_opens := tc_opens c + 1\<rparr>)))"

definition install :: "u64 \<Rightarrow> RandomAccessFile \<Rightarrow> Table \<Rightarrow> TableCache \<Rightarrow> (nat \<times> TableCache) option" where
  "install n f t c =
     (let i = table_shard n; s = tc_shards c i in
      case map_of (ts_entries s) n of
        Some a \<Rightarrow> do { c1 \<leftarrow> take_ref n a c; Some (a, c1) }
      | None \<Rightarrow>
          let a = tc_allocated c;
              e = \<lparr>en_file = f, en_table = t, en_file_number = n, en_refs = 2, en_in_cache = True\<rparr>;
              c1 = c\<lparr>tc_shards := (tc_shards c)(i := \<lparr>ts_lru = n # ts_lru s, ts_entries = (n, a) # ts_entries s\<rparr>),
                     tc_heap := (tc_heap c)(a \<mapsto> e), tc_allocated := a + 1\<rparr>
          in do { c2 \<leftarrow> evict_if_over_capacity i c1; Some (a, c2) })"

definition tc_find :: "TableEnv \<Rightarrow> u64 \<Rightarrow> u64 \<Rightarrow> TableCache \<Rightarrow> ((status + nat) \<times> TableCache) option" where
  "tc_find env n sz c =
     do { (found, c1) \<leftarrow> find_cached n c;
          case found of
            Some a \<Rightarrow> Some (Inr a, c1)
          | None \<Rightarrow>
              (case open_table env n sz c1 of
                 (Inl s, c2) \<Rightarrow> Some (Inl s, c2)
               | (Inr (f, t), c2) \<Rightarrow> do { (a, c3) \<leftarrow> install n f t c2; Some (Inr a, c3) }) }"

section \<open>Lookup\<close>

definition read_entry :: "TableEnv \<Rightarrow> bool \<Rightarrow> nat \<Rightarrow> bytes \<Rightarrow> TableCache \<Rightarrow>
    ((status + (bytes \<times> bytes) option) \<times> TableCache) option" where
  "read_entry env fill_cache a key c =
     (case tc_heap c a of
        None \<Rightarrow> None
      | Some e \<Rightarrow>
          (case internal_get (te_block_bytes env) (en_table e) fill_cache (te_blocks env (tc_lookups c) (en_file_number e)) key of
             (r, ins) \<Rightarrow>
               Some (r, c\<lparr>tc_lookups := tc_lookups c + 1,
                          tc_inserted := tc_inserted c @ (case ins of None \<Rightarrow> [] | Some x \<Rightarrow> [x])\<rparr>)))"

definition tc_get :: "TableEnv \<Rightarrow> bool \<Rightarrow> u64 \<Rightarrow> u64 \<Rightarrow> bytes \<Rightarrow> TableCache \<Rightarrow>
    ((status + (bytes \<times> bytes) option) \<times> TableCache) option" where
  "tc_get env fill_cache n sz key c =
     do { (found, c1) \<leftarrow> tc_find env n sz c;
          case found of
            Inl s \<Rightarrow> Some (Inl s, c1)
          | Inr a \<Rightarrow> do { (r, c2) \<leftarrow> read_entry env fill_cache a key c1;
                         c3 \<leftarrow> tc_release a c2;
                         Some (r, c3) } }"

text \<open>As a version calls it; the state is \<^term>\<open>None\<close> once a deleted entry was touched.\<close>

definition table_get_of :: "TableEnv \<Rightarrow> bool \<Rightarrow> TableCache option table_get" where
  "table_get_of env fill_cache n sz key s =
     (case Option.bind s (tc_get env fill_cache n sz key) of
        None \<Rightarrow> (Inr None, None)
      | Some (r, c) \<Rightarrow> (r, Some c))"

end
