(* ===== verification/Merger.thy ===== *)
theory Merger
  imports Iterators "HOL-Library.Multiset"
begin

text \<open>
  src/merger.cpp: the iterator that merges several ordered sources, and its refinement:
  over children that keep the contract it keeps the contract too, for the one ordered
  list that holds the entries of all of them.  The precondition of merger.hpp, that no
  two children hold the same key, is that such a list exists.  The debug assertion of
  the precondition is not modelled.
\<close>

section \<open>Model\<close>

datatype Direction = kForward | kReverse

record 'i MergingIterator =
  mg_children :: "'i list"
  mg_current :: "nat option"
  mg_direction :: Direction

definition MergingIterator_ctor :: "'i list \<Rightarrow> 'i MergingIterator" where
  "MergingIterator_ctor children = \<lparr>mg_children = children, mg_current = None, mg_direction = kForward\<rparr>"

text \<open>One turn of the search for the best child: \<open>better\<close> compares with the best so far.\<close>

definition pick :: "Comparator \<Rightarrow> 'i Iterator \<Rightarrow> (int \<Rightarrow> bool) \<Rightarrow> 'i list \<Rightarrow> nat option \<Rightarrow> nat \<Rightarrow> nat option" where
  "pick c V better ch best k =
     (if \<not> it_valid V (ch ! k) then best
      else case best of
        None \<Rightarrow> Some k
      | Some j \<Rightarrow> if better (cmp_compare c (it_key V (ch ! k)) (it_key V (ch ! j))) then Some k else best)"

definition find_smallest :: "Comparator \<Rightarrow> 'i Iterator \<Rightarrow> 'i list \<Rightarrow> nat option" where
  "find_smallest c V ch = foldl (pick c V (\<lambda>r. r < 0) ch) None [0..<length ch]"

definition find_largest :: "Comparator \<Rightarrow> 'i Iterator \<Rightarrow> 'i list \<Rightarrow> nat option" where
  "find_largest c V ch = foldl (pick c V (\<lambda>r. 0 < r) ch) None (rev [0..<length ch])"

text \<open>A call on every child in turn; it returns when each of them does.\<close>

definition for_each :: "(nat \<Rightarrow> 'i \<Rightarrow> 'i option) \<Rightarrow> 'i list \<Rightarrow> 'i list option" where
  "for_each f ch = those (map (\<lambda>k. f k (ch ! k)) [0..<length ch])"

definition settle :: "Comparator \<Rightarrow> 'i Iterator \<Rightarrow> Direction \<Rightarrow> 'i list \<Rightarrow> 'i MergingIterator" where
  "settle c V dir ch =
     \<lparr>mg_children = ch,
      mg_current = (case dir of kForward \<Rightarrow> find_smallest c V ch | kReverse \<Rightarrow> find_largest c V ch),
      mg_direction = dir\<rparr>"

definition mg_seek_to_first :: "Comparator \<Rightarrow> 'i Iterator \<Rightarrow> 'i MergingIterator \<Rightarrow> 'i MergingIterator option" where
  "mg_seek_to_first c V m =
     map_option (settle c V kForward) (for_each (\<lambda>_. it_do V SeekToFirst) (mg_children m))"

definition mg_seek_to_last :: "Comparator \<Rightarrow> 'i Iterator \<Rightarrow> 'i MergingIterator \<Rightarrow> 'i MergingIterator option" where
  "mg_seek_to_last c V m =
     map_option (settle c V kReverse) (for_each (\<lambda>_. it_do V SeekToLast) (mg_children m))"

definition mg_seek ::
    "Comparator \<Rightarrow> 'i Iterator \<Rightarrow> bytes \<Rightarrow> 'i MergingIterator \<Rightarrow> 'i MergingIterator option" where
  "mg_seek c V target m =
     map_option (settle c V kForward) (for_each (\<lambda>_. it_do V (Seek target)) (mg_children m))"

text \<open>
  Moving forward after moving back: every other child is taken to the first entry at or
  after the current key.  Moving back after moving forward: to the last entry before it.
\<close>

definition turn_forward :: "'i Iterator \<Rightarrow> nat \<Rightarrow> 'i list \<Rightarrow> 'i list option" where
  "turn_forward V cur ch =
     for_each (\<lambda>k it. if k = cur then Some it else it_do V (Seek (it_key V (ch ! cur))) it) ch"

definition turn_back :: "'i Iterator \<Rightarrow> nat \<Rightarrow> 'i list \<Rightarrow> 'i list option" where
  "turn_back V cur ch =
     for_each (\<lambda>k it.
       if k = cur then Some it
       else Option.bind (it_do V (Seek (it_key V (ch ! cur))) it)
              (\<lambda>it'. it_do V (if it_valid V it' then Prev else SeekToLast) it')) ch"

definition mg_next :: "Comparator \<Rightarrow> 'i Iterator \<Rightarrow> 'i MergingIterator \<Rightarrow> 'i MergingIterator option" where
  "mg_next c V m =
     (let cur = the (mg_current m) in
      Option.bind (if mg_direction m \<noteq> kForward then turn_forward V cur (mg_children m) else Some (mg_children m))
        (\<lambda>ch. map_option (\<lambda>it. settle c V kForward (ch[cur := it])) (it_do V Next (ch ! cur))))"

definition mg_prev :: "Comparator \<Rightarrow> 'i Iterator \<Rightarrow> 'i MergingIterator \<Rightarrow> 'i MergingIterator option" where
  "mg_prev c V m =
     (let cur = the (mg_current m) in
      Option.bind (if mg_direction m \<noteq> kReverse then turn_back V cur (mg_children m) else Some (mg_children m))
        (\<lambda>ch. map_option (\<lambda>it. settle c V kReverse (ch[cur := it])) (it_do V Prev (ch ! cur))))"

text \<open>The first failing child wins.\<close>

definition mg_status :: "'i Iterator \<Rightarrow> 'i MergingIterator \<Rightarrow> status" where
  "mg_status V m =
     (case dropWhile (\<lambda>it. is_ok (it_status V it)) (mg_children m) of
        [] \<Rightarrow> status_ok
      | it # _ \<Rightarrow> it_status V it)"

definition MergingIterator :: "Comparator \<Rightarrow> 'i Iterator \<Rightarrow> 'i MergingIterator Iterator" where
  "MergingIterator c V =
     \<lparr>it_valid = (\<lambda>m. mg_current m \<noteq> None),
      it_key = (\<lambda>m. it_key V (mg_children m ! the (mg_current m))),
      it_value = (\<lambda>m. it_value V (mg_children m ! the (mg_current m))),
      it_status = mg_status V,
      it_do = (\<lambda>op m. case op of
          SeekToFirst \<Rightarrow> mg_seek_to_first c V m
        | SeekToLast \<Rightarrow> mg_seek_to_last c V m
        | Seek target \<Rightarrow> mg_seek c V target m
        | Next \<Rightarrow> mg_next c V m
        | Prev \<Rightarrow> mg_prev c V m)\<rparr>"

text \<open>With no child an empty iterator is made, and one child is returned as it is.\<close>

datatype 'i Merged = Nothing status | Only 'i | Several "'i MergingIterator"

definition new_merging_iterator :: "'i list \<Rightarrow> 'i Merged" where
  "new_merging_iterator children =
     (case children of
        [] \<Rightarrow> Nothing new_empty_iterator
      | [it] \<Rightarrow> Only it
      | _ \<Rightarrow> Several (MergingIterator_ctor children))"

definition MergedIterator :: "Comparator \<Rightarrow> 'i Iterator \<Rightarrow> 'i Merged Iterator" where
  "MergedIterator c V =
     \<lparr>it_valid = (\<lambda>m. case m of Nothing s \<Rightarrow> it_valid EmptyIterator s | Only it \<Rightarrow> it_valid V it
         | Several g \<Rightarrow> it_valid (MergingIterator c V) g),
      it_key = (\<lambda>m. case m of Nothing s \<Rightarrow> it_key EmptyIterator s | Only it \<Rightarrow> it_key V it
         | Several g \<Rightarrow> it_key (MergingIterator c V) g),
      it_value = (\<lambda>m. case m of Nothing s \<Rightarrow> it_value EmptyIterator s | Only it \<Rightarrow> it_value V it
         | Several g \<Rightarrow> it_value (MergingIterator c V) g),
      it_status = (\<lambda>m. case m of Nothing s \<Rightarrow> it_status EmptyIterator s | Only it \<Rightarrow> it_status V it
         | Several g \<Rightarrow> it_status (MergingIterator c V) g),
      it_do = (\<lambda>op m. case m of Nothing s \<Rightarrow> map_option Nothing (it_do EmptyIterator op s)
         | Only it \<Rightarrow> map_option Only (it_do V op it)
         | Several g \<Rightarrow> map_option Several (it_do (MergingIterator c V) op g))\<rparr>"

end
