(* ===== verification/Merger_Props.thy ===== *)
theory Merger_Props
  imports Merger
begin

text \<open>
  The merging iterator keeps the contract of an iterator.  A position \<open>n\<close> of the merged
  list cuts every child's list into the entries before it and the others; moving
  forward every child stands at its cut, moving back just before it.
\<close>

section \<open>Cuts\<close>

definition cut :: "'a list \<Rightarrow> nat \<Rightarrow> 'a list \<Rightarrow> nat" where
  "cut M n kvs = length (takeWhile (\<lambda>x. x \<in> set (take n M)) kvs)"

text \<open>One step back from the cut, where 0 has nothing before it.\<close>

definition before_cut :: "nat \<Rightarrow> 'a list \<Rightarrow> nat" where
  "before_cut n kvs = (if n = 0 then length kvs else n - 1)"

lemma takeWhile_closed:
  "sorted_wrt R xs \<Longrightarrow> (\<And>x y. x \<in> set xs \<Longrightarrow> y \<in> set xs \<Longrightarrow> R x y \<Longrightarrow> P y \<Longrightarrow> P x) \<Longrightarrow> takeWhile P xs = filter P xs"
proof (induction xs)
  case (Cons x xs)
  have "filter P xs = []" if "\<not> P x" using that Cons.prems by (auto simp: filter_empty_conv)
  moreover have "takeWhile P xs = filter P xs"
    by (rule Cons.IH) (use Cons.prems in \<open>simp, metis list.set_intros(2)\<close>)
  ultimately show ?case by simp
qed simp

lemma nth_in_takeWhile:
  assumes "takeWhile P xs = filter P xs" "j < length xs"
  shows "j < length (takeWhile P xs) \<longleftrightarrow> P (xs ! j)"
proof
  assume "j < length (takeWhile P xs)"
  then show "P (xs ! j)" by (metis nth_mem set_takeWhileD takeWhile_nth)
next
  assume P: "P (xs ! j)"
  let ?n = "length (takeWhile P xs)"
  have "filter P (takeWhile P xs) = takeWhile P xs" by (auto simp: filter_id_conv dest: set_takeWhileD)
  moreover have "filter P xs = filter P (takeWhile P xs) @ filter P (dropWhile P xs)"
    by (metis filter_append takeWhile_dropWhile_id)
  ultimately have "filter P (dropWhile P xs) = []" using assms(1) by (metis append_self_conv)
  then have no: "\<forall>x \<in> set (drop ?n xs). \<not> P x" by (simp add: filter_empty_conv dropWhile_eq_drop)
  show "j < ?n"
  proof (rule ccontr)
    assume "\<not> j < ?n"
    then have "xs ! j = drop ?n xs ! (j - ?n)" "j - ?n < length (drop ?n xs)" using assms(2) by simp_all
    then have "xs ! j \<in> set (drop ?n xs)" by (metis nth_mem)
    then show False using no P by blast
  qed
qed

text \<open>\<open>kvs\<close> is one of the lists merged into \<open>M\<close>.\<close>

definition part_of :: "Comparator \<Rightarrow> (bytes \<times> bytes) list \<Rightarrow> (bytes \<times> bytes) list \<Rightarrow> bool" where
  "part_of c M kvs \<longleftrightarrow> ordered c M \<and> ordered c kvs \<and> set kvs \<subseteq> set M"

lemma ordered_Nil [simp]: "ordered c []"
  by (simp add: ordered_def)

context key_order
begin

lemma ordered_less: "ordered c M \<Longrightarrow> i < j \<Longrightarrow> j < length M \<Longrightarrow> cmp_compare c (fst (M ! i)) (fst (M ! j)) < 0"
  by (simp add: ordered_def sorted_wrt_iff_nth_less)

lemma ordered_less_iff:
  "ordered c M \<Longrightarrow> i < length M \<Longrightarrow> j < length M \<Longrightarrow> cmp_compare c (fst (M ! i)) (fst (M ! j)) < 0 \<longleftrightarrow> i < j"
  using ordered_less [of M i j] ordered_less [of M j i] cmp_trans [of "fst (M ! i)" "fst (M ! j)" "fst (M ! i)"] cmp_refl
  by (metis linorder_neqE_nat)

lemma ordered_distinct: "ordered c M \<Longrightarrow> distinct M"
  unfolding distinct_conv_nth using ordered_less_iff cmp_refl by (metis linorder_neqE_nat)

lemma in_take_iff: "ordered c M \<Longrightarrow> j < length M \<Longrightarrow> M ! j \<in> set (take n M) \<longleftrightarrow> j < n"
  using ordered_distinct by (auto simp: in_set_conv_nth nth_eq_iff_index_eq)

lemma cut_filter:
  assumes "part_of c M kvs"
  shows "takeWhile (\<lambda>x. x \<in> set (take n M)) kvs = filter (\<lambda>x. x \<in> set (take n M)) kvs"
proof (rule takeWhile_closed)
  show "sorted_wrt (\<lambda>x y. cmp_compare c (fst x) (fst y) < 0) kvs" using assms by (simp add: part_of_def ordered_def)
  fix x y assume xy: "x \<in> set kvs" "y \<in> set kvs" "cmp_compare c (fst x) (fst y) < 0" "y \<in> set (take n M)"
  have o: "ordered c M" "set kvs \<subseteq> set M" using assms by (simp_all add: part_of_def)
  have "x \<in> set M" "y \<in> set M" using xy(1,2) o(2) by blast+
  then obtain i j where ij: "i < length M" "x = M ! i" "j < length M" "y = M ! j"
    unfolding in_set_conv_nth by blast
  then have "i < j" "j < n" using xy(3,4) ordered_less_iff [OF o(1) ij(1,3)] in_take_iff [OF o(1) ij(3)] by simp_all
  then show "x \<in> set (take n M)" using in_take_iff [OF o(1) ij(1)] ij(2) by simp
qed

lemma cut_iff: "part_of c M kvs \<Longrightarrow> j < length kvs \<Longrightarrow> j < cut M n kvs \<longleftrightarrow> kvs ! j \<in> set (take n M)"
  unfolding cut_def by (rule nth_in_takeWhile [OF cut_filter])

lemma cut_card:
  assumes "part_of c M kvs"
  shows "cut M n kvs = card (set kvs \<inter> set (take n M))"
proof -
  have "distinct kvs" using assms ordered_distinct by (simp add: part_of_def)
  then have "length (filter (\<lambda>x. x \<in> set (take n M)) kvs) = card (set (filter (\<lambda>x. x \<in> set (take n M)) kvs))"
    using distinct_card distinct_filter by metis
  then show ?thesis unfolding cut_def cut_filter [OF assms] by (simp add: Int_def)
qed

lemma cut_0 [simp]: "cut M 0 kvs = 0"
  by (cases kvs) (simp_all add: cut_def)

lemma cut_all: "part_of c M kvs \<Longrightarrow> cut M (length M) kvs = length kvs"
  unfolding cut_def part_of_def by (subst takeWhile_eq_all_conv [THEN iffD2]) auto

lemma cut_le: "cut M n kvs \<le> length kvs"
  by (simp add: cut_def length_takeWhile_le)

lemma cut_Suc:
  assumes "part_of c M kvs" "n < length M"
  shows "cut M (Suc n) kvs = (if M ! n \<in> set kvs then Suc (cut M n kvs) else cut M n kvs)"
proof -
  have "M ! n \<notin> set (take n M)" using in_take_iff [of M n n] assms by (simp add: part_of_def)
  moreover have "set kvs \<inter> set (take (Suc n) M) =
      (if M ! n \<in> set kvs then insert (M ! n) (set kvs \<inter> set (take n M)) else set kvs \<inter> set (take n M))"
    using assms(2) by (auto simp: take_Suc_conv_app_nth)
  ultimately show ?thesis by (simp add: cut_card [OF assms(1)])
qed

lemma cut_here:
  assumes "part_of c M kvs" "n < length M" "M ! n \<in> set kvs"
  shows "cut M n kvs < length kvs \<and> kvs ! cut M n kvs = M ! n"
proof -
  obtain j where j: "j < length kvs" "kvs ! j = M ! n" using assms(3) by (metis in_set_conv_nth)
  have "\<not> j < cut M n kvs" "j < cut M (Suc n) kvs"
    using cut_iff [OF assms(1) j(1)] in_take_iff [of M n] assms(1,2) by (simp_all add: j(2) part_of_def)
  then have "j = cut M n kvs" using cut_Suc [OF assms(1,2)] assms(3) by simp
  then show ?thesis using j by simp
qed

lemma cut_after:
  assumes "part_of c M kvs" "cut M n kvs < length kvs"
  obtains m where "n \<le> m" "m < length M" "kvs ! cut M n kvs = M ! m"
proof -
  have "kvs ! cut M n kvs \<in> set M" using assms by (auto simp: part_of_def)
  then obtain m where m: "m < length M" "kvs ! cut M n kvs = M ! m" by (metis in_set_conv_nth)
  have "M ! m \<notin> set (take n M)" using cut_iff [OF assms, of n] m(2) by simp
  then have "n \<le> m" using in_take_iff [of M m n] assms(1) m(1) by (simp add: part_of_def)
  then show thesis using that m by blast
qed

lemma cut_before:
  assumes "part_of c M kvs" "0 < cut M n kvs"
  obtains m where "m < n" "m < length M" "kvs ! (cut M n kvs - 1) = M ! m"
proof -
  let ?j = "cut M n kvs - 1"
  have j: "?j < length kvs" "?j < cut M n kvs" using assms(2) cut_le [of M n kvs] by simp_all
  then have "kvs ! ?j \<in> set (take n M)" using cut_iff [OF assms(1)] by simp
  then obtain m where "m < length (take n M)" "kvs ! ?j = take n M ! m" by (metis in_set_conv_nth)
  then show thesis using that [of m] by simp
qed

lemma cut_lower_bound:
  assumes "part_of c M kvs"
  shows "cut M (lower_bound c t M) kvs = lower_bound c t kvs"
proof -
  let ?P = "\<lambda>x. cmp_compare c (fst x) t < 0"
  have w: "takeWhile ?P xs = filter ?P xs" if "ordered c xs" for xs
    by (rule takeWhile_closed [where R = "\<lambda>x y. cmp_compare c (fst x) (fst y) < 0"])
      (use that cmp_trans in \<open>auto simp: ordered_def\<close>)
  have "set (take (lower_bound c t M) M) = {x \<in> set M. ?P x}"
    using w [of M] assms takeWhile_eq_take [of ?P M] by (simp add: lower_bound_def part_of_def)
  then have "filter (\<lambda>x. x \<in> set (take (lower_bound c t M) M)) kvs = filter ?P kvs"
    using assms by (intro filter_cong) (auto simp: part_of_def)
  then show ?thesis using cut_filter [OF assms] w [of kvs] assms by (simp add: cut_def lower_bound_def part_of_def)
qed

lemma lower_bound_iff:
  assumes "ordered c M" "q < length M"
  shows "q < lower_bound c t M \<longleftrightarrow> cmp_compare c (fst (M ! q)) t < 0"
  unfolding lower_bound_def
proof (rule nth_in_takeWhile [OF takeWhile_closed assms(2)])
  show "sorted_wrt (\<lambda>x y. cmp_compare c (fst x) (fst y) < 0) M" using assms(1) by (simp add: ordered_def)
qed (use cmp_trans in blast)

lemma lower_bound_self: "ordered c M \<Longrightarrow> i < length M \<Longrightarrow> lower_bound c (fst (M ! i)) M = i"
  unfolding lower_bound_def using takeWhile_below_nth [of "\<lambda>x y. cmp_compare c (fst x) (fst y) < 0" M i] cmp_refl
  by (simp add: ordered_def)

end

section \<open>Positions of the children\<close>

definition merges :: "Comparator \<Rightarrow> (bytes \<times> bytes) list list \<Rightarrow> (bytes \<times> bytes) list \<Rightarrow> bool" where
  "merges c kvss M \<longleftrightarrow> ordered c M \<and> mset M = mset (concat kvss) \<and> (\<forall>kvs \<in> set kvss. ordered c kvs)"

definition stand ::
    "('i \<Rightarrow> (bytes \<times> bytes) list \<Rightarrow> nat \<Rightarrow> bool) \<Rightarrow> 'i list \<Rightarrow> (bytes \<times> bytes) list list \<Rightarrow>
     ((bytes \<times> bytes) list \<Rightarrow> nat) \<Rightarrow> bool" where
  "stand at ch kvss f \<longleftrightarrow> length ch = length kvss \<and> (\<forall>k < length kvss. at (ch ! k) (kvss ! k) (f (kvss ! k)))"

definition stand_somewhere ::
    "('i \<Rightarrow> (bytes \<times> bytes) list \<Rightarrow> nat \<Rightarrow> bool) \<Rightarrow> 'i list \<Rightarrow> (bytes \<times> bytes) list list \<Rightarrow> bool" where
  "stand_somewhere at ch kvss \<longleftrightarrow> length ch = length kvss \<and> (\<forall>k < length kvss. \<exists>n. at (ch ! k) (kvss ! k) n)"

definition mg_at ::
    "Comparator \<Rightarrow> ('i \<Rightarrow> (bytes \<times> bytes) list \<Rightarrow> nat \<Rightarrow> bool) \<Rightarrow> 'i MergingIterator \<Rightarrow> (bytes \<times> bytes) list \<Rightarrow> nat \<Rightarrow> bool" where
  "mg_at c at m M i \<longleftrightarrow> i \<le> length M \<and>
     (\<exists>kvss. merges c kvss M \<and> stand_somewhere at (mg_children m) kvss \<and>
        (if i < length M
         then (\<exists>k < length kvss. mg_current m = Some k \<and> M ! i \<in> set (kvss ! k)) \<and>
              stand at (mg_children m) kvss
                (case mg_direction m of kForward \<Rightarrow> cut M i | kReverse \<Rightarrow> \<lambda>kvs. before_cut (cut M (Suc i) kvs) kvs)
         else mg_current m = None))"

lemma distinct_concat_owner:
  "distinct (concat xss) \<Longrightarrow> k < length xss \<Longrightarrow> l < length xss \<Longrightarrow> x \<in> set (xss ! k) \<Longrightarrow> x \<in> set (xss ! l) \<Longrightarrow> k = l"
proof (induction xss arbitrary: k l)
  case (Cons xs xss)
  have "x \<notin> set xs \<or> x \<notin> set (xss ! j)" if "j < length xss" for j
    using Cons.prems(1) that by (auto dest: nth_mem)
  then show ?case using Cons by (cases k; cases l) auto
qed simp

lemma those_Some: "\<forall>x \<in> set xs. x \<noteq> None \<Longrightarrow> those xs = Some (map the xs)"
  by (induction xs) auto

lemma for_each_returns:
  assumes "\<And>k. k < length ch \<Longrightarrow> \<exists>x. f k (ch ! k) = Some x \<and> P k x"
  shows "\<exists>ch'. for_each f ch = Some ch' \<and> length ch' = length ch \<and> (\<forall>k < length ch. P k (ch' ! k))"
proof -
  let ?ys = "map (\<lambda>k. f k (ch ! k)) [0..<length ch]"
  have "\<forall>y \<in> set ?ys. y \<noteq> None" using assms by fastforce
  then have "for_each f ch = Some (map the ?ys)" unfolding for_each_def by (rule those_Some)
  moreover have "P k (map the ?ys ! k)" if "k < length ch" for k using assms [OF that] that by auto
  ultimately show ?thesis by simp
qed

lemma pick_best:
  fixes c V ch better
  defines "R \<equiv> \<lambda>k j. better (cmp_compare c (it_key V (ch ! k)) (it_key V (ch ! j)))"
  assumes "\<And>i j k. R i j \<Longrightarrow> R j k \<Longrightarrow> R i k" "\<And>k. \<not> R k k"
  shows "case foldl (pick c V better ch) None ks of
      None \<Rightarrow> \<forall>k \<in> set ks. \<not> it_valid V (ch ! k)
    | Some k \<Rightarrow> k \<in> set ks \<and> it_valid V (ch ! k) \<and> (\<forall>j \<in> set ks. it_valid V (ch ! j) \<longrightarrow> \<not> R j k)"
proof (induction ks rule: rev_induct)
  case (snoc k ks)
  obtain b where b: "b = foldl (pick c V better ch) None ks" by simp
  have step: "pick c V better ch b k =
      (if it_valid V (ch ! k) then case b of None \<Rightarrow> Some k | Some j \<Rightarrow> if R k j then Some k else b else b)"
    by (cases b) (simp_all add: pick_def R_def)
  show ?case
  proof (cases b)
    case None
    then show ?thesis using snoc step assms(3) by (auto simp: b [symmetric])
  next
    case (Some j)
    then have "it_valid V (ch ! j)" "j \<in> set ks" "\<forall>i \<in> set ks. it_valid V (ch ! i) \<longrightarrow> \<not> R i j"
      using snoc by (simp_all add: b [symmetric])
    then show ?thesis using step assms(2) [of _ k j] assms(3) by (auto simp: b [symmetric] Some)
  qed
qed simp

context key_order
begin

lemma merges_part: "merges c kvss M \<Longrightarrow> kvs \<in> set kvss \<Longrightarrow> part_of c M kvs"
proof -
  assume m: "merges c kvss M" and k: "kvs \<in> set kvss"
  have "set M = set (concat kvss)" using m by (metis merges_def set_mset_mset)
  then show ?thesis using m k by (auto simp: part_of_def merges_def)
qed

lemma merges_owner:
  assumes "merges c kvss M" "i < length M"
  obtains k where "k < length kvss" "M ! i \<in> set (kvss ! k)"
proof -
  have "set M = set (concat kvss)" using assms(1) by (metis merges_def set_mset_mset)
  then have "M ! i \<in> set (concat kvss)" using assms(2) nth_mem by blast
  then obtain kvs where "kvs \<in> set kvss" "M ! i \<in> set kvs" by auto
  then show thesis using that by (metis in_set_conv_nth)
qed

lemma merges_one_owner:
  "merges c kvss M \<Longrightarrow> k < length kvss \<Longrightarrow> l < length kvss \<Longrightarrow> x \<in> set (kvss ! k) \<Longrightarrow> x \<in> set (kvss ! l) \<Longrightarrow> k = l"
  using ordered_distinct [of M] mset_eq_imp_distinct_iff [of M "concat kvss"]
  by (intro distinct_concat_owner) (auto simp: merges_def)

end

context cursor
begin

lemma stand_observed:
  assumes "stand at ch kvss f" "k < length ch"
  shows "it_valid V (ch ! k) \<longleftrightarrow> f (kvss ! k) < length (kvss ! k)"
    "it_valid V (ch ! k) \<Longrightarrow> it_key V (ch ! k) = fst (kvss ! k ! f (kvss ! k))"
  using assms at_valid at_key by (auto simp: stand_def)

lemma stand_weaken: "stand at ch kvss f \<Longrightarrow> stand_somewhere at ch kvss"
  by (auto simp: stand_def stand_somewhere_def)

lemma smallest_found:
  assumes m: "merges c kvss M" and st: "stand at ch kvss (cut M i)" and i: "i < length M"
  shows "\<exists>k < length kvss. find_smallest c V ch = Some k \<and> M ! i \<in> set (kvss ! k)"
proof -
  have len: "length ch = length kvss" and o: "ordered c M" using st m by (simp_all add: stand_def merges_def)
  have part: "part_of c M (kvss ! k)" if "k < length kvss" for k using merges_part [OF m] that by simp
  obtain k1 where k1: "k1 < length kvss" "M ! i \<in> set (kvss ! k1)" by (rule merges_owner [OF m i])
  have c1: "it_valid V (ch ! k1)" "it_key V (ch ! k1) = fst (M ! i)"
    using stand_observed [OF st, of k1] cut_here [OF part [OF k1(1)] i k1(2)] k1(1) len by auto
  have "case find_smallest c V ch of None \<Rightarrow> \<forall>k \<in> set [0..<length ch]. \<not> it_valid V (ch ! k)
     | Some k \<Rightarrow> k \<in> set [0..<length ch] \<and> it_valid V (ch ! k) \<and> (\<forall>j \<in> set [0..<length ch]. it_valid V (ch ! j) \<longrightarrow>
         \<not> cmp_compare c (it_key V (ch ! j)) (it_key V (ch ! k)) < 0)"
    unfolding find_smallest_def by (rule pick_best) (use cmp_trans cmp_refl in blast)+
  then obtain k where k: "find_smallest c V ch = Some k" "k < length kvss" "it_valid V (ch ! k)"
      "\<not> cmp_compare c (fst (M ! i)) (it_key V (ch ! k)) < 0"
    using c1 k1(1) len by (auto split: option.splits)
  have "cut M i (kvss ! k) < length (kvss ! k)" using stand_observed(1) [OF st] k(2,3) len by simp
  then obtain p where p: "i \<le> p" "p < length M" "kvss ! k ! cut M i (kvss ! k) = M ! p"
    and mem: "kvss ! k ! cut M i (kvss ! k) \<in> set (kvss ! k)"
    using cut_after [OF part [OF k(2)]] by (metis nth_mem)
  have "p = i" using k(4) stand_observed(2) [OF st _ k(3)] k(2) len p ordered_less [OF o, of i p] by fastforce
  then show ?thesis using k(1,2) p(3) mem by auto
qed

lemma largest_found:
  assumes m: "merges c kvss M" and st: "stand at ch kvss (\<lambda>kvs. before_cut (cut M (Suc i) kvs) kvs)" and i: "i < length M"
  shows "\<exists>k < length kvss. find_largest c V ch = Some k \<and> M ! i \<in> set (kvss ! k)"
proof -
  have len: "length ch = length kvss" and o: "ordered c M" using st m by (simp_all add: stand_def merges_def)
  have part: "part_of c M (kvss ! k)" if "k < length kvss" for k using merges_part [OF m] that by simp
  obtain k1 where k1: "k1 < length kvss" "M ! i \<in> set (kvss ! k1)" by (rule merges_owner [OF m i])
  have "before_cut (cut M (Suc i) (kvss ! k1)) (kvss ! k1) = cut M i (kvss ! k1)"
    using cut_Suc [OF part [OF k1(1)] i] k1(2) by (simp add: before_cut_def)
  then have c1: "it_valid V (ch ! k1)" "it_key V (ch ! k1) = fst (M ! i)"
    using stand_observed [OF st, of k1] cut_here [OF part [OF k1(1)] i k1(2)] k1(1) len by auto
  have "case find_largest c V ch of None \<Rightarrow> \<forall>k \<in> set (rev [0..<length ch]). \<not> it_valid V (ch ! k)
     | Some k \<Rightarrow> k \<in> set (rev [0..<length ch]) \<and> it_valid V (ch ! k) \<and> (\<forall>j \<in> set (rev [0..<length ch]). it_valid V (ch ! j) \<longrightarrow>
         \<not> 0 < cmp_compare c (it_key V (ch ! j)) (it_key V (ch ! k)))"
    unfolding find_largest_def by (rule pick_best) (use cmp_trans cmp_refl cmp_swap in blast)+
  then obtain k where k: "find_largest c V ch = Some k" "k < length kvss" "it_valid V (ch ! k)"
      "\<not> cmp_compare c (it_key V (ch ! k)) (fst (M ! i)) < 0"
    using c1 k1(1) len cmp_swap by (auto split: option.splits)
  have pos: "0 < cut M (Suc i) (kvss ! k)"
    using stand_observed(1) [OF st, of k] k(2,3) len by (auto simp: before_cut_def split: if_splits)
  then obtain p where p: "p < Suc i" "p < length M" "kvss ! k ! (cut M (Suc i) (kvss ! k) - 1) = M ! p"
    by (rule cut_before [OF part [OF k(2)]])
  have mem: "kvss ! k ! (cut M (Suc i) (kvss ! k) - 1) \<in> set (kvss ! k)"
    using pos cut_le [of M "Suc i" "kvss ! k"] by (intro nth_mem) simp
  have "p = i" using k(4) stand_observed(2) [OF st _ k(3)] k(2) len p pos ordered_less [OF o, of p i] i
    by (fastforce simp: before_cut_def)
  then show ?thesis using k(1,2) p(3) mem by auto
qed

lemma none_found:
  assumes "\<forall>k < length ch. \<not> it_valid V (ch ! k)"
  shows "find_smallest c V ch = None" "find_largest c V ch = None"
proof -
  have "foldl (pick c V better ch) None ks = None" if "set ks \<subseteq> {..<length ch}" for better ks
    using that by (induction ks) (use assms in \<open>auto simp: pick_def\<close>)
  then show "find_smallest c V ch = None" "find_largest c V ch = None"
    by (simp_all add: find_smallest_def find_largest_def subset_eq)
qed

lemma settled_forward:
  assumes m: "merges c kvss M" and st: "stand at ch kvss (cut M i)" and i: "i \<le> length M"
  shows "mg_at c at (settle c V kForward ch) M i"
proof (cases "i < length M")
  case True
  then show ?thesis using smallest_found [OF m st True] stand_weaken [OF st] st m i
    by (auto simp: mg_at_def settle_def)
next
  case False
  then have "cut M i (kvss ! k) = length (kvss ! k)" if "k < length kvss" for k
    using cut_all [OF merges_part [OF m, of "kvss ! k"]] that i by simp
  then have "\<forall>k < length ch. \<not> it_valid V (ch ! k)" using stand_observed(1) [OF st] st by (simp add: stand_def)
  then show ?thesis using none_found stand_weaken [OF st] m i False by (auto simp: mg_at_def settle_def)
qed

lemma settled_reverse:
  assumes m: "merges c kvss M" and st: "stand at ch kvss (\<lambda>kvs. before_cut (cut M n kvs) kvs)" and n: "n \<le> length M"
  shows "mg_at c at (settle c V kReverse ch) M (before_cut n M)"
proof (cases n)
  case 0
  then have "\<forall>k < length ch. \<not> it_valid V (ch ! k)"
    using stand_observed(1) [OF st] by (simp add: before_cut_def)
  then show ?thesis using none_found stand_weaken [OF st] m 0 by (auto simp: mg_at_def settle_def before_cut_def)
next
  case (Suc i)
  then have "i < length M" using n by simp
  then show ?thesis using largest_found [OF m st [unfolded Suc]] stand_weaken [OF st] st m Suc
    by (auto simp: mg_at_def settle_def before_cut_def)
qed

section \<open>The operations\<close>

text \<open>A call on every child moves each of them as the call says.\<close>

lemma all_do:
  assumes "stand_somewhere at ch kvss"
    and "\<And>it kvs n. kvs \<in> set kvss \<Longrightarrow> at it kvs n \<Longrightarrow> \<exists>it'. it_do V op it = Some it' \<and> at it' kvs (f kvs)"
  obtains ch' where "for_each (\<lambda>_. it_do V op) ch = Some ch'" "stand at ch' kvss f"
proof -
  have "\<exists>ch'. for_each (\<lambda>_. it_do V op) ch = Some ch' \<and> length ch' = length ch \<and>
      (\<forall>k < length ch. at (ch' ! k) (kvss ! k) (f (kvss ! k)))"
    by (rule for_each_returns) (use assms in \<open>auto simp: stand_somewhere_def\<close>)
  then show thesis using that assms(1) by (auto simp: stand_def stand_somewhere_def)
qed

lemma stand_cong: "stand at ch kvss f \<Longrightarrow> (\<And>kvs. kvs \<in> set kvss \<Longrightarrow> f kvs = g kvs) \<Longrightarrow> stand at ch kvss g"
  by (simp add: stand_def)

lemma mg_seek_at:
  assumes "mg_at c at m M i" "short t"
  shows "\<exists>m'. mg_seek c V t m = Some m' \<and> mg_at c at m' M (lower_bound c t M)"
proof -
  obtain kvss where k: "merges c kvss M" "stand_somewhere at (mg_children m) kvss" using assms(1) by (auto simp: mg_at_def)
  obtain ch where "for_each (\<lambda>_. it_do V (Seek t)) (mg_children m) = Some ch" and st: "stand at ch kvss (lower_bound c t)"
    by (rule all_do [OF k(2)]) (use at_seek assms(2) in blast)+
  moreover have "stand at ch kvss (cut M (lower_bound c t M))"
    by (rule stand_cong [OF st]) (simp add: cut_lower_bound merges_part [OF k(1)])
  moreover have "lower_bound c t M \<le> length M" by (simp add: lower_bound_def length_takeWhile_le)
  ultimately show ?thesis using settled_forward [OF k(1)] by (auto simp: mg_seek_def)
qed

lemma mg_first_at:
  assumes "mg_at c at m M i"
  shows "\<exists>m'. mg_seek_to_first c V m = Some m' \<and> mg_at c at m' M 0"
proof -
  obtain kvss where k: "merges c kvss M" "stand_somewhere at (mg_children m) kvss" using assms by (auto simp: mg_at_def)
  obtain ch where "for_each (\<lambda>_. it_do V SeekToFirst) (mg_children m) = Some ch" "stand at ch kvss (cut M 0)"
    by (rule all_do [OF k(2)]) (use at_first in \<open>auto\<close>)
  then show ?thesis using settled_forward [OF k(1)] by (auto simp: mg_seek_to_first_def)
qed

lemma mg_last_at:
  assumes "mg_at c at m M i"
  shows "\<exists>m'. mg_seek_to_last c V m = Some m' \<and> mg_at c at m' M (length M - 1)"
proof -
  obtain kvss where k: "merges c kvss M" "stand_somewhere at (mg_children m) kvss" using assms by (auto simp: mg_at_def)
  obtain ch where "for_each (\<lambda>_. it_do V SeekToLast) (mg_children m) = Some ch"
      and st: "stand at ch kvss (\<lambda>kvs. length kvs - 1)"
    by (rule all_do [OF k(2)]) (use at_last in blast)+
  moreover have "stand at ch kvss (\<lambda>kvs. before_cut (cut M (length M) kvs) kvs)"
    by (rule stand_cong [OF st]) (auto simp: cut_all [OF merges_part [OF k(1)]] before_cut_def)
  moreover have "before_cut (length M) M = length M - 1" by (simp add: before_cut_def)
  ultimately show ?thesis using settled_reverse [OF k(1), of ch "length M"] by (auto simp: mg_seek_to_last_def)
qed

text \<open>What the current child is, whichever the direction.\<close>

definition current_at :: "'i MergingIterator \<Rightarrow> (bytes \<times> bytes) list list \<Rightarrow> (bytes \<times> bytes) list \<Rightarrow> nat \<Rightarrow> nat \<Rightarrow> bool" where
  "current_at m kvss M i k \<longleftrightarrow>
     merges c kvss M \<and> k < length kvss \<and> mg_current m = Some k \<and> length (mg_children m) = length kvss \<and>
     M ! i \<in> set (kvss ! k) \<and> at (mg_children m ! k) (kvss ! k) (cut M i (kvss ! k)) \<and>
     cut M i (kvss ! k) < length (kvss ! k) \<and> kvss ! k ! cut M i (kvss ! k) = M ! i \<and>
     stand at (mg_children m) kvss
       (case mg_direction m of kForward \<Rightarrow> cut M i | kReverse \<Rightarrow> \<lambda>kvs. before_cut (cut M (Suc i) kvs) kvs)"

lemma mg_at_current:
  assumes "mg_at c at m M i" "i < length M"
  obtains kvss k where "current_at m kvss M i k"
proof -
  obtain kvss k where k: "merges c kvss M" "k < length kvss" "mg_current m = Some k" "M ! i \<in> set (kvss ! k)"
      and st: "stand at (mg_children m) kvss
        (case mg_direction m of kForward \<Rightarrow> cut M i | kReverse \<Rightarrow> \<lambda>kvs. before_cut (cut M (Suc i) kvs) kvs)"
    using assms by (auto simp: mg_at_def)
  have part: "part_of c M (kvss ! k)" using merges_part [OF k(1)] k(2) by simp
  have "at (mg_children m ! k) (kvss ! k) (cut M i (kvss ! k))"
    using st k(2,4) cut_Suc [OF part assms(2)] by (auto simp: stand_def before_cut_def split: Direction.splits)
  then have "current_at m kvss M i k"
    using k st cut_here [OF part assms(2) k(4)] by (simp add: current_at_def) (simp add: stand_def)
  then show thesis by (rule that)
qed

lemma current_part: "current_at m kvss M i k \<Longrightarrow> j < length kvss \<Longrightarrow> part_of c M (kvss ! j)"
  using merges_part [of kvss M "kvss ! j"] by (simp add: current_at_def)

lemma current_cut: "current_at m kvss M i k \<Longrightarrow> i < length M \<Longrightarrow> cut M (Suc i) (kvss ! k) = Suc (cut M i (kvss ! k))"
  using cut_Suc [OF current_part, of m kvss M i k k i] by (simp add: current_at_def)

lemma current_short: "current_at m kvss M i k \<Longrightarrow> short (fst (M ! i))"
  unfolding current_at_def using at_short by blast

lemma current_stand: "current_at m kvss M i k \<Longrightarrow> j < length kvss \<Longrightarrow> \<exists>n. at (mg_children m ! j) (kvss ! j) n"
  unfolding current_at_def stand_def by blast

text \<open>Turning round leaves every child where the other direction wants it.\<close>

lemma other_cut:
  assumes "current_at m kvss M i k" "j < length kvss" "j \<noteq> k" "i < length M"
  shows "cut M (Suc i) (kvss ! j) = cut M i (kvss ! j)"
proof -
  have m: "merges c kvss M" "k < length kvss" "M ! i \<in> set (kvss ! k)" using assms(1) by (simp_all add: current_at_def)
  then have "M ! i \<notin> set (kvss ! j)" using merges_one_owner [OF m(1) assms(2) m(2)] assms(3) by blast
  then show ?thesis using cut_Suc [OF merges_part [OF m(1)] assms(4), of "kvss ! j"] assms(2) by simp
qed

lemma turned_forward:
  assumes cur: "current_at m kvss M i k" and i: "i < length M"
  shows "\<exists>ch. (if mg_direction m \<noteq> kForward then turn_forward V k (mg_children m) else Some (mg_children m)) = Some ch \<and>
    stand at ch kvss (cut M i)"
proof (cases "mg_direction m")
  case kForward
  then show ?thesis using cur by (simp add: current_at_def)
next
  case kReverse
  note c = cur [unfolded current_at_def]
  have o: "ordered c M" and key: "it_key V (mg_children m ! k) = fst (M ! i)"
    using c at_key by (auto simp: merges_def)
  have step: "\<exists>x. (if j = k then Some (mg_children m ! j) else it_do V (Seek (it_key V (mg_children m ! k))) (mg_children m ! j)) = Some x \<and>
      at x (kvss ! j) (cut M i (kvss ! j))" if "j < length (mg_children m)" for j
  proof (cases "j = k")
    case False
    have j: "j < length kvss" using c that by simp
    have "short (fst (M ! i))" by (rule current_short [OF cur])
    moreover obtain n where "at (mg_children m ! j) (kvss ! j) n" using current_stand [OF cur j] by blast
    moreover have "lower_bound c (fst (M ! i)) (kvss ! j) = cut M i (kvss ! j)"
      using cut_lower_bound [OF current_part [OF cur], of j "fst (M ! i)"] lower_bound_self [OF o i] c that by simp
    ultimately show ?thesis using at_seek [of "mg_children m ! j" "kvss ! j" n "fst (M ! i)"] False key by simp
  qed (use c in simp)
  have "\<exists>ch. turn_forward V k (mg_children m) = Some ch \<and> length ch = length (mg_children m) \<and>
      (\<forall>j < length (mg_children m). at (ch ! j) (kvss ! j) (cut M i (kvss ! j)))"
    unfolding turn_forward_def by (rule for_each_returns) (rule step)
  then show ?thesis using kReverse c by (auto simp: stand_def)
qed

lemma seek_then_back:
  assumes "at it kvs n" "short t"
  shows "\<exists>it'. Option.bind (it_do V (Seek t) it) (\<lambda>it'. it_do V (if it_valid V it' then Prev else SeekToLast) it') = Some it' \<and>
    at it' kvs (before_cut (lower_bound c t kvs) kvs)"
proof -
  obtain it1 where it1: "it_do V (Seek t) it = Some it1" "at it1 kvs (lower_bound c t kvs)"
    using at_seek [OF assms] by blast
  show ?thesis
  proof (cases "lower_bound c t kvs < length kvs")
    case True
    then show ?thesis using it1 at_prev [OF it1(2) True] at_valid [OF it1(2)] by (auto simp: before_cut_def)
  next
    case False
    then have "lower_bound c t kvs = length kvs" using at_le [OF it1(2)] by simp
    then show ?thesis using it1 at_last [OF it1(2)] at_valid [OF it1(2)] by (auto simp: before_cut_def)
  qed
qed

lemma turned_back:
  assumes cur: "current_at m kvss M i k" and i: "i < length M"
  shows "\<exists>ch. (if mg_direction m \<noteq> kReverse then turn_back V k (mg_children m) else Some (mg_children m)) = Some ch \<and>
    stand at ch kvss (\<lambda>kvs. before_cut (cut M (Suc i) kvs) kvs)"
proof (cases "mg_direction m")
  case kReverse
  then show ?thesis using cur by (simp add: current_at_def)
next
  case kForward
  note c = cur [unfolded current_at_def]
  have o: "ordered c M" and key: "it_key V (mg_children m ! k) = fst (M ! i)"
    using c at_key by (auto simp: merges_def)
  have step: "\<exists>x. (if j = k then Some (mg_children m ! j) else
        Option.bind (it_do V (Seek (it_key V (mg_children m ! k))) (mg_children m ! j))
          (\<lambda>it'. it_do V (if it_valid V it' then Prev else SeekToLast) it')) = Some x \<and>
      at x (kvss ! j) (before_cut (cut M (Suc i) (kvss ! j)) (kvss ! j))" if "j < length (mg_children m)" for j
  proof (cases "j = k")
    case True
    then show ?thesis using current_cut [OF cur i] c by (simp add: before_cut_def)
  next
    case False
    have j: "j < length kvss" using c that by simp
    have "short (fst (M ! i))" by (rule current_short [OF cur])
    moreover obtain n where "at (mg_children m ! j) (kvss ! j) n" using current_stand [OF cur j] by blast
    moreover have "lower_bound c (fst (M ! i)) (kvss ! j) = cut M (Suc i) (kvss ! j)"
      using cut_lower_bound [OF current_part [OF cur], of j "fst (M ! i)"] lower_bound_self [OF o i]
        other_cut [OF cur _ False i] c that by simp
    ultimately show ?thesis using seek_then_back [of "mg_children m ! j" "kvss ! j" n "fst (M ! i)"] False key by simp
  qed
  have "\<exists>ch. turn_back V k (mg_children m) = Some ch \<and> length ch = length (mg_children m) \<and>
      (\<forall>j < length (mg_children m). at (ch ! j) (kvss ! j) (before_cut (cut M (Suc i) (kvss ! j)) (kvss ! j)))"
    unfolding turn_back_def by (rule for_each_returns) (rule step)
  then show ?thesis using kForward c by (auto simp: stand_def)
qed

lemma mg_next_at:
  assumes "mg_at c at m M i" "i < length M"
  shows "\<exists>m'. mg_next c V m = Some m' \<and> mg_at c at m' M (Suc i)"
proof -
  obtain kvss k where cur: "current_at m kvss M i k" by (rule mg_at_current [OF assms])
  note c = cur [unfolded current_at_def]
  obtain ch where ch: "(if mg_direction m \<noteq> kForward then turn_forward V k (mg_children m) else Some (mg_children m)) = Some ch"
    and st: "stand at ch kvss (cut M i)" using turned_forward [OF cur assms(2)] by blast
  have "at (ch ! k) (kvss ! k) (cut M i (kvss ! k))" using st c by (simp add: stand_def)
  then obtain it where it: "it_do V Next (ch ! k) = Some it" "at it (kvss ! k) (Suc (cut M i (kvss ! k)))"
    using at_next c by blast
  have "cut M (Suc i) (kvss ! k) = Suc (cut M i (kvss ! k))" by (rule current_cut [OF cur assms(2)])
  then have "stand at (ch[k := it]) kvss (cut M (Suc i))"
    using st it(2) other_cut [OF cur _ _ assms(2)] conjunct1 [OF conjunct2 [OF c]] by (auto simp: stand_def nth_list_update)
  then show ?thesis using settled_forward c ch it(1) assms(2) by (auto simp: mg_next_def Let_def)
qed

lemma mg_prev_at:
  assumes "mg_at c at m M i" "i < length M"
  shows "\<exists>m'. mg_prev c V m = Some m' \<and> mg_at c at m' M (before_cut i M)"
proof -
  obtain kvss k where cur: "current_at m kvss M i k" by (rule mg_at_current [OF assms])
  note c = cur [unfolded current_at_def]
  obtain ch where ch: "(if mg_direction m \<noteq> kReverse then turn_back V k (mg_children m) else Some (mg_children m)) = Some ch"
    and st: "stand at ch kvss (\<lambda>kvs. before_cut (cut M (Suc i) kvs) kvs)" using turned_back [OF cur assms(2)] by blast
  have "before_cut (cut M (Suc i) (kvss ! k)) (kvss ! k) = cut M i (kvss ! k)"
    by (simp add: current_cut [OF cur assms(2)] before_cut_def)
  moreover have "at (ch ! k) (kvss ! k) (before_cut (cut M (Suc i) (kvss ! k)) (kvss ! k))" using st c by (simp add: stand_def)
  ultimately have "at (ch ! k) (kvss ! k) (cut M i (kvss ! k))" by simp
  then obtain it where it: "it_do V Prev (ch ! k) = Some it" "at it (kvss ! k) (before_cut (cut M i (kvss ! k)) (kvss ! k))"
    using at_prev c unfolding before_cut_def by blast
  have "stand at (ch[k := it]) kvss (\<lambda>kvs. before_cut (cut M i kvs) kvs)"
    using st it(2) other_cut [OF cur _ _ assms(2)] conjunct1 [OF conjunct2 [OF c]] by (auto simp: stand_def nth_list_update)
  then show ?thesis using settled_reverse c ch it(1) assms(2) by (auto simp: mg_prev_def Let_def)
qed

lemma mg_observed:
  assumes "mg_at c at m M i"
  shows "it_valid (MergingIterator c V) m \<longleftrightarrow> i < length M"
    "i < length M \<Longrightarrow> it_key (MergingIterator c V) m = fst (M ! i) \<and> it_value (MergingIterator c V) m = snd (M ! i)"
    "it_status (MergingIterator c V) m = status_ok"
proof -
  show "it_valid (MergingIterator c V) m \<longleftrightarrow> i < length M"
    using assms by (auto simp: MergingIterator_def mg_at_def split: if_splits)
  obtain kvss where "stand_somewhere at (mg_children m) kvss" using assms by (auto simp: mg_at_def)
  then have "\<forall>it \<in> set (mg_children m). is_ok (it_status V it)"
    using at_status by (fastforce simp: stand_somewhere_def in_set_conv_nth)
  then have "dropWhile (\<lambda>it. is_ok (it_status V it)) (mg_children m) = []" by (simp add: dropWhile_eq_Nil_conv)
  then show "it_status (MergingIterator c V) m = status_ok" by (simp add: MergingIterator_def mg_status_def del: dropWhile_eq_Nil_conv)
  assume i: "i < length M"
  obtain kvss k where "current_at m kvss M i k" by (rule mg_at_current [OF assms i])
  then show "it_key (MergingIterator c V) m = fst (M ! i) \<and> it_value (MergingIterator c V) m = snd (M ! i)"
    using at_key at_value by (auto simp: current_at_def MergingIterator_def)
qed

lemma mg_at_do:
  assumes "mg_at c at m M i" "may_do M i op"
  shows "\<exists>m'. it_do (MergingIterator c V) op m = Some m' \<and> mg_at c at m' M (cursor_step c M i op)"
  using assms mg_seek_at [OF assms(1)] mg_first_at [OF assms(1)] mg_last_at [OF assms(1)]
    mg_next_at [OF assms(1)] mg_prev_at [OF assms(1)]
  by (cases op) (auto simp: MergingIterator_def may_do_def before_cut_def)

lemma merging_cursor: "cursor c (MergingIterator c V) (mg_at c at)"
proof (unfold_locales, goal_cases)
  case (2 m M i x)
  then obtain kvss where k: "merges c kvss M" "stand_somewhere at (mg_children m) kvss" by (auto simp: mg_at_def)
  have "set M = set (concat kvss)" using k(1) by (metis merges_def set_mset_mset)
  then obtain kvs where "kvs \<in> set kvss" "x \<in> set kvs" using 2(2) by auto
  then obtain j where "j < length kvss" "x \<in> set (kvss ! j)" by (metis in_set_conv_nth)
  then show ?case using k(2) at_short [of _ "kvss ! j" _ x] unfolding stand_somewhere_def by blast
qed (simp_all add: mg_observed mg_at_do, auto simp: mg_at_def merges_def)


end

section \<open>What new_merging_iterator returns\<close>

fun merged_at ::
    "Comparator \<Rightarrow> ('i \<Rightarrow> (bytes \<times> bytes) list \<Rightarrow> nat \<Rightarrow> bool) \<Rightarrow> 'i Merged \<Rightarrow> (bytes \<times> bytes) list \<Rightarrow> nat \<Rightarrow> bool" where
  "merged_at c at (Nothing s) M i \<longleftrightarrow> s = status_ok \<and> M = [] \<and> i = 0"
| "merged_at c at (Only it) M i \<longleftrightarrow> at it M i"
| "merged_at c at (Several m) M i \<longleftrightarrow> mg_at c at m M i"

context key_order
begin

lemma ordered_unique: "ordered c xs \<Longrightarrow> ordered c ys \<Longrightarrow> set xs = set ys \<Longrightarrow> xs = ys"
proof (induction xs arbitrary: ys)
  case (Cons x xs)
  then obtain y ys' where ys: "ys = y # ys'" by (cases ys) auto
  have x: "\<forall>z \<in> set xs. cmp_compare c (fst x) (fst z) < 0" and y: "\<forall>z \<in> set ys'. cmp_compare c (fst y) (fst z) < 0"
    and o: "ordered c xs" "ordered c ys'"
    using Cons.prems(1,2) by (simp_all add: ordered_def ys)
  have "x \<in> set (y # ys')" "y \<in> set (x # xs)" using Cons.prems(3) unfolding ys by (metis list.set_intros(1))+
  then have xy: "x = y" using x y cmp_trans [of "fst x" "fst y" "fst x"] cmp_refl by auto
  have "x \<notin> set xs" "y \<notin> set ys'" using x y cmp_refl by auto
  then have "set xs = set ys'" using Cons.prems(3) by (auto simp: ys xy)
  then show ?case using Cons.IH [OF o] ys xy by simp
qed simp

end

context cursor
begin

lemma merged_cursor: "cursor c (MergedIterator c V) (merged_at c at)"
proof -
  have M: "cursor c (MergingIterator c V) (mg_at c at)" by (rule merging_cursor)
  have E: "cursor c EmptyIterator (\<lambda>s kvs i. s = status_ok \<and> kvs = [] \<and> i = 0)"
    by unfold_locales (auto simp: EmptyIterator_def ordered_def may_do_def lower_bound_def split: cursor_op.splits)
  show ?thesis
  proof (unfold_locales, goal_cases)
    case (8 m M i op)
    then show ?case
      using cursor.at_do [OF E, of _ M i op] at_do [of _ M i op] cursor.at_do [OF merging_cursor, of _ M i op]
      by (cases m) (fastforce simp: MergedIterator_def)+
  next
    case (2 m M i x)
    then show ?case using cursor.at_short [OF M] at_short by (cases m) auto
  qed (case_tac [!] it, auto simp: MergedIterator_def EmptyIterator_def
        at_ordered at_le at_valid at_key at_value at_status
        cursor.at_ordered [OF M] cursor.at_le [OF M] cursor.at_valid [OF M]
        cursor.at_key [OF M] cursor.at_value [OF M] cursor.at_status [OF M])
qed

lemma new_merging_at:
  assumes "merges c kvss M" "stand_somewhere at ch kvss"
  shows "\<exists>n. merged_at c at (new_merging_iterator ch) M n"
proof -
  consider "ch = []" | it where "ch = [it]" | a b rest where "ch = a # b # rest" by (metis list.exhaust)
  then show ?thesis
  proof cases
    case 1
    then show ?thesis using assms by (simp add: new_merging_iterator_def new_empty_iterator_def stand_somewhere_def merges_def)
  next
    case 2
    then have "length kvss = 1" using assms(2) by (simp add: stand_somewhere_def)
    then obtain kvs where k: "kvss = [kvs]" by (auto simp: length_Suc_conv)
    then have "M = kvs" using assms(1) by (intro ordered_unique) (auto simp: merges_def dest: mset_eq_setD)
    then show ?thesis using assms(2) 2 k by (simp add: new_merging_iterator_def stand_somewhere_def)
  next
    case 3
    then have "mg_at c at (MergingIterator_ctor ch) M (length M)"
      using assms by (auto simp: mg_at_def MergingIterator_ctor_def)
    then show ?thesis using 3 by (auto simp: new_merging_iterator_def)
  qed
qed

text \<open>Whatever the calls, the merge stands where a cursor into the merged list stands.\<close>

lemma merged_run:
  assumes "merges c kvss M" "stand_somewhere at ch kvss" "short_targets ops" "ops \<noteq> []" "\<exists>t. hd ops \<in> {SeekToFirst, SeekToLast, Seek t}"
    and "i = foldl (cursor_step c M) (length M) ops"
  shows "\<exists>m. it_run (MergedIterator c V) ops (new_merging_iterator ch) = Some m \<and> it_status (MergedIterator c V) m = status_ok \<and>
    (it_valid (MergedIterator c V) m \<longleftrightarrow> i < length M) \<and>
    (i < length M \<longrightarrow> it_key (MergedIterator c V) m = fst (M ! i) \<and> it_value (MergedIterator c V) m = snd (M ! i))"
proof -
  obtain n where n: "merged_at c at (new_merging_iterator ch) M n" using new_merging_at [OF assms(1,2)] by blast
  have "foldl (cursor_step c M) n ops = foldl (cursor_step c M) (length M) ops"
    using assms(4,5) by (cases ops) auto
  then show ?thesis using cursor.at_run_observed [OF merged_cursor n assms(3)] assms(6) by simp
qed

end

interpretation merged_blocks: cursor kInternal "MergedIterator kInternal (BlockIterator kInternal nul)"
    "merged_at kInternal (block_at kInternal)" for nul
  by (rule block_ik.merged_cursor)

interpretation merged_memtables: cursor kInternal "MergedIterator kInternal MemTableIterator" "merged_at kInternal mem_at"
  by (rule mem_it.merged_cursor)

section \<open>Properties\<close>

text \<open>
  C5. A merge reads as one ordered list.  Over any sources that keep the contract of an
  iterator, with no key in two of them, every sequence of calls that starts with a seek
  returns, reports no error, and stands where a cursor into the merged list stands
  after the same calls, whatever the order in which the direction changes: no entry of a
  source is skipped and none is met twice.
\<close>

theorem merging_iterator_refines_merge:
  assumes "cursor c V at" "merges c kvss M" "stand_somewhere at ch kvss" "short_targets ops"
    and "ops = op # rest" "op = SeekToFirst \<or> op = SeekToLast \<or> op = Seek t"
    and "i = foldl (cursor_step c M) (length M) ops"
  shows "\<exists>m. it_run (MergedIterator c V) ops (new_merging_iterator ch) = Some m \<and>
    it_status (MergedIterator c V) m = status_ok \<and> (it_valid (MergedIterator c V) m \<longleftrightarrow> i < length M) \<and>
    (i < length M \<longrightarrow> it_key (MergedIterator c V) m = fst (M ! i) \<and> it_value (MergedIterator c V) m = snd (M ! i))"
  using assms(5,6) by (intro cursor.merged_run [OF assms(1-4) _ _ assms(7)]) auto

definition sample_entry :: "8 word \<Rightarrow> u64 \<Rightarrow> entry" where
  "sample_entry k seq = \<lparr>e_key = [k], e_seq = seq, e_type = kValue, e_value = [k + 1]\<rparr>"

lemma sample_memtable:
  "seq \<le> kMaxSequenceNumber \<Longrightarrow>
   \<exists>mt. mem_adds 16 (\<lambda>_. 1) (MemTable_ctor 16) [sample_entry k seq] = Some mt \<and> mt_inv mt [sample_entry k seq]"
  using mem_adds_new [of "[sample_entry k seq]" 16 "\<lambda>_. 1"] by (simp add: wf_entry_def sample_entry_def mem_insert_def)

lemma sample_sources:
  "\<exists>mt1 mt2. mem_adds 16 (\<lambda>_. 1) (MemTable_ctor 16) [sample_entry 98 7] = Some mt1 \<and>
     mem_adds 16 (\<lambda>_. 1) (MemTable_ctor 16) [sample_entry 97 9] = Some mt2 \<and>
     stand_somewhere mem_at [mem_new_iterator mt1, mem_new_iterator mt2] [[kv_of (sample_entry 98 7)], [kv_of (sample_entry 97 9)]]"
proof -
  obtain mt1 mt2 where mt: "mem_adds 16 (\<lambda>_. 1) (MemTable_ctor 16) [sample_entry 98 7] = Some mt1" "mt_inv mt1 [sample_entry 98 7]"
      "mem_adds 16 (\<lambda>_. 1) (MemTable_ctor 16) [sample_entry 97 9] = Some mt2" "mt_inv mt2 [sample_entry 97 9]"
    using sample_memtable [of 7 98] sample_memtable [of 9 97] by (auto simp: kMaxSequenceNumber_def)
  then show ?thesis using mem_at_new [OF mt(2)] mem_at_new [OF mt(4)]
    by (auto simp: stand_somewhere_def less_Suc_eq nth_Cons')
qed

lemma sample_merges:
  "merges kInternal [[kv_of (sample_entry 98 7)], [kv_of (sample_entry 97 9)]] [kv_of (sample_entry 97 9), kv_of (sample_entry 98 7)]"
proof -
  have "compare_internal_keys (ikey (sample_entry 97 9)) (ikey (sample_entry 98 7)) < 0"
    by (simp add: ikey_def sample_entry_def make_internal_key_def, code_simp)
  then show ?thesis by (auto simp: merges_def ordered_def kv_of_def readable_def kInternal_def)
qed

theorem merging_iterator_refines_merge_witness:
  "\<exists>mt1 mt2 m. mem_adds 16 (\<lambda>_. 1) (MemTable_ctor 16) [sample_entry 98 7] = Some mt1 \<and>
     mem_adds 16 (\<lambda>_. 1) (MemTable_ctor 16) [sample_entry 97 9] = Some mt2 \<and>
     it_run (MergedIterator kInternal MemTableIterator) [SeekToLast, Prev, Next]
       (new_merging_iterator [mem_new_iterator mt1, mem_new_iterator mt2]) = Some m \<and>
     it_key (MergedIterator kInternal MemTableIterator) m = make_internal_key [98] 7 kValue \<and>
     it_value (MergedIterator kInternal MemTableIterator) m = [99]"
proof -
  obtain mt1 mt2 where mt: "mem_adds 16 (\<lambda>_. 1) (MemTable_ctor 16) [sample_entry 98 7] = Some mt1"
      "mem_adds 16 (\<lambda>_. 1) (MemTable_ctor 16) [sample_entry 97 9] = Some mt2"
    and st: "stand_somewhere mem_at [mem_new_iterator mt1, mem_new_iterator mt2] [[kv_of (sample_entry 98 7)], [kv_of (sample_entry 97 9)]]"
    using sample_sources by blast
  obtain m where "it_run (MergedIterator kInternal MemTableIterator) [SeekToLast, Prev, Next]
        (new_merging_iterator [mem_new_iterator mt1, mem_new_iterator mt2]) = Some m"
      "it_key (MergedIterator kInternal MemTableIterator) m = fst (kv_of (sample_entry 98 7))"
      "it_value (MergedIterator kInternal MemTableIterator) m = snd (kv_of (sample_entry 98 7))"
    using merging_iterator_refines_merge [OF mem_it.cursor_axioms sample_merges st, of "[SeekToLast, Prev, Next]" SeekToLast "[Prev, Next]" "[]" 1]
    by (auto simp: short_targets_def)
  then show ?thesis using mt by (auto simp: kv_of_def ikey_def sample_entry_def)
qed

end
