(* ===== verification/Db_Iter.thy ===== *)
theory Db_Iter
  imports Merger_Props
begin

text \<open>
  src/db_iter.cpp: the iterator an application sees.  It collapses the versions of every
  user key in an internal iterator to the newest one at or below the snapshot, and drops
  the keys whose newest version is a tombstone.
\<close>

section \<open>Model\<close>

text \<open>
  The argument \<open>skip\<close> of find_next_user_entry is the saved key in every call.  How much
  memory a cleared value keeps is not modelled.
\<close>

record 'i DBIter =
  db_iter :: 'i
  db_sequence :: u64
  db_status :: status
  db_saved_key :: bytes
  db_saved_value :: bytes
  db_direction :: Direction
  db_valid :: bool

definition new_db_iterator :: "'i \<Rightarrow> u64 \<Rightarrow> 'i DBIter" where
  "new_db_iterator internal_iter seq =
     \<lparr>db_iter = internal_iter, db_sequence = seq, db_status = status_ok, db_saved_key = [], db_saved_value = [],
      db_direction = kForward, db_valid = False\<rparr>"

definition malformed_key :: status where
  "malformed_key = Status kCorruption ''malformed internal key in a table''"

definition db_key :: "'i Iterator \<Rightarrow> 'i DBIter \<Rightarrow> bytes" where
  "db_key V d = (case db_direction d of kForward \<Rightarrow> extract_user_key (it_key V (db_iter d)) | kReverse \<Rightarrow> db_saved_key d)"

definition db_value :: "'i Iterator \<Rightarrow> 'i DBIter \<Rightarrow> bytes" where
  "db_value V d = (case db_direction d of kForward \<Rightarrow> it_value V (db_iter d) | kReverse \<Rightarrow> db_saved_value d)"

definition db_get_status :: "'i Iterator \<Rightarrow> 'i DBIter \<Rightarrow> status" where
  "db_get_status V d = (if is_ok (db_status d) then it_status V (db_iter d) else db_status d)"

text \<open>A call on the internal iterator.\<close>

definition on_iter :: "'i Iterator \<Rightarrow> cursor_op \<Rightarrow> 'i DBIter \<Rightarrow> 'i DBIter option" where
  "on_iter V op d = map_option (\<lambda>it. d\<lparr>db_iter := it\<rparr>) (it_do V op (db_iter d))"

partial_function (option) find_next_user_entry :: "'i Iterator \<Rightarrow> bool \<Rightarrow> 'i DBIter \<Rightarrow> 'i DBIter option" where
  "find_next_user_entry V skipping d =
     (case parse_internal_key (it_key V (db_iter d)) of
        None \<Rightarrow> Some (d\<lparr>db_status := malformed_key, db_valid := False\<rparr>)
      | Some key \<Rightarrow>
          let seen = sequence key \<le> db_sequence d;
              deleted = seen \<and> key_type key = kDeletion;
              hidden = skipping \<and> cmp_compare kBytewise (user_key key) (db_saved_key d) \<le> 0;
              d1 = (if deleted then d\<lparr>db_saved_key := user_key key\<rparr> else d)
          in if seen \<and> key_type key = kValue \<and> \<not> hidden then Some (d\<lparr>db_valid := True, db_saved_key := []\<rparr>)
             else Option.bind (on_iter V Next d1)
                    (\<lambda>d2. if it_valid V (db_iter d2) then find_next_user_entry V (skipping \<or> deleted) d2
                          else Some (d2\<lparr>db_saved_key := [], db_valid := False\<rparr>)))"

definition forget :: "'i DBIter \<Rightarrow> 'i DBIter" where
  "forget d = d\<lparr>db_valid := False, db_saved_key := [], db_saved_value := []\<rparr>"

text \<open>What follows the loop of find_prev_user_entry.\<close>

definition decide :: "ValueType \<Rightarrow> 'i DBIter \<Rightarrow> 'i DBIter" where
  "decide type d = (case type of kDeletion \<Rightarrow> (forget d)\<lparr>db_direction := kForward\<rparr> | kValue \<Rightarrow> d\<lparr>db_valid := True\<rparr>)"

partial_function (option) find_prev_loop :: "'i Iterator \<Rightarrow> ValueType \<Rightarrow> 'i DBIter \<Rightarrow> 'i DBIter option" where
  "find_prev_loop V type d =
     (case parse_internal_key (it_key V (db_iter d)) of
        None \<Rightarrow> Some (forget (d\<lparr>db_status := malformed_key\<rparr>))
      | Some key \<Rightarrow>
          let seen = sequence key \<le> db_sequence d;
              past = seen \<and> type \<noteq> kDeletion \<and> cmp_compare kBytewise (user_key key) (db_saved_key d) < 0;
              type1 = (if seen then key_type key else type);
              d1 = (if \<not> seen then d
                    else if key_type key = kDeletion then d\<lparr>db_saved_key := [], db_saved_value := []\<rparr>
                    else d\<lparr>db_saved_key := user_key key, db_saved_value := it_value V (db_iter d)\<rparr>)
          in if past then Some (decide type d)
             else Option.bind (on_iter V Prev d1)
                    (\<lambda>d2. if it_valid V (db_iter d2) then find_prev_loop V type1 d2 else Some (decide type1 d2)))"

definition find_prev_user_entry :: "'i Iterator \<Rightarrow> 'i DBIter \<Rightarrow> 'i DBIter option" where
  "find_prev_user_entry V d =
     (if it_valid V (db_iter d) then find_prev_loop V kDeletion d else Some (decide kDeletion d))"

definition db_next :: "'i Iterator \<Rightarrow> 'i DBIter \<Rightarrow> 'i DBIter option" where
  "db_next V d =
     Option.bind
       (case db_direction d of
          kReverse \<Rightarrow> on_iter V (if \<not> it_valid V (db_iter d) then SeekToFirst else Next) (d\<lparr>db_direction := kForward\<rparr>)
        | kForward \<Rightarrow> on_iter V Next (d\<lparr>db_saved_key := extract_user_key (it_key V (db_iter d))\<rparr>))
       (\<lambda>d1. if \<not> it_valid V (db_iter d1) then Some (d1\<lparr>db_valid := False, db_saved_key := []\<rparr>)
             else find_next_user_entry V True d1)"

text \<open>The loop of prev: back to the entry before the first of the current user key.\<close>

partial_function (option) prev_loop :: "'i Iterator \<Rightarrow> 'i DBIter \<Rightarrow> 'i DBIter option" where
  "prev_loop V d =
     Option.bind (on_iter V Prev d)
       (\<lambda>d1. if \<not> it_valid V (db_iter d1) then Some (forget d1)
             else if cmp_compare kBytewise (extract_user_key (it_key V (db_iter d1))) (db_saved_key d1) < 0
             then find_prev_user_entry V (d1\<lparr>db_direction := kReverse\<rparr>)
             else prev_loop V d1)"

definition db_prev :: "'i Iterator \<Rightarrow> 'i DBIter \<Rightarrow> 'i DBIter option" where
  "db_prev V d =
     (case db_direction d of
        kForward \<Rightarrow> prev_loop V (d\<lparr>db_saved_key := extract_user_key (it_key V (db_iter d))\<rparr>)
      | kReverse \<Rightarrow> find_prev_user_entry V d)"

definition first_entry :: "'i Iterator \<Rightarrow> 'i DBIter \<Rightarrow> 'i DBIter option" where
  "first_entry V d =
     (if it_valid V (db_iter d) then find_next_user_entry V False d else Some (d\<lparr>db_valid := False\<rparr>))"

definition db_seek :: "'i Iterator \<Rightarrow> bytes \<Rightarrow> 'i DBIter \<Rightarrow> 'i DBIter option" where
  "db_seek V target d =
     Option.bind
       (on_iter V (Seek (make_lookup_key target (db_sequence d)))
          (d\<lparr>db_direction := kForward, db_saved_value := [], db_saved_key := make_lookup_key target (db_sequence d)\<rparr>))
       (first_entry V)"

definition db_seek_to_first :: "'i Iterator \<Rightarrow> 'i DBIter \<Rightarrow> 'i DBIter option" where
  "db_seek_to_first V d =
     Option.bind (on_iter V SeekToFirst (d\<lparr>db_direction := kForward, db_saved_value := []\<rparr>)) (first_entry V)"

definition db_seek_to_last :: "'i Iterator \<Rightarrow> 'i DBIter \<Rightarrow> 'i DBIter option" where
  "db_seek_to_last V d =
     Option.bind (on_iter V SeekToLast (d\<lparr>db_direction := kReverse, db_saved_value := []\<rparr>)) (find_prev_user_entry V)"

definition DBIterator :: "'i Iterator \<Rightarrow> 'i DBIter Iterator" where
  "DBIterator V =
     \<lparr>it_valid = db_valid, it_key = db_key V, it_value = db_value V, it_status = db_get_status V,
      it_do = (\<lambda>op d. case op of
          SeekToFirst \<Rightarrow> db_seek_to_first V d
        | SeekToLast \<Rightarrow> db_seek_to_last V d
        | Seek target \<Rightarrow> db_seek V target d
        | Next \<Rightarrow> db_next V d
        | Prev \<Rightarrow> db_prev V d)\<rparr>"

end
