(* ===== verification/Db_Iter_Props.thy ===== *)
theory Db_Iter_Props
  imports Db_Iter
begin

text \<open>
  The application's iterator refines a cursor into the list of the newest visible values,
  one per user key.  Positions in that list are counted by \<open>rank\<close>: how many entries
  before an internal position are shown.
\<close>

section \<open>What a snapshot shows\<close>

definition ukey :: "bytes \<times> bytes \<Rightarrow> bytes" where
  "ukey e = extract_user_key (fst e)"

definition seen :: "u64 \<Rightarrow> bytes \<times> bytes \<Rightarrow> bool" where
  "seen snap e \<longleftrightarrow> extract_sequence (fst e) \<le> snap"

definition is_put :: "bytes \<times> bytes \<Rightarrow> bool" where
  "is_put e \<longleftrightarrow> extract_value_type (fst e) = value_type_byte kValue"

text \<open>An entry is shown when it is a value and no entry before it is a visible version of its key.\<close>

definition shown :: "u64 \<Rightarrow> (bytes \<times> bytes) list \<Rightarrow> nat \<Rightarrow> bool" where
  "shown snap kvs i \<longleftrightarrow> seen snap (kvs ! i) \<and> is_put (kvs ! i) \<and>
     (\<forall>j < i. seen snap (kvs ! j) \<longrightarrow> ukey (kvs ! j) \<noteq> ukey (kvs ! i))"

definition user_view :: "u64 \<Rightarrow> (bytes \<times> bytes) list \<Rightarrow> (bytes \<times> bytes) list" where
  "user_view snap kvs = map (\<lambda>i. (ukey (kvs ! i), snd (kvs ! i))) (filter (shown snap kvs) [0..<length kvs])"

definition rank :: "u64 \<Rightarrow> (bytes \<times> bytes) list \<Rightarrow> nat \<Rightarrow> nat" where
  "rank snap kvs p = length (filter (shown snap kvs) [0..<p])"

lemma rank_0 [simp]: "rank snap kvs 0 = 0"
  by (simp add: rank_def)

lemma rank_Suc: "rank snap kvs (Suc p) = (if shown snap kvs p then Suc (rank snap kvs p) else rank snap kvs p)"
  by (simp add: rank_def)

lemma rank_mono: "p \<le> q \<Longrightarrow> rank snap kvs p \<le> rank snap kvs q"
  by (induction q) (auto simp: le_Suc_eq rank_Suc)

lemma rank_flat: "a \<le> b \<Longrightarrow> (\<And>m. a \<le> m \<Longrightarrow> m < b \<Longrightarrow> \<not> shown snap kvs m) \<Longrightarrow> rank snap kvs b = rank snap kvs a"
proof (induction b)
  case (Suc b)
  show ?case
  proof (cases "a = Suc b")
    case False
    then have "a \<le> b" using Suc.prems(1) by simp
    then show ?thesis using Suc.IH Suc.prems(2) by (simp add: rank_Suc)
  qed simp
qed simp

lemma rank_less_iff:
  assumes "shown snap kvs p"
  shows "rank snap kvs p < rank snap kvs q \<longleftrightarrow> p < q"
proof
  assume "p < q"
  then show "rank snap kvs p < rank snap kvs q" using rank_mono [of "Suc p" q snap kvs] assms by (simp add: rank_Suc)
next
  assume "rank snap kvs p < rank snap kvs q"
  then show "p < q" using rank_mono [of q p snap kvs] by (metis leD not_le_imp_less)
qed

lemma rank_all: "rank snap kvs (length kvs) = length (user_view snap kvs)"
  by (simp add: rank_def user_view_def)

lemma shown_index:
  assumes "shown snap kvs p" "p < length kvs"
  shows "filter (shown snap kvs) [0..<length kvs] ! rank snap kvs p = p"
proof -
  have "[0..<length kvs] = [0..<p] @ p # [Suc p..<length kvs]"
    using upt_add_eq_append [of 0 p "length kvs - p"] upt_conv_Cons [OF assms(2)] assms(2) by simp
  then have "filter (shown snap kvs) [0..<length kvs] =
      filter (shown snap kvs) [0..<p] @ p # filter (shown snap kvs) [Suc p..<length kvs]"
    using assms(1) by (simp only: filter_append filter.simps if_True)
  then show ?thesis by (simp only: rank_def nth_append_length)
qed

lemma view_at:
  assumes "shown snap kvs p" "p < length kvs"
  shows "rank snap kvs p < length (user_view snap kvs)" "user_view snap kvs ! rank snap kvs p = (ukey (kvs ! p), snd (kvs ! p))"
proof -
  show r: "rank snap kvs p < length (user_view snap kvs)" using assms by (simp add: rank_all [symmetric] rank_less_iff)
  show "user_view snap kvs ! rank snap kvs p = (ukey (kvs ! p), snd (kvs ! p))"
    using r shown_index [OF assms] by (simp add: user_view_def)
qed

lemma view_index:
  assumes "r < length (user_view snap kvs)"
  obtains p where "p < length kvs" "shown snap kvs p" "r = rank snap kvs p"
proof -
  let ?idx = "filter (shown snap kvs) [0..<length kvs]"
  have "?idx ! r \<in> set ?idx" using assms by (intro nth_mem) (simp add: user_view_def)
  then have p: "?idx ! r < length kvs" "shown snap kvs (?idx ! r)" by auto
  have "distinct ?idx" by simp
  moreover have "?idx ! rank snap kvs (?idx ! r) = ?idx ! r" "rank snap kvs (?idx ! r) < length ?idx"
    using shown_index [OF p(2,1)] view_at(1) [OF p(2,1)] by (simp_all add: user_view_def)
  ultimately have "r = rank snap kvs (?idx ! r)" using assms by (simp add: nth_eq_iff_index_eq user_view_def)
  then show thesis using that p by blast
qed

section \<open>Internal entries\<close>

definition parses :: "(bytes \<times> bytes) list \<Rightarrow> bool" where
  "parses kvs \<longleftrightarrow> ordered kInternal kvs \<and> (\<forall>e \<in> set kvs. parse_internal_key (fst e) \<noteq> None)"

lemma parse_entry:
  assumes "parses kvs" "p < length kvs"
  obtains key where "parse_internal_key (fst (kvs ! p)) = Some key" "user_key key = ukey (kvs ! p)"
    "sequence key = extract_sequence (fst (kvs ! p))" "key_type key = (if is_put (kvs ! p) then kValue else kDeletion)"
proof -
  obtain key where k: "parse_internal_key (fst (kvs ! p)) = Some key"
    using assms nth_mem [OF assms(2)] unfolding parses_def by blast
  then have "user_key key = ukey (kvs ! p)" "sequence key = extract_sequence (fst (kvs ! p))"
    "key_type key = (if is_put (kvs ! p) then kValue else kDeletion)"
    by (auto simp: parse_internal_key_def ukey_def extract_user_key_def extract_sequence_def is_put_def extract_value_type_def
        Let_def split: if_splits)
  with k show thesis by (rule that)
qed

lemma ukey_mono: "parses kvs \<Longrightarrow> i \<le> j \<Longrightarrow> j < length kvs \<Longrightarrow> ukey (kvs ! i) \<le> ukey (kvs ! j)"
  using ik.ordered_less [of kvs i j] by (cases "i = j") (auto simp: parses_def kInternal_def cik_less ukey_def)

lemma low_byte: "unat (ucast (w AND 0xff) :: byte) = unat (w :: u64) mod 256"
  by (simp add: ff_mask take_bit_eq_mask [symmetric] unsigned_ucast_eq unsigned_take_bit_eq take_bit_eq_mod unat_mod)

text \<open>What stands before the key a seek looks for.\<close>

lemma key_before_lookup:
  assumes "parse_internal_key k \<noteq> None" "snap \<le> kMaxSequenceNumber"
  shows "compare_internal_keys k (make_lookup_key t snap) < 0 \<longleftrightarrow>
    extract_user_key k < t \<or> extract_user_key k = t \<and> \<not> extract_sequence k \<le> snap"
proof -
  let ?w = "trailer k"
  have "ucast (?w AND 0xff) = value_type_byte kValue \<or> ucast (?w AND 0xff) = value_type_byte kDeletion"
    using assms(1) by (auto simp: parse_internal_key_def Let_def split: if_splits)
  then have t: "unat (ucast (?w AND 0xff) :: byte) \<le> 1" by (auto simp: value_type_byte_def)
  have "unat (ucast (?w AND 0xff) :: byte) = unat ?w mod 256" by (simp add: low_byte)
  then have m: "unat ?w mod 256 \<le> 1" using t by simp
  have "unat (drop_bit 8 ?w) = unat ?w div 256" by (simp add: drop_bit_eq_div unat_div)
  then have s: "extract_sequence k \<le> snap \<longleftrightarrow> unat ?w div 256 \<le> unat snap"
    by (simp add: extract_sequence_def word_le_nat_alt)
  have "pack_sequence_and_type snap kValue < ?w \<longleftrightarrow> 256 * unat snap + 1 < unat ?w"
    using unat_pack [OF assms(2), of kValue] by (simp add: word_less_nat_alt value_type_byte_def)
  also have "\<dots> \<longleftrightarrow> \<not> unat ?w div 256 \<le> unat snap"
    using m div_mult_mod_eq [of "unat ?w" 256] by linarith
  finally show ?thesis using s by (simp add: cik_less make_lookup_key_def kValueTypeForSeek_def)
qed

lemma before_lookup:
  assumes "parses kvs" "q < length kvs" "snap \<le> kMaxSequenceNumber"
  shows "cmp_compare kInternal (fst (kvs ! q)) (make_lookup_key t snap) < 0 \<longleftrightarrow>
    ukey (kvs ! q) < t \<or> ukey (kvs ! q) = t \<and> \<not> seen snap (kvs ! q)"
proof -
  have "parse_internal_key (fst (kvs ! q)) \<noteq> None" using assms(1) nth_mem [OF assms(2)] unfolding parses_def by blast
  from key_before_lookup [OF this assms(3)] show ?thesis by (simp add: kInternal_def ukey_def seen_def)
qed

lemma shown_less:
  assumes "parses kvs" "shown snap kvs i" "shown snap kvs j" "i < length kvs" "j < length kvs"
  shows "ukey (kvs ! i) < ukey (kvs ! j) \<longleftrightarrow> i < j"
proof
  assume "i < j"
  then have "ukey (kvs ! i) \<noteq> ukey (kvs ! j)" using assms(2,3) by (auto simp: shown_def)
  then show "ukey (kvs ! i) < ukey (kvs ! j)" using ukey_mono [OF assms(1), of i j] \<open>i < j\<close> assms(5) by simp
next
  assume "ukey (kvs ! i) < ukey (kvs ! j)"
  then show "i < j" using ukey_mono [OF assms(1), of j i] assms(4) by (meson leD not_le)
qed

lemma view_ordered: "parses kvs \<Longrightarrow> ordered kBytewise (user_view snap kvs)"
  unfolding ordered_def
proof
  assume p: "parses kvs"
  show "\<forall>x \<in> set (user_view snap kvs). readable kBytewise (fst x)" by (simp add: readable_def kBytewise_def)
  have "cmp_compare kBytewise (fst (user_view snap kvs ! i)) (fst (user_view snap kvs ! j)) < 0"
    if ij: "i < j" "j < length (user_view snap kvs)" for i j
  proof -
    have i: "i < length (user_view snap kvs)" using ij by simp
    obtain a where a: "a < length kvs" "shown snap kvs a" "i = rank snap kvs a" by (rule view_index [OF i])
    obtain b where b: "b < length kvs" "shown snap kvs b" "j = rank snap kvs b" by (rule view_index [OF ij(2)])
    have "a < b" using ij(1) a b rank_less_iff [OF a(2)] by simp
    then show ?thesis using shown_less [OF p a(2) b(2) a(1) b(1)] view_at [OF a(2,1)] view_at [OF b(2,1)] a(3) b(3)
      by (simp add: kBytewise_def bytewise_compare_def sv_compare_less)
  qed
  then show "sorted_wrt (\<lambda>x y. cmp_compare kBytewise (fst x) (fst y) < 0) (user_view snap kvs)"
    by (simp add: sorted_wrt_iff_nth_less)
qed

section \<open>Positions\<close>

text \<open>
  Moving forward the internal iterator stands on the entry that is shown.  Moving back the
  entry \<open>s\<close> is saved, and the internal iterator stands on the last visible entry before
  it, or ran off the front when there is none.
\<close>

definition db_stands :: "(bytes \<times> bytes) list \<Rightarrow> 'i DBIter \<Rightarrow> nat \<Rightarrow> nat \<Rightarrow> bool" where
  "db_stands kvs d p s \<longleftrightarrow> s < length kvs \<and> shown (db_sequence d) kvs s \<and>
     (case db_direction d of
        kForward \<Rightarrow> p = s
      | kReverse \<Rightarrow>
          db_saved_key d = ukey (kvs ! s) \<and> db_saved_value d = snd (kvs ! s) \<and>
          (p < length kvs \<longrightarrow> p < s \<and> seen (db_sequence d) (kvs ! p) \<and> ukey (kvs ! p) < ukey (kvs ! s)) \<and>
          (\<forall>m < s. (p < length kvs \<longrightarrow> p < m) \<longrightarrow> \<not> seen (db_sequence d) (kvs ! m)))"

definition db_at :: "('i \<Rightarrow> (bytes \<times> bytes) list \<Rightarrow> nat \<Rightarrow> bool) \<Rightarrow> u64 \<Rightarrow> (bytes \<times> bytes) list \<Rightarrow> 'i DBIter \<Rightarrow> nat \<Rightarrow> bool" where
  "db_at at snap kvs d r \<longleftrightarrow>
     parses kvs \<and> db_sequence d = snap \<and> snap \<le> kMaxSequenceNumber \<and> db_status d = status_ok \<and>
     r \<le> length (user_view snap kvs) \<and>
     (\<exists>p. at (db_iter d) kvs p \<and>
        (if r < length (user_view snap kvs)
         then db_valid d \<and> (\<exists>s. db_stands kvs d p s \<and> r = rank snap kvs s)
         else \<not> db_valid d))"

text \<open>The part of \<^const>\<open>db_at\<close> that every intermediate state has.\<close>

definition db_ok :: "('i \<Rightarrow> (bytes \<times> bytes) list \<Rightarrow> nat \<Rightarrow> bool) \<Rightarrow> u64 \<Rightarrow> (bytes \<times> bytes) list \<Rightarrow> 'i DBIter \<Rightarrow> nat \<Rightarrow> bool" where
  "db_ok at snap kvs d p \<longleftrightarrow> parses kvs \<and> db_sequence d = snap \<and> snap \<le> kMaxSequenceNumber \<and>
     db_status d = status_ok \<and> at (db_iter d) kvs p"

lemma db_at_ok: "db_at at snap kvs d r \<Longrightarrow> \<exists>p. db_ok at snap kvs d p"
  by (auto simp: db_at_def db_ok_def)

lemma db_ok_ended: "db_ok at snap kvs d p \<Longrightarrow> \<not> db_valid d \<Longrightarrow> r = length (user_view snap kvs) \<Longrightarrow> db_at at snap kvs d r"
  by (auto simp: db_at_def db_ok_def)

lemma db_ok_stands:
  assumes "db_ok at snap kvs d p" "db_valid d" "db_stands kvs d p s" "r = rank snap kvs s"
  shows "db_at at snap kvs d r"
proof -
  have "r < length (user_view snap kvs)" using assms view_at(1) [of snap kvs s] by (simp add: db_ok_def db_stands_def)
  then show ?thesis using assms unfolding db_at_def db_ok_def by auto
qed

text \<open>Where the forward search ends: before \<open>r\<close> are the entries it passes.\<close>

definition passes :: "u64 \<Rightarrow> (bytes \<times> bytes) list \<Rightarrow> nat \<Rightarrow> bool \<Rightarrow> bytes \<Rightarrow> nat \<Rightarrow> bool" where
  "passes snap kvs p skipping skip r \<longleftrightarrow>
     (\<forall>q < length kvs. shown snap kvs q \<longrightarrow> (rank snap kvs q < r \<longleftrightarrow> q < p \<or> skipping \<and> ukey (kvs ! q) \<le> skip))"

text \<open>
  The versions before \<open>p\<close> hide nothing after it that \<open>skip\<close> does not, and no visible
  entry from \<open>p\<close> on is below \<open>skip\<close>.
\<close>

definition covered :: "u64 \<Rightarrow> (bytes \<times> bytes) list \<Rightarrow> nat \<Rightarrow> bool \<Rightarrow> bytes \<Rightarrow> bool" where
  "covered snap kvs p skipping skip \<longleftrightarrow>
     (\<forall>j < p. \<forall>q < length kvs. p \<le> q \<longrightarrow> seen snap (kvs ! j) \<longrightarrow> ukey (kvs ! j) = ukey (kvs ! q) \<longrightarrow>
        skipping \<and> ukey (kvs ! q) \<le> skip) \<and>
     (skipping \<longrightarrow> (\<forall>q < length kvs. p \<le> q \<longrightarrow> seen snap (kvs ! q) \<longrightarrow> skip \<le> ukey (kvs ! q)))"

lemma passes_shown:
  assumes "passes snap kvs p skipping skip r" "shown snap kvs p" "p < length kvs" "\<not> (skipping \<and> ukey (kvs ! p) \<le> skip)"
    and "r \<le> length (user_view snap kvs)"
  shows "r = rank snap kvs p"
proof (rule antisym)
  show "r \<le> rank snap kvs p" using assms by (auto simp: passes_def)
  show "rank snap kvs p \<le> r"
  proof (rule ccontr)
    assume "\<not> rank snap kvs p \<le> r"
    then have r: "r < rank snap kvs p" by simp
    then have "r < length (user_view snap kvs)" using view_at(1) [OF assms(2,3)] by simp
    then obtain q where q: "q < length kvs" "shown snap kvs q" "r = rank snap kvs q" by (rule view_index)
    then have "q < p" using r rank_less_iff [OF q(2)] by simp
    then show False using assms(1) q by (auto simp: passes_def)
  qed
qed

lemma passes_all:
  assumes "passes snap kvs (length kvs) skipping skip r" "r \<le> length (user_view snap kvs)"
  shows "r = length (user_view snap kvs)"
proof (rule ccontr)
  assume "r \<noteq> length (user_view snap kvs)"
  then have "r < length (user_view snap kvs)" using assms(2) by simp
  then obtain q where "q < length kvs" "shown snap kvs q" "r = rank snap kvs q" by (rule view_index)
  then show False using assms(1) by (auto simp: passes_def)
qed

lemma covered_shown:
  "covered snap kvs p skipping skip \<Longrightarrow> p < length kvs \<Longrightarrow> seen snap (kvs ! p) \<Longrightarrow> is_put (kvs ! p) \<Longrightarrow>
   \<not> (skipping \<and> ukey (kvs ! p) \<le> skip) \<Longrightarrow> shown snap kvs p"
  by (auto simp: covered_def shown_def)

text \<open>One entry further: not visible, a tombstone, or a value that is hidden.\<close>

lemma covered_unseen:
  "covered snap kvs p skipping skip \<Longrightarrow> \<not> seen snap (kvs ! p) \<Longrightarrow> covered snap kvs (Suc p) skipping skip"
  by (auto simp: covered_def less_Suc_eq Suc_le_eq)

lemma covered_hidden:
  "covered snap kvs p True skip \<Longrightarrow> ukey (kvs ! p) \<le> skip \<Longrightarrow> covered snap kvs (Suc p) True skip"
  by (auto simp: covered_def less_Suc_eq Suc_le_eq)

lemma covered_deleted:
  assumes "parses kvs" "p < length kvs"
  shows "covered snap kvs (Suc p) True (ukey (kvs ! p))"
  unfolding covered_def
proof (intro conjI allI impI)
  fix j q assume "j < Suc p" "ukey (kvs ! j) = ukey (kvs ! q)"
  then show "ukey (kvs ! q) \<le> ukey (kvs ! p)" using ukey_mono [OF assms(1), of j p] assms(2) by simp
next
  fix q assume "q < length kvs" "Suc p \<le> q"
  then show "ukey (kvs ! p) \<le> ukey (kvs ! q)" using ukey_mono [OF assms(1), of p q] by simp
qed simp

lemma passes_unseen:
  "passes snap kvs p skipping skip r \<Longrightarrow> \<not> seen snap (kvs ! p) \<Longrightarrow> passes snap kvs (Suc p) skipping skip r"
  by (auto simp: passes_def less_Suc_eq shown_def)

lemma passes_hidden:
  "passes snap kvs p True skip r \<Longrightarrow> ukey (kvs ! p) \<le> skip \<Longrightarrow> passes snap kvs (Suc p) True skip r"
  by (auto simp: passes_def less_Suc_eq)

lemma passes_deleted:
  assumes "parses kvs" "p < length kvs" "passes snap kvs p skipping skip r" "covered snap kvs p skipping skip"
    and "seen snap (kvs ! p)" "\<not> is_put (kvs ! p)"
  shows "passes snap kvs (Suc p) True (ukey (kvs ! p)) r"
  unfolding passes_def
proof (intro allI impI)
  fix q assume q: "q < length kvs" "shown snap kvs q"
  have "q \<noteq> p" using q(2) assms(6) by (auto simp: shown_def)
  have "q < p \<or> skipping \<and> ukey (kvs ! q) \<le> skip \<longleftrightarrow> q < Suc p \<or> True \<and> ukey (kvs ! q) \<le> ukey (kvs ! p)"
  proof (cases "q < p")
    case False
    then have "p < q" using \<open>q \<noteq> p\<close> by simp
    then have "ukey (kvs ! p) \<le> ukey (kvs ! q)" "ukey (kvs ! p) \<noteq> ukey (kvs ! q)"
      using ukey_mono [OF assms(1), of p q] q assms(5) by (auto simp: shown_def)
    then show ?thesis using assms(2,4,5) \<open>p < q\<close> by (auto simp: covered_def)
  qed simp
  then show "rank snap kvs q < r \<longleftrightarrow> q < Suc p \<or> True \<and> ukey (kvs ! q) \<le> ukey (kvs ! p)"
    using assms(3) q by (simp add: passes_def)
qed

section \<open>The operations\<close>

locale internal_source = cursor kInternal V at for V :: "'i Iterator" and at
begin

lemma ok_valid: "db_ok at snap kvs d p \<Longrightarrow> it_valid V (db_iter d) \<longleftrightarrow> p < length kvs"
  by (auto simp: db_ok_def at_valid)

lemma ok_key:
  "db_ok at snap kvs d p \<Longrightarrow> p < length kvs \<Longrightarrow> extract_user_key (it_key V (db_iter d)) = ukey (kvs ! p)"
  "db_ok at snap kvs d p \<Longrightarrow> p < length kvs \<Longrightarrow> it_value V (db_iter d) = snd (kvs ! p)"
  by (auto simp: db_ok_def at_key at_value ukey_def)

lemma ok_parse:
  assumes "db_ok at snap kvs d p" "p < length kvs"
  obtains key where "parse_internal_key (it_key V (db_iter d)) = Some key" "user_key key = ukey (kvs ! p)"
    "sequence key \<le> db_sequence d \<longleftrightarrow> seen snap (kvs ! p)" "key_type key = (if is_put (kvs ! p) then kValue else kDeletion)"
proof -
  have "parses kvs" using assms(1) by (simp add: db_ok_def)
  then obtain key where "parse_internal_key (fst (kvs ! p)) = Some key" "user_key key = ukey (kvs ! p)"
    "sequence key = extract_sequence (fst (kvs ! p))" "key_type key = (if is_put (kvs ! p) then kValue else kDeletion)"
    using parse_entry [OF _ assms(2)] by blast
  moreover have "it_key V (db_iter d) = fst (kvs ! p)" "db_sequence d = snap"
    using assms by (auto simp: db_ok_def at_key)
  ultimately show thesis using that by (simp add: seen_def)
qed

lemma on_iter_ok:
  assumes "db_ok at snap kvs d p" "may_do kvs p op"
  shows "\<exists>it. on_iter V op d = Some (d\<lparr>db_iter := it\<rparr>) \<and> at it kvs (cursor_step kInternal kvs p op)"
  using at_do [of "db_iter d" kvs p op] assms by (auto simp: on_iter_def db_ok_def)

lemma ok_update:
  "db_ok at snap kvs d p \<Longrightarrow> at it kvs p' \<Longrightarrow> db_ok at snap kvs (d\<lparr>db_iter := it\<rparr>) p'"
  "db_ok at snap kvs (d\<lparr>db_saved_key := k\<rparr>) p \<longleftrightarrow> db_ok at snap kvs d p"
  "db_ok at snap kvs (d\<lparr>db_saved_value := k\<rparr>) p \<longleftrightarrow> db_ok at snap kvs d p"
  "db_ok at snap kvs (d\<lparr>db_valid := b\<rparr>) p \<longleftrightarrow> db_ok at snap kvs d p"
  "db_ok at snap kvs (d\<lparr>db_direction := dir\<rparr>) p \<longleftrightarrow> db_ok at snap kvs d p"
  "db_ok at snap kvs (forget d) p \<longleftrightarrow> db_ok at snap kvs d p"
  by (auto simp: db_ok_def forget_def)

lemma find_next_at:
  "db_ok at snap kvs d p \<Longrightarrow> p < length kvs \<Longrightarrow> db_direction d = kForward \<Longrightarrow>
   passes snap kvs p skipping (db_saved_key d) r \<Longrightarrow> covered snap kvs p skipping (db_saved_key d) \<Longrightarrow>
   r \<le> length (user_view snap kvs) \<Longrightarrow>
   \<exists>d'. find_next_user_entry V skipping d = Some d' \<and> db_at at snap kvs d' r"
proof (induction "length kvs - p" arbitrary: d p skipping)
  case (Suc n)
  note ok = Suc.prems(1) and p = Suc.prems(2) and pass = Suc.prems(4) and cov = Suc.prems(5)
  obtain key where key: "parse_internal_key (it_key V (db_iter d)) = Some key" "user_key key = ukey (kvs ! p)"
    "sequence key \<le> db_sequence d \<longleftrightarrow> seen snap (kvs ! p)" "key_type key = (if is_put (kvs ! p) then kValue else kDeletion)"
    by (rule ok_parse [OF ok p])
  have ps: "parses kvs" using ok by (simp add: db_ok_def)
  let ?hidden = "skipping \<and> ukey (kvs ! p) \<le> db_saved_key d"
  have hid: "skipping \<and> cmp_compare kBytewise (user_key key) (db_saved_key d) \<le> 0 \<longleftrightarrow> ?hidden"
    by (simp add: key(2) kBytewise_def not_less [symmetric] bytewise_compare_greater)
  let ?deleted = "seen snap (kvs ! p) \<and> \<not> is_put (kvs ! p)"
  show ?case
  proof (cases "seen snap (kvs ! p) \<and> is_put (kvs ! p) \<and> \<not> ?hidden")
    case True
    have sh: "shown snap kvs p" using covered_shown [OF cov p] True by blast
    have "r = rank snap kvs p" using passes_shown [OF pass sh p] True Suc.prems(6) by blast
    then have "db_at at snap kvs (d\<lparr>db_valid := True, db_saved_key := []\<rparr>) r"
      by (intro db_ok_stands [where p = p and s = p]) (use ok p sh Suc.prems(3) in \<open>auto simp: db_ok_def db_stands_def\<close>)
    then show ?thesis using True key hid by (subst find_next_user_entry.simps) (simp add: Let_def)
  next
    case False
    define d1 where "d1 = (if ?deleted then d\<lparr>db_saved_key := ukey (kvs ! p)\<rparr> else d)"
    have d1: "db_ok at snap kvs d1 p" "db_direction d1 = kForward"
      using ok Suc.prems(3) by (simp_all add: d1_def ok_update)
    obtain it where it: "on_iter V Next d1 = Some (d1\<lparr>db_iter := it\<rparr>)" "at it kvs (Suc p)"
      using on_iter_ok [OF d1(1), of Next] p by (auto simp: may_do_def)
    let ?d2 = "d1\<lparr>db_iter := it\<rparr>"
    have ok2: "db_ok at snap kvs ?d2 (Suc p)" by (rule ok_update(1) [OF d1(1) it(2)])
    have next2: "passes snap kvs (Suc p) (skipping \<or> ?deleted) (db_saved_key ?d2) r \<and>
        covered snap kvs (Suc p) (skipping \<or> ?deleted) (db_saved_key ?d2)"
    proof -
      consider "\<not> seen snap (kvs ! p)" | "?deleted" | "seen snap (kvs ! p)" "is_put (kvs ! p)" "?hidden" using False by blast
      then show ?thesis
      proof cases
        case 1 then show ?thesis using passes_unseen [OF pass] covered_unseen [OF cov] by (simp add: d1_def)
      next
        case 2 then show ?thesis using passes_deleted [OF ps p pass cov] covered_deleted [OF ps p] by (simp add: d1_def)
      next
        case 3 then show ?thesis using passes_hidden covered_hidden pass cov by (simp add: d1_def)
      qed
    qed
    have step: "find_next_user_entry V skipping d = (if it_valid V it then find_next_user_entry V (skipping \<or> ?deleted) ?d2
        else Some (?d2\<lparr>db_saved_key := [], db_valid := False\<rparr>))"
    proof -
      have del: "(sequence key \<le> db_sequence d \<and> key_type key = kDeletion) = ?deleted" using key(3,4) by simp
      have d1': "(if ?deleted then d\<lparr>db_saved_key := user_key key\<rparr> else d) = d1" by (simp add: d1_def key(2))
      have guard: "(sequence key \<le> db_sequence d \<and> key_type key = kValue \<and>
          \<not> (skipping \<and> cmp_compare kBytewise (user_key key) (db_saved_key d) \<le> 0)) = False"
        using False key(3,4) by (simp add: hid)
      show ?thesis
        by (subst find_next_user_entry.simps) (simp only: key(1) option.case Let_def del d1' guard it(1) if_False Option.bind.simps, simp)
    qed
    show ?thesis
    proof (cases "Suc p < length kvs")
      case True
      have "n = length kvs - Suc p" using Suc.hyps(2) by simp
      from Suc.hyps(1) [OF this ok2 True] show ?thesis
        using d1(2) next2 Suc.prems(6) step at_valid [OF it(2)] True by simp
    next
      case last: False
      then have "r = length (user_view snap kvs)" using passes_all next2 Suc.prems(6) p by (metis Suc_lessI)
      then have "db_at at snap kvs (?d2\<lparr>db_saved_key := [], db_valid := False\<rparr>) r"
        by (intro db_ok_ended) (use ok2 in \<open>simp_all add: ok_update\<close>)
      then show ?thesis using step at_valid [OF it(2)] last by simp
    qed
  qed
qed simp

text \<open>
  Searching back: with nothing saved the answer is the last shown entry up to the one at
  hand; with \<open>s\<close> saved it is the last one up to \<open>s\<close>, and nothing in between is visible.
\<close>

definition candidate :: "u64 \<Rightarrow> (bytes \<times> bytes) list \<Rightarrow> ValueType \<Rightarrow> 'i DBIter \<Rightarrow> nat \<Rightarrow> nat \<Rightarrow> bool" where
  "candidate snap kvs type d p R \<longleftrightarrow>
     (case type of
        kDeletion \<Rightarrow> R = rank snap kvs p
      | kValue \<Rightarrow> \<exists>s. p \<le> s \<and> s < length kvs \<and> seen snap (kvs ! s) \<and> is_put (kvs ! s) \<and>
          db_saved_key d = ukey (kvs ! s) \<and> db_saved_value d = snd (kvs ! s) \<and>
          (\<forall>m. p \<le> m \<and> m < s \<longrightarrow> \<not> seen snap (kvs ! m)) \<and> R = rank snap kvs (Suc s))"

lemma candidate_step:
  assumes ps: "parses kvs" and p: "p < length kvs" and c: "candidate snap kvs type d (Suc p) R"
    and past: "\<not> (seen snap (kvs ! p) \<and> type \<noteq> kDeletion \<and> ukey (kvs ! p) < db_saved_key d)"
    and type1: "type1 = (if seen snap (kvs ! p) then if is_put (kvs ! p) then kValue else kDeletion else type)"
    and d1: "db_saved_key d1 = (if \<not> seen snap (kvs ! p) then db_saved_key d else if is_put (kvs ! p) then ukey (kvs ! p) else [])"
      "db_saved_value d1 = (if \<not> seen snap (kvs ! p) then db_saved_value d else if is_put (kvs ! p) then snd (kvs ! p) else [])"
  shows "candidate snap kvs type1 d1 p R"
proof (cases "seen snap (kvs ! p)")
  case False
  show ?thesis
  proof (cases type)
    case kDeletion
    then show ?thesis using c False by (simp add: candidate_def type1 rank_Suc shown_def)
  next
    case kValue
    then obtain s where s: "Suc p \<le> s" "s < length kvs" "seen snap (kvs ! s)" "is_put (kvs ! s)" "db_saved_key d = ukey (kvs ! s)"
        "db_saved_value d = snd (kvs ! s)" "\<forall>m. Suc p \<le> m \<and> m < s \<longrightarrow> \<not> seen snap (kvs ! m)" "R = rank snap kvs (Suc s)"
      using c by (auto simp: candidate_def)
    have "\<not> seen snap (kvs ! m)" if "p \<le> m" "m < s" for m using s(7) that False by (cases "m = p") auto
    then show ?thesis using s kValue False d1 unfolding candidate_def type1 by (auto intro!: exI [of _ s])
  qed
next
  case True
  have R: "R = rank snap kvs (Suc p)"
  proof (cases type)
    case kValue
    then obtain s where s: "Suc p \<le> s" "s < length kvs" "db_saved_key d = ukey (kvs ! s)"
        "\<forall>m. Suc p \<le> m \<and> m < s \<longrightarrow> \<not> seen snap (kvs ! m)" "R = rank snap kvs (Suc s)"
      using c by (auto simp: candidate_def)
    have "ukey (kvs ! p) = ukey (kvs ! s)" using past True kValue s ukey_mono [OF ps, of p s] by auto
    then have "\<not> shown snap kvs m" if "Suc p \<le> m" "m < Suc s" for m
      using that s(1,4) True by (cases "m = s") (auto simp: shown_def)
    then have "rank snap kvs (Suc s) = rank snap kvs (Suc p)" using s(1) by (intro rank_flat) simp_all
    then show ?thesis using s(5) by simp
  qed (use c in \<open>simp add: candidate_def\<close>)
  show ?thesis
  proof (cases "is_put (kvs ! p)")
    case put: True
    then show ?thesis using True R d1 p by (auto simp: candidate_def type1 intro: exI [of _ p])
  next
    case False
    then have "\<not> shown snap kvs p" by (simp add: shown_def)
    then show ?thesis using True False R by (simp add: candidate_def type1 rank_Suc)
  qed
qed

text \<open>Where the loop stops the saved entry is the one shown.\<close>

lemma candidate_decided:
  assumes ok: "db_ok at snap kvs d p" and p: "p < length kvs \<Longrightarrow> seen snap (kvs ! p) \<and> type \<noteq> kDeletion \<and> ukey (kvs ! p) < db_saved_key d"
    and c: "candidate snap kvs type d (if p < length kvs then Suc p else 0) R" and dir: "db_direction d = kReverse"
  shows "db_at at snap kvs (decide type d) (before_cut R (user_view snap kvs))"
proof (cases type)
  case kDeletion
  then have "R = 0" "\<not> p < length kvs" using c p by (auto simp: candidate_def split: if_splits)
  then show ?thesis using kDeletion ok
    by (intro db_ok_ended) (auto simp: decide_def before_cut_def ok_update forget_def db_ok_def)
next
  case kValue
  let ?q = "if p < length kvs then Suc p else 0"
  obtain s where s: "?q \<le> s" "s < length kvs" "seen snap (kvs ! s)" "is_put (kvs ! s)" "db_saved_key d = ukey (kvs ! s)"
      "db_saved_value d = snd (kvs ! s)" "\<forall>m. ?q \<le> m \<and> m < s \<longrightarrow> \<not> seen snap (kvs ! m)" "R = rank snap kvs (Suc s)"
    using c kValue by (auto simp: candidate_def)
  have ps: "parses kvs" using ok by (simp add: db_ok_def)
  have "ukey (kvs ! j) \<noteq> ukey (kvs ! s)" if j: "j < s" "seen snap (kvs ! j)" for j
  proof -
    have "\<not> ?q \<le> j" using s(7) j by blast
    then have "p < length kvs" "j \<le> p" by (auto split: if_splits)
    then show ?thesis using ukey_mono [OF ps, of j p] p s(5) by auto
  qed
  then have sh: "shown snap kvs s" using s(3,4) by (auto simp: shown_def)
  have "before_cut R (user_view snap kvs) = rank snap kvs s" using s(8) sh by (simp add: before_cut_def rank_Suc)
  moreover have "db_stands kvs (d\<lparr>db_valid := True\<rparr>) p s"
    using ok sh s p dir kValue by (auto simp: db_stands_def db_ok_def split: if_splits)
  ultimately show ?thesis using ok kValue
    by (intro db_ok_stands [where p = p and s = s]) (auto simp: decide_def ok_update)
qed

lemma find_prev_loop_at:
  "db_ok at snap kvs d p \<Longrightarrow> p < length kvs \<Longrightarrow> db_direction d = kReverse \<Longrightarrow> candidate snap kvs type d (Suc p) R \<Longrightarrow>
   \<exists>d'. find_prev_loop V type d = Some d' \<and> db_at at snap kvs d' (before_cut R (user_view snap kvs))"
proof (induction p arbitrary: d type rule: less_induct)
  case (less p)
  note ok = less.prems(1) and p = less.prems(2) and c = less.prems(4)
  obtain key where key: "parse_internal_key (it_key V (db_iter d)) = Some key" "user_key key = ukey (kvs ! p)"
    "sequence key \<le> db_sequence d \<longleftrightarrow> seen snap (kvs ! p)" "key_type key = (if is_put (kvs ! p) then kValue else kDeletion)"
    by (rule ok_parse [OF ok p])
  have ps: "parses kvs" using ok by (simp add: db_ok_def)
  let ?past = "seen snap (kvs ! p) \<and> type \<noteq> kDeletion \<and> ukey (kvs ! p) < db_saved_key d"
  have past: "(sequence key \<le> db_sequence d \<and> type \<noteq> kDeletion \<and> cmp_compare kBytewise (user_key key) (db_saved_key d) < 0) = ?past"
    using key(2,3) by (simp add: kBytewise_def bytewise_compare_less)
  show ?case
  proof (cases ?past)
    case True
    then show ?thesis using candidate_decided [OF ok, of type R] p c less.prems(3) key(1) past
      by (subst find_prev_loop.simps) (simp add: Let_def)
  next
    case False
    define type1 where "type1 = (if seen snap (kvs ! p) then if is_put (kvs ! p) then kValue else kDeletion else type)"
    define d1 where "d1 = (if \<not> seen snap (kvs ! p) then d
        else if \<not> is_put (kvs ! p) then d\<lparr>db_saved_key := [], db_saved_value := []\<rparr>
        else d\<lparr>db_saved_key := ukey (kvs ! p), db_saved_value := snd (kvs ! p)\<rparr>)"
    have d1: "db_ok at snap kvs d1 p" "db_direction d1 = kReverse"
      using ok less.prems(3) by (simp_all add: d1_def ok_update)
    let ?p = "if p = 0 then length kvs else p - 1"
    obtain it where it: "on_iter V Prev d1 = Some (d1\<lparr>db_iter := it\<rparr>)" "at it kvs ?p"
      using on_iter_ok [OF d1(1), of Prev] p by (auto simp: may_do_def)
    let ?d2 = "d1\<lparr>db_iter := it\<rparr>"
    have ok2: "db_ok at snap kvs ?d2 ?p" by (rule ok_update(1) [OF d1(1) it(2)])
    have c2: "candidate snap kvs type1 ?d2 p R"
      by (rule candidate_step [OF ps p c False type1_def]) (simp_all add: d1_def)
    have step: "find_prev_loop V type d = (if it_valid V it then find_prev_loop V type1 ?d2 else Some (decide type1 ?d2))"
    proof -
      have t1: "(if seen snap (kvs ! p) then key_type key else type) = type1" by (simp add: type1_def key(4))
      have e: "(if \<not> seen snap (kvs ! p) then d else if key_type key = kDeletion then d\<lparr>db_saved_key := [], db_saved_value := []\<rparr>
          else d\<lparr>db_saved_key := user_key key, db_saved_value := it_value V (db_iter d)\<rparr>) = d1"
        using key(2,4) ok_key(2) [OF ok p] by (simp add: d1_def)
      have np: "(seen snap (kvs ! p) \<and> type \<noteq> kDeletion \<and> cmp_compare kBytewise (user_key key) (db_saved_key d) < 0) = False"
        using past False key(3) by simp
      show ?thesis
        by (subst find_prev_loop.simps) (simp only: key(1) option.case Let_def key(3) np t1 e it(1) if_False Option.bind.simps, simp)
    qed
    show ?thesis
    proof (cases "p = 0")
      case True
      then have "db_at at snap kvs (decide type1 ?d2) (before_cut R (user_view snap kvs))"
        using candidate_decided [OF ok2, of type1 R] c2 d1(2) by simp
      then show ?thesis using step at_valid [OF it(2)] True by simp
    next
      case False
      then have "Suc ?p = p" "?p < p" "?p < length kvs" using p by auto
      then show ?thesis using less.IH [of ?p ?d2 type1] ok2 d1(2) c2 step at_valid [OF it(2)] by simp
    qed
  qed
qed

lemma find_prev_at:
  assumes ok: "db_ok at snap kvs d p" and dir: "db_direction d = kReverse" and R: "R = (if p < length kvs then rank snap kvs (Suc p) else 0)"
  shows "\<exists>d'. find_prev_user_entry V d = Some d' \<and> db_at at snap kvs d' (before_cut R (user_view snap kvs))"
proof (cases "p < length kvs")
  case True
  then show ?thesis using find_prev_loop_at [OF ok True dir, of kDeletion R] R ok_valid [OF ok]
    by (simp add: find_prev_user_entry_def candidate_def)
next
  case False
  then show ?thesis using candidate_decided [OF ok, of kDeletion R] R dir ok_valid [OF ok]
    by (simp add: find_prev_user_entry_def candidate_def)
qed

lemma first_entry_at:
  assumes ok: "db_ok at snap kvs d p" and dir: "db_direction d = kForward"
    and "passes snap kvs p False (db_saved_key d) r" "covered snap kvs p False (db_saved_key d)" "r \<le> length (user_view snap kvs)"
  shows "\<exists>d'. first_entry V d = Some d' \<and> db_at at snap kvs d' r"
proof (cases "p < length kvs")
  case True
  then show ?thesis using find_next_at [OF ok True dir assms(3-5)] ok_valid [OF ok] by (simp add: first_entry_def)
next
  case False
  moreover have "p \<le> length kvs" using ok at_le by (auto simp: db_ok_def)
  ultimately have "r = length (user_view snap kvs)" using passes_all assms(3,5) by (metis le_neq_implies_less)
  then have "db_at at snap kvs (d\<lparr>db_valid := False\<rparr>) r" by (intro db_ok_ended) (use ok in \<open>simp_all add: ok_update\<close>)
  then show ?thesis using False ok_valid [OF ok] by (simp add: first_entry_def)
qed

lemma db_first_at:
  assumes "db_at at snap kvs d r"
  shows "\<exists>d'. db_seek_to_first V d = Some d' \<and> db_at at snap kvs d' 0"
proof -
  let ?d = "d\<lparr>db_direction := kForward, db_saved_value := []\<rparr>"
  obtain p where "db_ok at snap kvs ?d p" using db_at_ok [OF assms] by (auto simp: ok_update)
  moreover from this obtain it where "on_iter V SeekToFirst ?d = Some (?d\<lparr>db_iter := it\<rparr>)" "at it kvs 0"
    using on_iter_ok [of snap kvs ?d p SeekToFirst] by (auto simp: may_do_def)
  ultimately show ?thesis
    using first_entry_at [OF ok_update(1), of snap kvs ?d p it 0 0] by (auto simp: db_seek_to_first_def passes_def covered_def)
qed

lemma db_last_at:
  assumes "db_at at snap kvs d r"
  shows "\<exists>d'. db_seek_to_last V d = Some d' \<and> db_at at snap kvs d' (length (user_view snap kvs) - 1)"
proof -
  let ?d = "d\<lparr>db_direction := kReverse, db_saved_value := []\<rparr>" and ?p = "length kvs - 1"
  obtain p where ok: "db_ok at snap kvs ?d p" using db_at_ok [OF assms] by (auto simp: ok_update)
  then obtain it where it: "on_iter V SeekToLast ?d = Some (?d\<lparr>db_iter := it\<rparr>)" "at it kvs ?p"
    using on_iter_ok [of snap kvs ?d p SeekToLast] by (auto simp: may_do_def)
  have "length (user_view snap kvs) = (if ?p < length kvs then rank snap kvs (Suc ?p) else 0)"
    by (cases kvs) (simp_all add: rank_all [symmetric])
  moreover have "before_cut (length (user_view snap kvs)) (user_view snap kvs) = length (user_view snap kvs) - 1"
    by (simp add: before_cut_def)
  ultimately show ?thesis
    using find_prev_at [OF ok_update(1) [OF ok it(2)], of "length (user_view snap kvs)"] it(1) by (simp add: db_seek_to_last_def)
qed

lemma db_at_stands:
  assumes "db_at at snap kvs d r" "r < length (user_view snap kvs)"
  obtains p s where "db_ok at snap kvs d p" "db_stands kvs d p s" "r = rank snap kvs s" "db_valid d" "s < length kvs" "shown snap kvs s"
    "parses kvs"
  using assms by (auto simp: db_at_def db_ok_def db_stands_def)

text \<open>After the shown entry \<open>s\<close>, with its key to be skipped, comes the next one.\<close>

lemma passes_next:
  assumes "parses kvs" "s < length kvs" "shown snap kvs s" "p \<le> Suc s"
  shows "passes snap kvs p True (ukey (kvs ! s)) (Suc (rank snap kvs s))"
  unfolding passes_def
proof (intro allI impI)
  fix q assume q: "q < length kvs" "shown snap kvs q"
  have "rank snap kvs q < Suc (rank snap kvs s) \<longleftrightarrow> q \<le> s"
    using rank_less_iff [OF assms(3), of q] by (metis leI less_Suc_eq_le linorder_not_less)
  moreover have "ukey (kvs ! q) \<le> ukey (kvs ! s) \<longleftrightarrow> q \<le> s"
    using shown_less [OF assms(1,3) q(2) assms(2) q(1)] by (metis linorder_not_less)
  ultimately show "rank snap kvs q < Suc (rank snap kvs s) \<longleftrightarrow> q < p \<or> True \<and> ukey (kvs ! q) \<le> ukey (kvs ! s)"
    using assms(4) by auto
qed

lemma next_found:
  assumes ok: "db_ok at snap kvs d p" and dir: "db_direction d = kForward" and s: "s < length kvs" "shown snap kvs s"
    and p: "p \<le> Suc s" and key: "db_saved_key d = ukey (kvs ! s)" and cov: "covered snap kvs p True (ukey (kvs ! s))"
  shows "\<exists>d'. (if \<not> it_valid V (db_iter d) then Some (d\<lparr>db_valid := False, db_saved_key := []\<rparr>)
             else find_next_user_entry V True d) = Some d' \<and> db_at at snap kvs d' (Suc (rank snap kvs s))"
proof -
  have ps: "parses kvs" using ok by (simp add: db_ok_def)
  have r: "Suc (rank snap kvs s) \<le> length (user_view snap kvs)" using view_at(1) [OF s(2,1)] by simp
  note pass = passes_next [OF ps s p]
  show ?thesis
  proof (cases "p < length kvs")
    case True
    then show ?thesis using find_next_at [OF ok True dir, of True] pass cov r ok_valid [OF ok] key by simp
  next
    case False
    moreover have "p \<le> length kvs" using ok at_le by (auto simp: db_ok_def)
    ultimately have "p = length kvs" by simp
    then have "Suc (rank snap kvs s) = length (user_view snap kvs)" using passes_all pass r by blast
    then have "db_at at snap kvs (d\<lparr>db_valid := False, db_saved_key := []\<rparr>) (Suc (rank snap kvs s))"
      by (intro db_ok_ended) (use ok in \<open>simp_all add: ok_update\<close>)
    then show ?thesis using False ok_valid [OF ok] by simp
  qed
qed

lemma db_next_at:
  assumes "db_at at snap kvs d r" "r < length (user_view snap kvs)"
  shows "\<exists>d'. db_next V d = Some d' \<and> db_at at snap kvs d' (Suc r)"
proof -
  obtain p s where ok: "db_ok at snap kvs d p" and st: "db_stands kvs d p s" and r: "r = rank snap kvs s"
    and s: "s < length kvs" "shown snap kvs s" and ps: "parses kvs" by (rule db_at_stands [OF assms])
  show ?thesis
  proof (cases "db_direction d")
    case kForward
    then have p: "p = s" using st by (simp add: db_stands_def)
    let ?d = "d\<lparr>db_saved_key := ukey (kvs ! s)\<rparr>"
    have ok': "db_ok at snap kvs ?d s" using ok p by (simp add: ok_update)
    obtain it where it: "on_iter V Next ?d = Some (?d\<lparr>db_iter := it\<rparr>)" "at it kvs (Suc s)"
      using on_iter_ok [OF ok', of Next] s(1) by (auto simp: may_do_def)
    show ?thesis
      using next_found [OF ok_update(1) [OF ok' it(2)] _ s order_refl _ covered_deleted [OF ps s(1)]] kForward it(1) r
        ok_key(1) [OF ok] p s(1) by (simp add: db_next_def)
  next
    case kReverse
    let ?d = "d\<lparr>db_direction := kForward\<rparr>" and ?p = "if p < length kvs then Suc p else 0"
    have ok': "db_ok at snap kvs ?d p" using ok by (simp add: ok_update)
    have b: "db_saved_key d = ukey (kvs ! s)" "p < length kvs \<Longrightarrow> p < s \<and> ukey (kvs ! p) < ukey (kvs ! s)"
        "\<And>m. m < s \<Longrightarrow> ?p \<le> m \<Longrightarrow> \<not> seen snap (kvs ! m)"
      using st ok kReverse by (auto simp: db_stands_def db_ok_def)
    obtain it where it: "on_iter V (if \<not> it_valid V (db_iter d) then SeekToFirst else Next) ?d = Some (?d\<lparr>db_iter := it\<rparr>)" "at it kvs ?p"
      using on_iter_ok [OF ok', of "if p < length kvs then Next else SeekToFirst"] ok_valid [OF ok] by (auto simp: may_do_def split: if_splits)
    have "covered snap kvs ?p True (ukey (kvs ! s))"
      unfolding covered_def
    proof (intro conjI allI impI)
      fix j q assume "j < ?p" "ukey (kvs ! j) = ukey (kvs ! q)"
      then show "ukey (kvs ! q) \<le> ukey (kvs ! s)" using ukey_mono [OF ps, of j p] b(2) by (auto split: if_splits)
    next
      fix q assume "q < length kvs" "?p \<le> q" "seen snap (kvs ! q)"
      then show "ukey (kvs ! s) \<le> ukey (kvs ! q)" using b(3) ukey_mono [OF ps, of s q] by (meson not_less)
    qed simp
    moreover have "?p \<le> Suc s" using b(2) by auto
    ultimately show ?thesis
      using next_found [OF ok_update(1) [OF ok' it(2)] _ s] kReverse it(1) r b(1) by (simp add: db_next_def)
  qed
qed

lemma prev_loop_at:
  "db_ok at snap kvs d p \<Longrightarrow> p < length kvs \<Longrightarrow> db_direction d = kForward \<Longrightarrow> s < length kvs \<Longrightarrow> shown snap kvs s \<Longrightarrow> p \<le> s \<Longrightarrow>
   db_saved_key d = ukey (kvs ! s) \<Longrightarrow> (\<And>m. p \<le> m \<Longrightarrow> m \<le> s \<Longrightarrow> ukey (kvs ! m) = ukey (kvs ! s)) \<Longrightarrow>
   \<exists>d'. prev_loop V d = Some d' \<and> db_at at snap kvs d' (before_cut (rank snap kvs s) (user_view snap kvs))"
proof (induction p arbitrary: d rule: less_induct)
  case (less p)
  note ok = less.prems(1) and s = less.prems(4,5) and same = less.prems(8)
  let ?p = "if p = 0 then length kvs else p - 1"
  obtain it where it: "on_iter V Prev d = Some (d\<lparr>db_iter := it\<rparr>)" "at it kvs ?p"
    using on_iter_ok [OF ok, of Prev] less.prems(2) by (auto simp: may_do_def)
  let ?d = "d\<lparr>db_iter := it\<rparr>"
  have ok': "db_ok at snap kvs ?d ?p" by (rule ok_update(1) [OF ok it(2)])
  have ps: "parses kvs" using ok by (simp add: db_ok_def)
  have "\<not> shown snap kvs m" if "p \<le> m" "m < s" for m
    using s(2) same [OF that(1) less_imp_le [OF that(2)]] that(2) unfolding shown_def by blast
  then have flat: "rank snap kvs s = rank snap kvs p" by (rule rank_flat [OF less.prems(6)])
  show ?case
  proof (cases "p = 0")
    case True
    then have "rank snap kvs s = 0" using flat by simp
    then have "db_at at snap kvs (forget ?d) (before_cut (rank snap kvs s) (user_view snap kvs))"
      using ok' by (intro db_ok_ended) (simp_all add: ok_update before_cut_def, simp add: forget_def)
    then show ?thesis using it(1) ok_valid [OF ok'] True by (subst prev_loop.simps) simp
  next
    case False
    then have p: "?p < p" "Suc ?p = p" "?p < length kvs" using less.prems(2) by auto
    have uk: "extract_user_key (it_key V it) = ukey (kvs ! ?p)" using ok_key(1) [OF ok' p(3)] by simp
    have le: "ukey (kvs ! ?p) \<le> ukey (kvs ! s)" using ukey_mono [OF ps, of ?p s] less.prems(6) s(1) p by simp
    have step: "prev_loop V d = (if ukey (kvs ! ?p) < ukey (kvs ! s) then find_prev_user_entry V (?d\<lparr>db_direction := kReverse\<rparr>)
        else prev_loop V ?d)"
      using it(1) ok_valid [OF ok'] p(3) uk less.prems(7)
      by (subst prev_loop.simps) (simp add: kBytewise_def bytewise_compare_less del: if_split cong: if_cong)
    show ?thesis
    proof (cases "ukey (kvs ! ?p) < ukey (kvs ! s)")
      case True
      have "rank snap kvs s = (if ?p < length kvs then rank snap kvs (Suc ?p) else 0)" using flat p(2,3) by simp
      then show ?thesis using find_prev_at [of snap kvs "?d\<lparr>db_direction := kReverse\<rparr>" ?p "rank snap kvs s"] ok' step True
        by (simp add: ok_update)
    next
      case False
      have same': "ukey (kvs ! m) = ukey (kvs ! s)" if "?p \<le> m" "m \<le> s" for m
        using that same [of m] p(2) le False by (cases "m = ?p") auto
      have "\<exists>d'. prev_loop V ?d = Some d' \<and> db_at at snap kvs d' (before_cut (rank snap kvs s) (user_view snap kvs))"
        by (rule less.IH [OF p(1) ok' p(3) _ s _ _ same']) (use less.prems(3,6,7) p(1) in auto)
      then show ?thesis using step False by metis
    qed
  qed
qed

lemma db_prev_at:
  assumes "db_at at snap kvs d r" "r < length (user_view snap kvs)"
  shows "\<exists>d'. db_prev V d = Some d' \<and> db_at at snap kvs d' (before_cut r (user_view snap kvs))"
proof -
  obtain p s where ok: "db_ok at snap kvs d p" and st: "db_stands kvs d p s" and r: "r = rank snap kvs s"
    and s: "s < length kvs" "shown snap kvs s" by (rule db_at_stands [OF assms])
  show ?thesis
  proof (cases "db_direction d")
    case kForward
    then have p: "p = s" using st by (simp add: db_stands_def)
    have "db_ok at snap kvs (d\<lparr>db_saved_key := ukey (kvs ! s)\<rparr>) s" using ok p by (simp add: ok_update)
    then have "\<exists>d'. prev_loop V (d\<lparr>db_saved_key := ukey (kvs ! s)\<rparr>) = Some d' \<and>
        db_at at snap kvs d' (before_cut (rank snap kvs s) (user_view snap kvs))"
      by (rule prev_loop_at [OF _ s(1) _ s order_refl]) (use kForward le_antisym in auto)
    then show ?thesis using kForward r ok_key(1) [OF ok] p s(1) by (simp add: db_prev_def)
  next
    case kReverse
    have flat: "r = (if p < length kvs then rank snap kvs (Suc p) else 0)"
    proof (cases "p < length kvs")
      case True
      then have "Suc p \<le> s" "\<And>m. Suc p \<le> m \<Longrightarrow> m < s \<Longrightarrow> \<not> shown snap kvs m"
        using st kReverse ok by (auto simp: db_stands_def db_ok_def shown_def)
      then show ?thesis using rank_flat [of "Suc p" s snap kvs] r True by simp
    next
      case False
      then have "\<not> shown snap kvs m" if "m < s" for m
        using st kReverse ok that by (auto simp: db_stands_def db_ok_def shown_def)
      then show ?thesis using rank_flat [of 0 s snap kvs] r False by simp
    qed
    then show ?thesis using find_prev_at [OF ok kReverse flat] kReverse by (simp add: db_prev_def)
  qed
qed

lemma db_seek_at:
  assumes "db_at at snap kvs d r" "length t + 8 < 2 ^ 32"
  shows "\<exists>d'. db_seek V t d = Some d' \<and> db_at at snap kvs d' (lower_bound kBytewise t (user_view snap kvs))"
proof -
  let ?lk = "make_lookup_key t snap" and ?r = "lower_bound kBytewise t (user_view snap kvs)"
  let ?d = "d\<lparr>db_direction := kForward, db_saved_value := [], db_saved_key := ?lk\<rparr>" and ?p = "lower_bound kInternal ?lk kvs"
  obtain p where ok: "db_ok at snap kvs ?d p" using db_at_ok [OF assms(1)] by (auto simp: ok_update)
  have ps: "parses kvs" and snap: "snap \<le> kMaxSequenceNumber" "db_sequence d = snap" using ok by (simp_all add: db_ok_def)
  obtain it where it: "on_iter V (Seek ?lk) ?d = Some (?d\<lparr>db_iter := it\<rparr>)" "at it kvs ?p"
    using on_iter_ok [OF ok, of "Seek ?lk"] assms(2) by (auto simp: may_do_def make_lookup_key_def)
  have before: "q < ?p \<longleftrightarrow> ukey (kvs ! q) < t \<or> ukey (kvs ! q) = t \<and> \<not> seen snap (kvs ! q)" if "q < length kvs" for q
    using ik.lower_bound_iff [of kvs q ?lk] before_lookup [OF ps that snap(1), of t] ps that by (simp add: parses_def)
  have "passes snap kvs ?p False ?lk ?r"
    unfolding passes_def
  proof (intro allI impI)
    fix q assume q: "q < length kvs" "shown snap kvs q"
    have "rank snap kvs q < ?r \<longleftrightarrow> ukey (kvs ! q) < t"
      using bw.lower_bound_iff [OF view_ordered [OF ps], of "rank snap kvs q" snap t] view_at [OF q(2,1)]
      by (simp add: kBytewise_def bytewise_compare_less)
    then show "rank snap kvs q < ?r \<longleftrightarrow> q < ?p \<or> False \<and> ukey (kvs ! q) \<le> ?lk"
      using before [OF q(1)] q(2) by (simp add: shown_def)
  qed
  moreover have "covered snap kvs ?p False ?lk"
    unfolding covered_def
  proof (intro conjI allI impI)
    fix j q assume j: "j < ?p" and q: "q < length kvs" "?p \<le> q" and "seen snap (kvs ! j)" "ukey (kvs ! j) = ukey (kvs ! q)"
    then show False using before [of j] before [OF q(1)] by simp
    then show "ukey (kvs ! q) \<le> ?lk" ..
  qed simp
  moreover have "?r \<le> length (user_view snap kvs)" by (simp add: lower_bound_def length_takeWhile_le)
  ultimately show ?thesis
    using first_entry_at [OF ok_update(1) [OF ok it(2)]] it(1) snap(2) by (simp add: db_seek_def)
qed

lemma db_observed:
  assumes "db_at at snap kvs d r"
  shows "it_valid (DBIterator V) d \<longleftrightarrow> r < length (user_view snap kvs)"
    and "r < length (user_view snap kvs) \<Longrightarrow> it_key (DBIterator V) d = fst (user_view snap kvs ! r) \<and>
      it_value (DBIterator V) d = snd (user_view snap kvs ! r)"
    and "it_status (DBIterator V) d = status_ok"
proof -
  show "it_valid (DBIterator V) d \<longleftrightarrow> r < length (user_view snap kvs)"
    using assms by (auto simp: DBIterator_def db_at_def split: if_splits)
  show "it_status (DBIterator V) d = status_ok"
    using db_at_ok [OF assms] at_status by (auto simp: DBIterator_def db_get_status_def db_ok_def)
  assume r: "r < length (user_view snap kvs)"
  obtain p s where "db_ok at snap kvs d p" "db_stands kvs d p s" "r = rank snap kvs s" "s < length kvs" "shown snap kvs s"
    by (rule db_at_stands [OF assms r])
  then show "it_key (DBIterator V) d = fst (user_view snap kvs ! r) \<and> it_value (DBIterator V) d = snd (user_view snap kvs ! r)"
    using ok_key view_at(2) [of snap kvs s]
    by (cases "db_direction d") (auto simp: DBIterator_def db_key_def db_value_def db_stands_def)
qed

lemma db_run:
  assumes at: "db_at at snap kvs d n" and ops: "\<forall>t. Seek t \<in> set ops \<longrightarrow> length t + 8 < 2 ^ 32"
    and r: "r = foldl (cursor_step kBytewise (user_view snap kvs)) n ops"
  shows "\<exists>d'. it_run (DBIterator V) ops d = Some d' \<and> db_at at snap kvs d' r"
  unfolding r
proof (rule it_run_steps [where P = "\<lambda>d r. db_at at snap kvs d r"])
  fix d r op assume a: "db_at at snap kvs d r" and op: "op \<in> set ops" "op = Next \<or> op = Prev \<longrightarrow> r < length (user_view snap kvs)"
  show "\<exists>d'. it_do (DBIterator V) op d = Some d' \<and> db_at at snap kvs d' (cursor_step kBytewise (user_view snap kvs) r op)"
    using db_first_at [OF a] db_last_at [OF a] db_seek_at [OF a] db_next_at [OF a] db_prev_at [OF a] op ops
    by (cases op) (auto simp: DBIterator_def before_cut_def)
qed (use db_observed(1) at in auto)

lemma new_db_iterator_at:
  assumes "parses kvs" "at it kvs p" "snap \<le> kMaxSequenceNumber"
  shows "db_at at snap kvs (new_db_iterator it snap) (length (user_view snap kvs))"
  using assms by (auto simp: db_at_def new_db_iterator_def)

end

interpretation db_memtables: internal_source "MergedIterator kInternal MemTableIterator" "merged_at kInternal mem_at" ..

section \<open>Properties\<close>

text \<open>Shown are the keys whose newest visible version is a value, with that value.\<close>

lemma view_newest:
  assumes ps: "parses kvs"
  shows "(k, v) \<in> set (user_view snap kvs) \<longleftrightarrow>
    (\<exists>e \<in> set kvs. ukey e = k \<and> snd e = v \<and> is_put e \<and> seen snap e \<and>
       (\<forall>x \<in> set kvs. ukey x = k \<and> seen snap x \<longrightarrow> extract_sequence (fst x) \<le> extract_sequence (fst e)))"
proof -
  have tr: "trailer (fst (kvs ! j)) < trailer (fst (kvs ! i))" if "i < j" "j < length kvs" "ukey (kvs ! i) = ukey (kvs ! j)" for i j
    using ik.ordered_less [of kvs i j] ps that by (auto simp: parses_def kInternal_def cik_less ukey_def)
  have sq: "extract_sequence a \<le> extract_sequence b" if "trailer a \<le> trailer b" for a b
    using that by (simp add: extract_sequence_def drop_bit_eq_div word_le_nat_alt unat_div div_le_mono)
  have low: "\<not> trailer (fst (kvs ! i)) < trailer (fst (kvs ! j))"
    if j: "j < length kvs" and same: "extract_sequence (fst (kvs ! j)) = extract_sequence (fst (kvs ! i))" and put: "is_put (kvs ! i)" for i j
  proof -
    let ?a = "trailer (fst (kvs ! i))" and ?b = "trailer (fst (kvs ! j))"
    obtain key where "parse_internal_key (fst (kvs ! j)) = Some key" by (rule parse_entry [OF ps j])
    then have "unat (ucast (?b AND 0xff) :: byte) \<le> 1" by (auto simp: parse_internal_key_def Let_def value_type_byte_def split: if_splits)
    then have "unat ?b mod 256 \<le> unat ?a mod 256" using put low_byte [of ?a] low_byte [of ?b]
      by (simp add: is_put_def extract_value_type_def value_type_byte_def)
    moreover have "unat ?b div 256 = unat ?a div 256"
      using arg_cong [OF same, of unat] by (simp add: extract_sequence_def drop_bit_eq_div unat_div)
    ultimately show ?thesis using div_mult_mod_eq [of "unat ?a" 256] div_mult_mod_eq [of "unat ?b" 256]
      unfolding word_less_nat_alt by linarith
  qed
  have iff: "shown snap kvs i \<longleftrightarrow> is_put (kvs ! i) \<and> seen snap (kvs ! i) \<and>
      (\<forall>x \<in> set kvs. ukey x = ukey (kvs ! i) \<and> seen snap x \<longrightarrow> extract_sequence (fst x) \<le> extract_sequence (fst (kvs ! i)))"
    (is "_ \<longleftrightarrow> ?new i") if i: "i < length kvs" for i
  proof
    assume sh: "shown snap kvs i"
    have "extract_sequence (fst (kvs ! j)) \<le> extract_sequence (fst (kvs ! i))"
      if j: "j < length kvs" "ukey (kvs ! j) = ukey (kvs ! i)" "seen snap (kvs ! j)" for j
    proof -
      have "\<not> j < i" using sh j by (auto simp: shown_def)
      then have "j = i \<or> trailer (fst (kvs ! j)) < trailer (fst (kvs ! i))" using tr [of i j] j by (metis linorder_neqE_nat)
      then show ?thesis using sq by auto
    qed
    then have "\<forall>x \<in> set kvs. ukey x = ukey (kvs ! i) \<and> seen snap x \<longrightarrow> extract_sequence (fst x) \<le> extract_sequence (fst (kvs ! i))"
      by (metis in_set_conv_nth)
    then show "?new i" using sh by (simp add: shown_def)
  next
    assume new: "?new i"
    have "ukey (kvs ! j) \<noteq> ukey (kvs ! i)" if j: "j < i" "seen snap (kvs ! j)" for j
    proof
      assume u: "ukey (kvs ! j) = ukey (kvs ! i)"
      have lt: "trailer (fst (kvs ! i)) < trailer (fst (kvs ! j))" using tr [of j i] j i u by simp
      have "kvs ! j \<in> set kvs" using i j by simp
      then have "extract_sequence (fst (kvs ! j)) = extract_sequence (fst (kvs ! i))"
        using new u j(2) sq [of "fst (kvs ! i)" "fst (kvs ! j)"] lt by (meson antisym less_imp_le)
      then show False using low [of j i] lt new i j by auto
    qed
    then show "shown snap kvs i" using new by (auto simp: shown_def)
  qed
  let ?Q = "\<lambda>e. ukey e = k \<and> snd e = v \<and> is_put e \<and> seen snap e \<and>
      (\<forall>x \<in> set kvs. ukey x = k \<and> seen snap x \<longrightarrow> extract_sequence (fst x) \<le> extract_sequence (fst e))"
  have conv: "(shown snap kvs i \<and> ukey (kvs ! i) = k \<and> snd (kvs ! i) = v) = ?Q (kvs ! i)" if "i < length kvs" for i
    by (cases "ukey (kvs ! i) = k") (simp_all add: iff [OF that] conj_ac)
  have "(k, v) \<in> set (user_view snap kvs) \<longleftrightarrow> (\<exists>i < length kvs. shown snap kvs i \<and> ukey (kvs ! i) = k \<and> snd (kvs ! i) = v)"
    by (auto simp: user_view_def)
  also have "\<dots> \<longleftrightarrow> (\<exists>i < length kvs. ?Q (kvs ! i))" by (intro ex_cong1 conj_cong refl conv)
  also have "\<dots> \<longleftrightarrow> (\<exists>e \<in> set kvs. ?Q e)" unfolding Bex_def in_set_conv_nth by blast
  finally show ?thesis .
qed

text \<open>
  C3. A scan shows the snapshot.  Over any internal iterator that keeps the contract, whose
  keys are well formed, every sequence of seeks, nexts and prevs returns and stands where a
  cursor into one list stands.  That list has, in ascending key order, each user key
  whose newest version at or below the snapshot is a value, once, with that value: no
  deleted or overwritten value surfaces, no live key is skipped, in either direction and
  after any change of direction.
\<close>

theorem db_iterator_shows_snapshot:
  assumes "cursor kInternal V at" "at it kvs p" "parses kvs" "snap \<le> kMaxSequenceNumber"
    and "\<forall>t. Seek t \<in> set ops \<longrightarrow> length t + 8 < 2 ^ 32"
    and "U = user_view snap kvs" "r = foldl (cursor_step kBytewise U) (length U) ops"
  shows "(\<exists>d. it_run (DBIterator V) ops (new_db_iterator it snap) = Some d \<and> it_status (DBIterator V) d = status_ok \<and>
      (it_valid (DBIterator V) d \<longleftrightarrow> r < length U) \<and>
      (r < length U \<longrightarrow> it_key (DBIterator V) d = fst (U ! r) \<and> it_value (DBIterator V) d = snd (U ! r))) \<and>
    ordered kBytewise U \<and>
    (\<forall>k v. (k, v) \<in> set U \<longleftrightarrow>
      (\<exists>e \<in> set kvs. ukey e = k \<and> snd e = v \<and> is_put e \<and> seen snap e \<and>
         (\<forall>x \<in> set kvs. ukey x = k \<and> seen snap x \<longrightarrow> extract_sequence (fst x) \<le> extract_sequence (fst e))))"
proof (intro conjI allI)
  have I: "internal_source V at" using assms(1) by (rule internal_source.intro)
  show "\<exists>d. it_run (DBIterator V) ops (new_db_iterator it snap) = Some d \<and> it_status (DBIterator V) d = status_ok \<and>
      (it_valid (DBIterator V) d \<longleftrightarrow> r < length U) \<and>
      (r < length U \<longrightarrow> it_key (DBIterator V) d = fst (U ! r) \<and> it_value (DBIterator V) d = snd (U ! r))"
    using internal_source.db_run [OF I internal_source.new_db_iterator_at [OF I assms(3,2,4)] assms(5) assms(7) [unfolded assms(6)]]
      internal_source.db_observed [OF I] assms(6) by blast
qed (simp_all only: assms(6) view_ordered [OF assms(3)] view_newest [OF assms(3)])

theorem db_iterator_shows_snapshot_witness:
  "\<exists>mt1 mt2 d. mem_adds 16 (\<lambda>_. 1) (MemTable_ctor 16) [sample_entry 98 7] = Some mt1 \<and>
     mem_adds 16 (\<lambda>_. 1) (MemTable_ctor 16) [sample_entry 97 9] = Some mt2 \<and>
     it_run (DBIterator (MergedIterator kInternal MemTableIterator)) [SeekToFirst]
       (new_db_iterator (new_merging_iterator [mem_new_iterator mt1, mem_new_iterator mt2]) 8) = Some d \<and>
     it_key (DBIterator (MergedIterator kInternal MemTableIterator)) d = [98]"
proof -
  let ?kvs = "[kv_of (sample_entry 97 9), kv_of (sample_entry 98 7)]"
  obtain mt1 mt2 where mt: "mem_adds 16 (\<lambda>_. 1) (MemTable_ctor 16) [sample_entry 98 7] = Some mt1"
      "mem_adds 16 (\<lambda>_. 1) (MemTable_ctor 16) [sample_entry 97 9] = Some mt2"
    and st: "stand_somewhere mem_at [mem_new_iterator mt1, mem_new_iterator mt2] [[kv_of (sample_entry 98 7)], [kv_of (sample_entry 97 9)]]"
    using sample_sources by blast
  obtain n where n: "merged_at kInternal mem_at (new_merging_iterator [mem_new_iterator mt1, mem_new_iterator mt2]) ?kvs n"
    using mem_it.new_merging_at [OF sample_merges st] by blast
  have seq: "7 \<le> kMaxSequenceNumber" "8 \<le> kMaxSequenceNumber" "9 \<le> kMaxSequenceNumber" by (simp_all add: kMaxSequenceNumber_def)
  have ps: "parses ?kvs" using sample_merges seq by (auto simp: parses_def merges_def kv_of_def ikey_def sample_entry_def)
  have sh: "\<not> shown 8 ?kvs 0" "shown 8 ?kvs 1"
    using seq by (auto simp: shown_def seen_def is_put_def kv_of_def ikey_def sample_entry_def)
  have U: "user_view 8 ?kvs = [([98], [99])]"
    using sh by (simp add: user_view_def ukey_def kv_of_def ikey_def sample_entry_def upt_rec)
  obtain d where "it_run (DBIterator (MergedIterator kInternal MemTableIterator)) [SeekToFirst]
        (new_db_iterator (new_merging_iterator [mem_new_iterator mt1, mem_new_iterator mt2]) 8) = Some d"
      "it_key (DBIterator (MergedIterator kInternal MemTableIterator)) d = [98]"
    using db_iterator_shows_snapshot [OF mem_it.merged_cursor n ps seq(2) _ U [symmetric], of "[SeekToFirst]" 0] by auto
  then show ?thesis using mt by blast
qed

end
