(* ===== verification/Table_Props.thy ===== *)
theory Table_Props
  imports Table
begin

text \<open>
  The builder's invariant: what has been written, what is still in the two block
  builders and the filter builder, and how the index separates the data blocks.
\<close>

section \<open>Writing blocks\<close>

definition block_in :: "bytes \<Rightarrow> BlockHandle \<Rightarrow> bytes \<Rightarrow> bool" where
  "block_in data h raw \<longleftrightarrow>
     (\<exists>pre c t post. data = pre @ stored_block c t @ post \<and> h = handle_at (length pre) (length c) \<and>
        (t = CtNone \<and> c = raw \<or> t = CtLz \<and> c = compress_block raw []))"

lemma block_in_append: "block_in data h raw \<Longrightarrow> block_in (data @ x) h raw"
  unfolding block_in_def by (metis append.assoc)

lemma read_block_in:
  assumes "block_in (rf_data f) h raw" "reads_ok f" "length (rf_data f) < 2 ^ 64" "length raw < 2 ^ 32"
  shows "read_block f (word_of_nat (length (rf_data f))) h = Inr raw"
  using assms(1) read_block_none [OF _ assms(2,3)] read_block_lz [OF _ assms(2,3,4)]
  unfolding block_in_def by metis

lemma wf_append_appends: "wf_append f d = (s, f') \<Longrightarrow> is_ok s \<Longrightarrow> wf_data f' = wf_data f @ d"
  by (auto simp: wf_append_def Let_def split: if_splits)

lemma wf_flush_data: "wf_flush f = (s, f') \<Longrightarrow> wf_data f' = wf_data f"
  by (auto simp: wf_flush_def Let_def split: if_splits option.splits)

definition placed :: "TableBuilder \<Rightarrow> bool" where
  "placed tb \<longleftrightarrow> tb_offset tb = word_of_nat (length (wf_data (tb_file tb)))"

lemma write_raw_block_ok:
  assumes "write_raw_block tb c t = (h, tb')" "is_ok (tb_status tb')" "placed tb"
  shows "\<exists>s f. is_ok s \<and> tb' = tb\<lparr>tb_status := s, tb_file := f, tb_offset := word_of_nat (length (wf_data f))\<rparr> \<and>
    wf_data f = wf_data (tb_file tb) @ stored_block c t \<and>
    h = handle_at (length (wf_data (tb_file tb))) (length c)"
proof -
  obtain s1 f1 where a1: "wf_append (tb_file tb) c = (s1, f1)" by (cases "wf_append (tb_file tb) c")
  have ok1: "is_ok s1" using assms(1,2) a1 by (auto simp: write_raw_block_def Let_def split: if_splits)
  obtain s2 f2 where a2: "wf_append f1 (compression_byte t # encode_fixed32 (crc32c_extend (crc32c c) [compression_byte t])) = (s2, f2)"
    by fastforce
  have ok2: "is_ok s2" using assms(1,2) a1 a2 ok1 by (auto simp: write_raw_block_def Let_def split: if_splits)
  have data: "wf_data f2 = wf_data (tb_file tb) @ stored_block c t"
    using wf_append_appends [OF a1 ok1] wf_append_appends [OF a2 ok2] by (simp add: stored_block_def crc32c_def)
  have "tb' = tb\<lparr>tb_status := s2, tb_file := f2, tb_offset := word_of_nat (length (wf_data f2))\<rparr>"
      "h = handle_at (length (wf_data (tb_file tb))) (length c)"
    using assms(1,3) a1 a2 ok1 ok2 data
    by (auto simp: write_raw_block_def Let_def placed_def handle_at_def kBlockTrailerSize_def)
  then show ?thesis using ok2 data by blast
qed

lemma bb_reset_finish: "bb_reset (snd (bb_finish (bb_adds (BlockBuilder_ctor n) kvs))) = BlockBuilder_ctor n"
proof -
  have "bb_restart_interval (snd (bb_finish (bb_adds (BlockBuilder_ctor n) kvs))) = n"
    by (simp add: bb_finish_def Let_def BlockBuilder_ctor_def bb_reset_def)
  then show ?thesis by (simp add: bb_reset_def BlockBuilder_ctor_def)
qed

lemma bb_entries_adds: "bb_entries (bb_adds (BlockBuilder_ctor n) kvs) = length kvs"
proof (induction kvs rule: rev_induct)
  case (snoc x kvs)
  then show ?case by (cases x) (simp add: bb_adds_snoc bb_add_def Let_def)
qed (simp add: bb_adds_def BlockBuilder_ctor_def bb_reset_def)

lemma write_block_ok:
  assumes "write_block tb (bb_adds (BlockBuilder_ctor n) kvs) compressible = (h, block, tb')"
    and "is_ok (tb_status tb')" "placed tb"
  shows "\<exists>s f m. is_ok s \<and> tb' = tb\<lparr>tb_status := s, tb_file := f, tb_offset := word_of_nat (length (wf_data f))\<rparr> \<and>
    (\<exists>x. wf_data f = wf_data (tb_file tb) @ x \<and> length x = m + 5) \<and> block = BlockBuilder_ctor n \<and>
    h = handle_at (length (wf_data (tb_file tb))) m \<and>
    block_in (wf_data f) h (build_block n kvs) \<and> (\<not> compressible \<longrightarrow> m = length (build_block n kvs))"
proof -
  let ?raw = "build_block n kvs"
  obtain c t where ct: "choose_contents (tb_options tb) compressible ?raw = (c, t)"
    by (cases "choose_contents (tb_options tb) compressible ?raw")
  then have kind: "t = CtNone \<and> c = ?raw \<or> t = CtLz \<and> c = compress_block ?raw []" "\<not> compressible \<Longrightarrow> c = ?raw"
    by (auto simp: choose_contents_def Let_def split: if_splits)
  have wr: "write_raw_block tb c t = (h, tb')" and block: "block = BlockBuilder_ctor n"
    using assms(1) ct bb_reset_finish [of n kvs]
    by (auto simp: write_block_def build_block_def split: prod.splits)
  from write_raw_block_ok [OF wr assms(2,3)] obtain s f where f: "is_ok s"
      "tb' = tb\<lparr>tb_status := s, tb_file := f, tb_offset := word_of_nat (length (wf_data f))\<rparr>"
      "wf_data f = wf_data (tb_file tb) @ stored_block c t"
      "h = handle_at (length (wf_data (tb_file tb))) (length c)" by blast
  have "block_in (wf_data f) h ?raw"
    unfolding block_in_def f(3,4) using kind(1) by (metis append_Nil2)
  then show ?thesis using f block kind(2) by (metis length_stored_block)
qed

section \<open>The builder's invariant\<close>

text \<open>A data block on file: where it starts, how many bytes it takes, its entries.\<close>

type_synonym dblock = "nat \<times> nat \<times> (bytes \<times> bytes) list"

definition db_handle :: "dblock \<Rightarrow> BlockHandle" where
  "db_handle b = handle_at (fst b) (fst (snd b))"

definition db_kvs :: "dblock \<Rightarrow> (bytes \<times> bytes) list" where
  "db_kvs b = snd (snd b)"

definition on_file :: "nat \<Rightarrow> bytes \<Rightarrow> dblock list \<Rightarrow> bool" where
  "on_file n data bs \<longleftrightarrow>
     (\<forall>b \<in> set bs. db_kvs b \<noteq> [] \<and> block_in data (db_handle b) (build_block n (db_kvs b)) \<and> fst b + 5 \<le> length data) \<and>
     sorted_wrt (<) (map fst bs)"

definition entry_lists :: "dblock list \<Rightarrow> (bytes \<times> bytes) list \<Rightarrow> (bytes \<times> bytes) list list" where
  "entry_lists bs cur = map db_kvs bs @ (if cur = [] then [] else [cur])"

definition indexed :: "Comparator \<Rightarrow> dblock list \<Rightarrow> (bytes \<times> bytes) list \<Rightarrow> (bytes \<times> bytes) list \<Rightarrow> bool" where
  "indexed c bs cur idx \<longleftrightarrow>
     length idx = length (entry_lists bs cur) - 1 \<and>
     (\<forall>i < length idx. idx ! i =
        (find_shortest_separator c (fst (last (entry_lists bs cur ! i))) (fst (hd (entry_lists bs cur ! Suc i))),
         handle_encode_to (db_handle (bs ! i)) []))"

definition filter_blocks :: "dblock list \<Rightarrow> (u64 \<times> bytes list) list" where
  "filter_blocks bs = map (\<lambda>b. (word_of_nat (fst b), map fst (db_kvs b))) bs"

definition tb_inv ::
    "Options \<Rightarrow> Comparator \<Rightarrow> TableBuilder \<Rightarrow> dblock list \<Rightarrow> (bytes \<times> bytes) list \<Rightarrow> (bytes \<times> bytes) list \<Rightarrow> bool" where
  "tb_inv opts c tb bs cur idx \<longleftrightarrow>
     tb_options tb = opts \<and> tb_comparator tb = c \<and> placed tb \<and>
     tb_data_block tb = bb_adds (BlockBuilder_ctor (opt_block_restart_interval opts)) cur \<and>
     tb_index_block tb = bb_adds (BlockBuilder_ctor 1) idx \<and>
     on_file (opt_block_restart_interval opts) (wf_data (tb_file tb)) bs \<and>
     tb_filter_block tb =
       map_option (\<lambda>p. foldl (fb_block p) FilterBlockBuilder_ctor (filter_blocks bs @ [(tb_offset tb, map fst cur)]))
         (opt_filter_policy opts) \<and>
     tb_pending_index_entry tb = (cur = [] \<and> bs \<noteq> []) \<and>
     (tb_pending_index_entry tb \<longrightarrow> tb_pending_handle tb = db_handle (last bs)) \<and>
     indexed c bs cur idx \<and>
     (bs \<noteq> [] \<or> cur \<noteq> [] \<longrightarrow> tb_last_key tb = fst (last (concat (map db_kvs bs) @ cur)))"

lemma tb_inv_ctor:
  "wf_data file = [] \<Longrightarrow> tb_inv opts c (TableBuilder_ctor opts file c) [] [] []"
  by (auto simp: tb_inv_def TableBuilder_ctor_def placed_def bb_adds_def on_file_def filter_blocks_def
      fb_block_def indexed_def entry_lists_def split: option.splits)

lemma last_concat_ne: "bs \<noteq> [] \<Longrightarrow> last bs \<noteq> [] \<Longrightarrow> last (concat bs) = last (last bs)"
  by (cases bs rule: rev_cases) auto

lemma on_file_append: "on_file n data bs \<Longrightarrow> on_file n (data @ x) bs"
  by (auto simp: on_file_def intro: block_in_append)

lemma on_file_snoc:
  assumes "on_file n data bs" "kvs \<noteq> []" "block_in (data @ x) (handle_at (length data) m) (build_block n kvs)"
    and "5 \<le> length x"
  shows "on_file n (data @ x) (bs @ [(length data, m, kvs)])"
proof -
  have "\<forall>b \<in> set bs. fst b < length data" using assms(1) by (fastforce simp: on_file_def)
  then show ?thesis
    using on_file_append [OF assms(1), of x] assms(2-4)
    by (auto simp: on_file_def db_handle_def db_kvs_def sorted_wrt_append)
qed

lemma tb_flush_inv:
  assumes inv: "tb_inv opts c tb bs cur idx" and ok: "is_ok (tb_status tb)" "is_ok (tb_status (tb_flush tb))"
  shows "\<exists>bs'. tb_inv opts c (tb_flush tb) bs' [] idx \<and>
    concat (map db_kvs bs') = concat (map db_kvs bs) @ cur"
proof (cases "cur = []")
  case True
  then have "tb_flush tb = tb" using inv ok by (simp add: tb_flush_def tb_inv_def bb_entries_adds)
  then show ?thesis using inv True by auto
next
  case False
  let ?n = "opt_block_restart_interval opts" and ?data = "wf_data (tb_file tb)"
  have db: "tb_data_block tb = bb_adds (BlockBuilder_ctor ?n) cur" using inv by (simp add: tb_inv_def)
  obtain h block tb1 where wb: "write_block tb (bb_adds (BlockBuilder_ctor ?n) cur) True = (h, block, tb1)"
    by (metis prod_cases3)
  obtain s f where fl: "wf_flush (tb_file tb1) = (s, f)" by fastforce
  let ?start = "\<lambda>x. x\<lparr>tb_filter_block := (case (tb_filter_block x, opt_filter_policy (tb_options x)) of
      (Some fb, Some p) \<Rightarrow> Some (start_block p fb (tb_offset x)) | _ \<Rightarrow> tb_filter_block x)\<rparr>"
  let ?r = "if is_ok (tb_status tb1)
      then tb1\<lparr>tb_data_block := block, tb_pending_handle := h, tb_pending_index_entry := True, tb_status := s, tb_file := f\<rparr>
      else tb1\<lparr>tb_data_block := block, tb_pending_handle := h\<rparr>"
  have eq: "tb_flush tb = ?start ?r"
    using ok(1) db False wb fl
    by (auto simp: tb_flush_def bb_entries_adds Let_def split: option.splits)
  have ok1: "is_ok (tb_status tb1)" using ok(2) unfolding eq by (auto split: if_splits option.splits)
  have "placed tb" using inv by (simp add: tb_inv_def)
  from write_block_ok [OF wb ok1 this] obtain s1 f1 m x where w:
      "tb1 = tb\<lparr>tb_status := s1, tb_file := f1, tb_offset := word_of_nat (length (wf_data f1))\<rparr>"
      "wf_data f1 = ?data @ x" "length x = m + 5" "block = BlockBuilder_ctor ?n" "h = handle_at (length ?data) m"
      "block_in (?data @ x) h (build_block ?n cur)" by metis
  let ?bs = "bs @ [(length ?data, m, cur)]"
  have on: "on_file ?n (?data @ x) ?bs"
    by (rule on_file_snoc) (use inv False w in \<open>auto simp: tb_inv_def\<close>)
  have data: "wf_data f = ?data @ x" using wf_flush_data [OF fl] w by simp
  have fields: "tb_options (tb_flush tb) = opts" "tb_comparator (tb_flush tb) = c" "placed (tb_flush tb)"
      "tb_data_block (tb_flush tb) = bb_adds (BlockBuilder_ctor ?n) []"
      "tb_index_block (tb_flush tb) = bb_adds (BlockBuilder_ctor 1) idx"
      "wf_data (tb_file (tb_flush tb)) = ?data @ x" "tb_pending_index_entry (tb_flush tb)"
      "tb_pending_handle (tb_flush tb) = h" "tb_offset (tb_flush tb) = word_of_nat (length (?data @ x))"
      "tb_last_key (tb_flush tb) = tb_last_key tb"
    using inv w ok1 data unfolding eq by (auto simp: tb_inv_def placed_def bb_adds_def)
  have filt: "tb_filter_block (tb_flush tb) = map_option (\<lambda>p. foldl (fb_block p) FilterBlockBuilder_ctor
      (filter_blocks ?bs @ [(tb_offset (tb_flush tb), map fst [])])) (opt_filter_policy opts)"
    using inv w ok1 data unfolding eq
    by (auto simp: tb_inv_def placed_def filter_blocks_def db_kvs_def fb_block_pair split: option.splits)
  have ind: "indexed c ?bs [] idx"
  proof -
    have el: "entry_lists ?bs [] = entry_lists bs cur" using False by (simp add: entry_lists_def db_kvs_def)
    have "i < length bs" if "i < length idx" for i
      using inv that False by (auto simp: tb_inv_def indexed_def entry_lists_def)
    then show ?thesis using inv unfolding indexed_def el by (auto simp: tb_inv_def indexed_def nth_append)
  qed
  have last: "tb_last_key tb = fst (last (concat (map db_kvs ?bs) @ []))"
    using inv False by (simp add: tb_inv_def db_kvs_def)
  show ?thesis
    using fields filt on ind last w(5) by (intro exI [of _ ?bs]) (simp add: tb_inv_def db_handle_def db_kvs_def)
qed

text \<open>The index entry for the last block, whichever key closes it.\<close>

lemma entry_lists_first: "bs \<noteq> [] \<Longrightarrow> entry_lists bs [x] ! (length bs - 1) = db_kvs (last bs)"
  by (simp add: entry_lists_def nth_append last_conv_nth)

lemma indexed_close:
  assumes "indexed c bs [] idx" "bs \<noteq> []"
  shows "indexed c bs [x] (idx @ [(find_shortest_separator c (fst (last (db_kvs (last bs)))) (fst x),
    handle_encode_to (db_handle (last bs)) [])])"
proof -
  have len: "length idx = length bs - 1" using assms by (simp add: indexed_def entry_lists_def)
  have old: "entry_lists bs [x] ! i = entry_lists bs [] ! i" if "i < length bs" for i
    using that by (simp add: entry_lists_def nth_append)
  have new: "entry_lists bs [x] ! length bs = [x]" by (simp add: entry_lists_def nth_append)
  show ?thesis
    unfolding indexed_def
  proof (intro conjI allI impI)
    fix i assume i: "i < length (idx @ [(find_shortest_separator c (fst (last (db_kvs (last bs)))) (fst x),
        handle_encode_to (db_handle (last bs)) [])])"
    show "(idx @ [(find_shortest_separator c (fst (last (db_kvs (last bs)))) (fst x), handle_encode_to (db_handle (last bs)) [])]) ! i =
        (find_shortest_separator c (fst (last (entry_lists bs [x] ! i))) (fst (hd (entry_lists bs [x] ! Suc i))),
         handle_encode_to (db_handle (bs ! i)) [])"
    proof (cases "i < length idx")
      case True
      then have "i < length bs" "Suc i < length bs" using len by simp_all
      then show ?thesis using assms(1) old True by (simp add: nth_append indexed_def)
    next
      case False
      then have "i = length bs - 1" "i = length idx" "Suc i = length bs" using i len assms(2) by (auto simp: Suc_diff_1)
      then show ?thesis
        using new entry_lists_first [OF assms(2), of x] assms(2) by (simp add: nth_append last_conv_nth)
    qed
  qed (use len assms(2) in \<open>simp add: entry_lists_def\<close>)
qed

lemma indexed_grow: "indexed c bs cur idx \<Longrightarrow> cur \<noteq> [] \<Longrightarrow> indexed c bs (cur @ [x]) idx"
  by (auto simp: indexed_def entry_lists_def nth_append less_Suc_eq)

definition tb_insert :: "TableBuilder \<Rightarrow> bytes \<Rightarrow> bytes \<Rightarrow> TableBuilder" where
  "tb_insert tb key value =
     (let tb1 = (if tb_pending_index_entry tb
                 then add_pending_index tb (find_shortest_separator (tb_comparator tb) (tb_last_key tb) key)
                 else tb)
      in tb1\<lparr>tb_filter_block := map_option (\<lambda>fb. add_key fb key) (tb_filter_block tb1),
             tb_last_key := key, tb_num_entries := tb_num_entries tb1 + 1,
             tb_data_block := bb_add (tb_data_block tb1) key value\<rparr>)"

lemma tb_add_eq:
  "tb_add tb key value =
     (if \<not> is_ok (tb_status tb) then tb
      else if opt_block_size (tb_options (tb_insert tb key value)) \<le> current_size_estimate (tb_data_block (tb_insert tb key value))
      then tb_flush (tb_insert tb key value) else tb_insert tb key value)"
  by (simp add: tb_add_def tb_insert_def Let_def)

lemma fb_block_snoc: "fb_block p b (o', ks @ [k]) = add_key (fb_block p b (o', ks)) k"
  by (simp add: fb_block_def)

lemma tb_insert_inv:
  assumes inv: "tb_inv opts c tb bs cur idx"
  shows "\<exists>idx'. tb_inv opts c (tb_insert tb key value) bs (cur @ [(key, value)]) idx'"
proof -
  let ?pend = "tb_pending_index_entry tb"
  let ?idx = "if ?pend then idx @ [(find_shortest_separator c (tb_last_key tb) key, handle_encode_to (db_handle (last bs)) [])] else idx"
  have pend: "?pend \<longleftrightarrow> cur = [] \<and> bs \<noteq> []" and last: "?pend \<Longrightarrow> tb_pending_handle tb = db_handle (last bs)"
    using inv by (auto simp: tb_inv_def)
  have ne: "bs \<noteq> [] \<Longrightarrow> db_kvs (last bs) \<noteq> []" using inv by (auto simp: tb_inv_def on_file_def)
  have key: "tb_last_key tb = fst (last (db_kvs (last bs)))" if ?pend
    using inv that pend last_concat_ne [of "map db_kvs bs"] ne by (auto simp: tb_inv_def last_map)
  have ind: "indexed c bs (cur @ [(key, value)]) ?idx"
  proof (cases "cur = []")
    case True
    then show ?thesis
      using inv pend key indexed_close [of c bs idx "(key, value)"]
      by (cases "bs = []") (auto simp: tb_inv_def indexed_def entry_lists_def)
  next
    case False
    then show ?thesis using inv pend indexed_grow by (auto simp: tb_inv_def)
  qed
  have "tb_filter_block (tb_insert tb key value) = map_option (\<lambda>p. foldl (fb_block p) FilterBlockBuilder_ctor
      (filter_blocks bs @ [(tb_offset (tb_insert tb key value), map fst (cur @ [(key, value)]))])) (opt_filter_policy opts)"
    using inv by (simp add: tb_insert_def add_pending_index_def Let_def tb_inv_def option.map_comp o_def fb_block_snoc)
  moreover have "tb_index_block (tb_insert tb key value) = bb_adds (BlockBuilder_ctor 1) ?idx"
    using inv last by (auto simp: tb_insert_def add_pending_index_def Let_def tb_inv_def bb_adds_snoc)
  moreover have "tb_data_block (tb_insert tb key value) =
      bb_adds (BlockBuilder_ctor (opt_block_restart_interval opts)) (cur @ [(key, value)])"
    using inv by (simp add: tb_insert_def add_pending_index_def Let_def tb_inv_def bb_adds_snoc)
  moreover have "tb_options (tb_insert tb key value) = opts" "tb_comparator (tb_insert tb key value) = c"
      "placed (tb_insert tb key value)" "tb_file (tb_insert tb key value) = tb_file tb"
      "\<not> tb_pending_index_entry (tb_insert tb key value)" "tb_last_key (tb_insert tb key value) = key"
    using inv by (auto simp: tb_insert_def add_pending_index_def Let_def tb_inv_def placed_def)
  ultimately show ?thesis using inv ind by (intro exI [of _ ?idx]) (simp add: tb_inv_def)
qed

lemma tb_insert_status [simp]: "tb_status (tb_insert tb key value) = tb_status tb"
  by (simp add: tb_insert_def add_pending_index_def Let_def)

lemma tb_add_inv:
  assumes inv: "tb_inv opts c tb bs cur idx" and ok: "is_ok (tb_status tb)" "is_ok (tb_status (tb_add tb key value))"
  shows "\<exists>bs' cur' idx'. tb_inv opts c (tb_add tb key value) bs' cur' idx' \<and>
    concat (map db_kvs bs') @ cur' = concat (map db_kvs bs) @ cur @ [(key, value)]"
proof -
  obtain idx' where ins: "tb_inv opts c (tb_insert tb key value) bs (cur @ [(key, value)]) idx'"
    using tb_insert_inv [OF inv] by blast
  show ?thesis
  proof (cases "tb_add tb key value = tb_insert tb key value")
    case True
    then show ?thesis using ins by auto
  next
    case False
    then have eq: "tb_add tb key value = tb_flush (tb_insert tb key value)" using ok(1) by (auto simp: tb_add_eq split: if_splits)
    then obtain bs' where "tb_inv opts c (tb_add tb key value) bs' [] idx'"
        "concat (map db_kvs bs') = concat (map db_kvs bs) @ cur @ [(key, value)]"
      using tb_flush_inv [OF ins] ok by auto
    then show ?thesis by (metis append_Nil2)
  qed
qed

text \<open>Failure is sticky: a builder that reports success never failed before.\<close>

lemma tb_flush_sticky: "is_ok (tb_status (tb_flush tb)) \<Longrightarrow> is_ok (tb_status tb)"
  by (auto simp: tb_flush_def split: if_splits)

lemma tb_add_sticky: "is_ok (tb_status (tb_add tb key value)) \<Longrightarrow> is_ok (tb_status tb)"
  by (auto simp: tb_add_def split: if_splits)

definition tb_adds :: "TableBuilder \<Rightarrow> (bytes \<times> bytes) list \<Rightarrow> TableBuilder" where
  "tb_adds = foldl (\<lambda>tb (key, value). tb_add tb key value)"

lemma tb_adds_inv:
  assumes "is_ok (tb_status (tb_adds (TableBuilder_ctor opts file c) kvs))" "wf_data file = []"
  shows "\<exists>bs cur idx. tb_inv opts c (tb_adds (TableBuilder_ctor opts file c) kvs) bs cur idx \<and>
    concat (map db_kvs bs) @ cur = kvs"
  using assms(1)
proof (induction kvs rule: rev_induct)
  case Nil
  show ?case using tb_inv_ctor [OF assms(2), of opts c] by (auto simp: tb_adds_def)
next
  case (snoc x kvs)
  obtain k v where x: "x = (k, v)" by (cases x)
  let ?tb = "tb_adds (TableBuilder_ctor opts file c) kvs"
  have eq: "tb_adds (TableBuilder_ctor opts file c) (kvs @ [x]) = tb_add ?tb k v" by (simp add: tb_adds_def x)
  have ok: "is_ok (tb_status ?tb)" using snoc.prems tb_add_sticky unfolding eq by blast
  then obtain bs cur idx where inv: "tb_inv opts c ?tb bs cur idx" and kvs: "concat (map db_kvs bs) @ cur = kvs"
    using snoc.IH by blast
  have "concat (map db_kvs bs) @ cur @ [(k, v)] = kvs @ [x]" using kvs x by simp
  then show ?case unfolding eq using tb_add_inv [OF inv ok, of k v] snoc.prems [unfolded eq] by metis
qed

section \<open>Finishing\<close>

text \<open>A step that appended \<open>x\<close> to the file and left the rest of the builder as it was.\<close>

definition appended :: "TableBuilder \<Rightarrow> TableBuilder \<Rightarrow> bytes \<Rightarrow> bool" where
  "appended tb tb' x \<longleftrightarrow>
     is_ok (tb_status tb) \<and> is_ok (tb_status tb') \<and> placed tb' \<and> wf_data (tb_file tb') = wf_data (tb_file tb) @ x \<and>
     tb_options tb' = tb_options tb \<and> tb_comparator tb' = tb_comparator tb \<and> tb_filter_block tb' = tb_filter_block tb \<and>
     tb_index_block tb' = tb_index_block tb \<and> tb_last_key tb' = tb_last_key tb \<and>
     tb_pending_index_entry tb' = tb_pending_index_entry tb \<and> tb_pending_handle tb' = tb_pending_handle tb"

lemma write_raw_block_appended:
  assumes "write_raw_block tb c t = (h, tb')" "is_ok (tb_status tb)" "is_ok (tb_status tb')" "placed tb"
  shows "appended tb tb' (stored_block c t) \<and> h = handle_at (length (wf_data (tb_file tb))) (length c)"
  using write_raw_block_ok [OF assms(1,3,4)] assms(2) by (auto simp: appended_def placed_def)

lemma write_filter_ok:
  assumes "write_filter tb = (h, tb')" "is_ok (tb_status tb')" "placed tb"
  shows "\<exists>x. appended tb tb' x \<and> (\<forall>fb p. tb_filter_block tb = Some fb \<longrightarrow> opt_filter_policy (tb_options tb) = Some p \<longrightarrow>
    block_in (wf_data (tb_file tb')) h (fb_finish p fb) \<and> length (fb_finish p fb) \<le> length x)"
proof -
  have ok: "is_ok (tb_status tb)" using assms(1,2) by (auto simp: write_filter_def split: if_splits)
  show ?thesis
  proof (cases "\<exists>fb p. tb_filter_block tb = Some fb \<and> opt_filter_policy (tb_options tb) = Some p")
    case True
    then obtain fb p where fp: "tb_filter_block tb = Some fb" "opt_filter_policy (tb_options tb) = Some p" by blast
    then have "write_raw_block tb (fb_finish p fb) CtNone = (h, tb')" using assms(1) ok by (simp add: write_filter_def)
    from write_raw_block_appended [OF this ok assms(2,3)] have w: "appended tb tb' (stored_block (fb_finish p fb) CtNone)"
        "h = handle_at (length (wf_data (tb_file tb))) (length (fb_finish p fb))" by auto
    then have "block_in (wf_data (tb_file tb')) h (fb_finish p fb)"
      unfolding block_in_def appended_def by (metis append_Nil2)
    then show ?thesis using w fp by (intro exI [of _ "stored_block (fb_finish p fb) CtNone"]) auto
  next
    case False
    then have "tb' = tb" using assms(1) ok by (auto simp: write_filter_def split: option.splits)
    then show ?thesis using False ok assms(3) by (intro exI [of _ "[]"]) (auto simp: appended_def)
  qed
qed

definition meta_entries :: "Options \<Rightarrow> BlockHandle \<Rightarrow> (bytes \<times> bytes) list" where
  "meta_entries opts h =
     (case opt_filter_policy opts of None \<Rightarrow> [] | Some p \<Rightarrow> [(filter_meta_key p, handle_encode_to h [])])"

lemma write_block_appended:
  assumes "write_block tb (bb_adds (BlockBuilder_ctor n) kvs) False = (h, block, tb')"
    and "is_ok (tb_status tb)" "is_ok (tb_status tb')" "placed tb"
  shows "\<exists>x. appended tb tb' x \<and> block_in (wf_data (tb_file tb')) h (build_block n kvs) \<and> length (build_block n kvs) \<le> length x"
  using write_block_ok [OF assms(1,3,4)] assms(2) by (auto simp: appended_def placed_def)

lemma write_metaindex_ok:
  assumes "write_metaindex tb fh = (h, tb')" "is_ok (tb_status tb')" "placed tb"
    and "tb_filter_block tb = None \<longleftrightarrow> opt_filter_policy (tb_options tb) = None"
  shows "\<exists>x. appended tb tb' x \<and>
    block_in (wf_data (tb_file tb')) h (build_block (opt_block_restart_interval (tb_options tb)) (meta_entries (tb_options tb) fh)) \<and>
    length (build_block (opt_block_restart_interval (tb_options tb)) (meta_entries (tb_options tb) fh)) \<le> length x"
proof -
  let ?n = "opt_block_restart_interval (tb_options tb)" and ?m = "meta_entries (tb_options tb) fh"
  have ok: "is_ok (tb_status tb)" using assms(1,2) by (auto simp: write_metaindex_def split: if_splits)
  have "(case (tb_filter_block tb, opt_filter_policy (tb_options tb)) of
      (Some fb, Some p) \<Rightarrow> bb_add (BlockBuilder_ctor ?n) (filter_meta_key p) (handle_encode_to fh [])
    | _ \<Rightarrow> BlockBuilder_ctor ?n) = bb_adds (BlockBuilder_ctor ?n) ?m"
    using assms(4) by (auto simp: meta_entries_def bb_adds_def split: option.splits)
  then obtain block where "write_block tb (bb_adds (BlockBuilder_ctor ?n) ?m) False = (h, block, tb')"
    using assms(1) ok by (auto simp: write_metaindex_def Let_def split: prod.splits)
  from write_block_appended [OF this ok assms(2,3)] show ?thesis .
qed

text \<open>The finished index: a separator between neighbours, a successor for the last block.\<close>

definition index_entries :: "Comparator \<Rightarrow> dblock list \<Rightarrow> (bytes \<times> bytes) list" where
  "index_entries c bs =
     map (\<lambda>i. (if Suc i < length bs
               then find_shortest_separator c (fst (last (db_kvs (bs ! i)))) (fst (hd (db_kvs (bs ! Suc i))))
               else find_short_successor c (fst (last (db_kvs (bs ! i)))),
               handle_encode_to (db_handle (bs ! i)) [])) [0..<length bs]"

lemma indexed_finish:
  assumes "indexed c bs [] idx" "bs \<noteq> []"
  shows "idx @ [(find_short_successor c (fst (last (db_kvs (last bs)))), handle_encode_to (db_handle (last bs)) [])] =
    index_entries c bs"
proof (rule nth_equalityI)
  have len: "length idx = length bs - 1" using assms by (simp add: indexed_def entry_lists_def)
  then show "length (idx @ [(find_short_successor c (fst (last (db_kvs (last bs)))), handle_encode_to (db_handle (last bs)) [])]) =
      length (index_entries c bs)" using assms(2) by (simp add: index_entries_def)
  fix i assume "i < length (idx @ [(find_short_successor c (fst (last (db_kvs (last bs)))), handle_encode_to (db_handle (last bs)) [])])"
  then have i: "i < length bs" using len assms(2) by (cases bs) auto
  show "(idx @ [(find_short_successor c (fst (last (db_kvs (last bs)))), handle_encode_to (db_handle (last bs)) [])]) ! i =
      index_entries c bs ! i"
  proof (cases "Suc i < length bs")
    case True
    then have "i < length idx" using len by simp
    then show ?thesis
      using True assms(1) by (simp add: nth_append index_entries_def indexed_def entry_lists_def)
  next
    case False
    then have "i = length bs - 1" using i by simp
    then show ?thesis using len assms(2) by (simp add: nth_append index_entries_def last_conv_nth)
  qed
qed

lemma write_index_ok:
  assumes "write_index tb = (h, tb')" "is_ok (tb_status tb')" "placed tb"
    and "tb_index_block tb = bb_adds (BlockBuilder_ctor 1) idx" "tb_comparator tb = c" "indexed c bs [] idx"
    and "tb_pending_index_entry tb \<longleftrightarrow> bs \<noteq> []"
    and "bs \<noteq> [] \<Longrightarrow> tb_pending_handle tb = db_handle (last bs) \<and> tb_last_key tb = fst (last (db_kvs (last bs)))"
  shows "\<exists>x. is_ok (tb_status tb) \<and> placed tb' \<and> wf_data (tb_file tb') = wf_data (tb_file tb) @ x \<and>
    block_in (wf_data (tb_file tb')) h (build_block 1 (index_entries c bs)) \<and>
    length (build_block 1 (index_entries c bs)) \<le> length x"
proof -
  have ok: "is_ok (tb_status tb)" using assms(1,2) by (auto simp: write_index_def split: if_splits)
  let ?tb = "if tb_pending_index_entry tb
      then add_pending_index tb (find_short_successor (tb_comparator tb) (tb_last_key tb)) else tb"
  have ib: "tb_index_block ?tb = bb_adds (BlockBuilder_ctor 1) (index_entries c bs)"
  proof (cases "bs = []")
    case True
    then have "idx = []" using assms(6) by (simp add: indexed_def entry_lists_def)
    then show ?thesis using True assms by (simp add: index_entries_def)
  next
    case False
    then show ?thesis
      using assms by (simp add: add_pending_index_def flip: indexed_finish [OF assms(6) False] bb_adds_snoc)
  qed
  obtain block tb2 where wb: "write_block ?tb (bb_adds (BlockBuilder_ctor 1) (index_entries c bs)) False = (h, block, tb2)"
      "tb' = tb2\<lparr>tb_index_block := block\<rparr>"
    using assms(1) ok ib by (auto simp: write_index_def Let_def split: prod.splits)
  have "is_ok (tb_status ?tb)" "is_ok (tb_status tb2)" "placed ?tb"
    using ok assms(2,3) wb(2) by (auto simp: add_pending_index_def placed_def)
  from write_block_appended [OF wb(1) this] show ?thesis
    using wb(2) ok by (auto simp: appended_def placed_def add_pending_index_def)
qed

end
