(* ===== verification/Table_Read.thy ===== *)
theory Table_Read
  imports Table_Props
begin

text \<open>
  A finished table and what reading it gives: the file holds the data blocks, the
  filter, the metaindex, the index and the footer; opening it finds them, and a lookup
  returns the entry the table was given.
\<close>

section \<open>The file a successful finish leaves\<close>

definition table_file :: "Options \<Rightarrow> Comparator \<Rightarrow> bytes \<Rightarrow> dblock list \<Rightarrow> bool" where
  "table_file opts c data bs \<longleftrightarrow>
     (\<exists>body fh mh ih q.
        data = body @ footer_encode_to \<lparr>ft_metaindex = mh, ft_index = ih\<rparr> [] \<and>
        on_file (opt_block_restart_interval opts) data bs \<and>
        block_in data ih (build_block 1 (index_entries c bs)) \<and>
        length (build_block 1 (index_entries c bs)) \<le> length data \<and>
        block_in data mh (build_block (opt_block_restart_interval opts) (meta_entries opts fh)) \<and>
        length (build_block (opt_block_restart_interval opts) (meta_entries opts fh)) \<le> length data \<and>
        (\<forall>p. opt_filter_policy opts = Some p \<longrightarrow>
           block_in data fh (fb_build p (filter_blocks bs @ [(word_of_nat q, [])])) \<and>
           length (fb_build p (filter_blocks bs @ [(word_of_nat q, [])])) \<le> length data) \<and>
        (\<forall>b \<in> set bs. fst b < q) \<and> q \<le> length data)"

lemma write_footer_ok:
  assumes "is_ok (tb_status (write_footer tb mh ih))"
  shows "is_ok (tb_status tb) \<and> wf_data (tb_file (write_footer tb mh ih)) =
    wf_data (tb_file tb) @ footer_encode_to \<lparr>ft_metaindex = mh, ft_index = ih\<rparr> []"
proof -
  obtain s f where a: "wf_append (tb_file tb) (footer_encode_to \<lparr>ft_metaindex = mh, ft_index = ih\<rparr> []) = (s, f)"
    by fastforce
  have ok: "is_ok (tb_status tb)" using assms by (auto simp: write_footer_def split: if_splits)
  then have "is_ok s" using assms a by (auto simp: write_footer_def Let_def split: if_splits)
  then show ?thesis using ok a wf_append_appends [OF a] by (simp add: write_footer_def Let_def)
qed

lemma tb_finish_file:
  assumes inv: "tb_inv opts c tb bs cur idx" and fin: "tb_finish tb = (s, tb')" and ok: "is_ok s"
  shows "\<exists>bs'. table_file opts c (wf_data (tb_file tb')) bs' \<and> concat (map db_kvs bs') = concat (map db_kvs bs) @ cur"
proof -
  let ?n = "opt_block_restart_interval opts"
  define tb1 where "tb1 = (tb_flush tb)\<lparr>tb_closed := True\<rparr>"
  obtain fh tb2 where s2: "write_filter tb1 = (fh, tb2)" by fastforce
  obtain mh tb3 where s3: "write_metaindex tb2 fh = (mh, tb3)" by fastforce
  obtain ih tb4 where s4: "write_index tb3 = (ih, tb4)" by fastforce
  have tb': "tb' = write_footer tb4 mh ih" "s = tb_status tb'"
    using fin s2 s3 s4 by (auto simp: tb_finish_def tb1_def Let_def)
  then have f5: "is_ok (tb_status tb4)" "wf_data (tb_file tb') = wf_data (tb_file tb4) @
      footer_encode_to \<lparr>ft_metaindex = mh, ft_index = ih\<rparr> []"
    using write_footer_ok ok by auto
  have ok3: "is_ok (tb_status tb3)" using s4 f5(1) by (auto simp: write_index_def split: if_splits)
  have ok2: "is_ok (tb_status tb2)" using s3 ok3 by (auto simp: write_metaindex_def split: if_splits)
  have ok1: "is_ok (tb_status tb1)" using s2 ok2 by (auto simp: write_filter_def split: if_splits)
  have "is_ok (tb_status (tb_flush tb))" using ok1 by (simp add: tb1_def)
  from tb_flush_inv [OF inv tb_flush_sticky [OF this] this] obtain bs' where
    inv': "tb_inv opts c (tb_flush tb) bs' [] idx" and kvs: "concat (map db_kvs bs') = concat (map db_kvs bs) @ cur"
    by blast
  have inv1: "tb_inv opts c tb1 bs' [] idx" using inv' by (simp add: tb1_def tb_inv_def placed_def)
  then have p1: "placed tb1" "tb_options tb1 = opts" "tb_comparator tb1 = c" by (simp_all add: tb_inv_def)
  let ?q = "length (wf_data (tb_file tb1))"
  have fb: "tb_filter_block tb1 = map_option (\<lambda>p. foldl (fb_block p) FilterBlockBuilder_ctor
      (filter_blocks bs' @ [(word_of_nat ?q, [])])) (opt_filter_policy opts)"
    using inv1 by (simp add: tb_inv_def placed_def)
  from write_filter_ok [OF s2 ok2 p1(1)] obtain x2 where x2: "appended tb1 tb2 x2"
      "\<forall>p. opt_filter_policy opts = Some p \<longrightarrow>
         block_in (wf_data (tb_file tb2)) fh (fb_build p (filter_blocks bs' @ [(word_of_nat ?q, [])])) \<and>
         length (fb_build p (filter_blocks bs' @ [(word_of_nat ?q, [])])) \<le> length x2"
    using fb p1 by (auto simp: fb_build_def)
  have p2: "placed tb2" "tb_options tb2 = opts" "tb_filter_block tb2 = None \<longleftrightarrow> opt_filter_policy opts = None"
    using x2(1) p1 fb by (auto simp: appended_def)
  from write_metaindex_ok [OF s3 ok3 p2(1)] obtain x3 where x3: "appended tb2 tb3 x3"
      "block_in (wf_data (tb_file tb3)) mh (build_block ?n (meta_entries opts fh))"
      "length (build_block ?n (meta_entries opts fh)) \<le> length x3"
    using p2 by auto
  have p3: "placed tb3" "tb_index_block tb3 = bb_adds (BlockBuilder_ctor 1) idx" "tb_comparator tb3 = c"
      "tb_pending_index_entry tb3 \<longleftrightarrow> bs' \<noteq> []" "indexed c bs' [] idx"
      "bs' \<noteq> [] \<Longrightarrow> tb_pending_handle tb3 = db_handle (last bs')"
    using x3(1) x2(1) inv1 by (auto simp: appended_def tb_inv_def)
  have last: "tb_last_key tb3 = fst (last (db_kvs (last bs')))" if "bs' \<noteq> []"
  proof -
    have "db_kvs (last bs') \<noteq> []" using inv1 that by (auto simp: tb_inv_def on_file_def)
    then show ?thesis using x3(1) x2(1) inv1 that last_concat_ne [of "map db_kvs bs'"]
      by (auto simp: appended_def tb_inv_def last_map)
  qed
  from write_index_ok [OF s4 f5(1) p3(1,2,3,5,4)] obtain x4 where x4:
      "wf_data (tb_file tb4) = wf_data (tb_file tb3) @ x4"
      "block_in (wf_data (tb_file tb4)) ih (build_block 1 (index_entries c bs'))"
      "length (build_block 1 (index_entries c bs')) \<le> length x4"
    using p3(6) last by blast
  let ?foot = "footer_encode_to \<lparr>ft_metaindex = mh, ft_index = ih\<rparr> []"
  have data: "wf_data (tb_file tb') = wf_data (tb_file tb1) @ x2 @ x3 @ x4 @ ?foot"
      "wf_data (tb_file tb2) = wf_data (tb_file tb1) @ x2" "wf_data (tb_file tb3) = wf_data (tb_file tb1) @ x2 @ x3"
    using f5(2) x4(1) x3(1) x2(1) by (simp_all add: appended_def)
  have on: "on_file ?n (wf_data (tb_file tb1)) bs'" using inv1 by (simp add: tb_inv_def)
  have "table_file opts c (wf_data (tb_file tb')) bs'"
    unfolding table_file_def
  proof (intro exI conjI)
    show "wf_data (tb_file tb') = wf_data (tb_file tb4) @ ?foot" by (rule f5(2))
    show "on_file ?n (wf_data (tb_file tb')) bs'" unfolding data(1) by (rule on_file_append [OF on])
    show "block_in (wf_data (tb_file tb')) ih (build_block 1 (index_entries c bs'))"
      unfolding f5(2) by (rule block_in_append [OF x4(2)])
    show "block_in (wf_data (tb_file tb')) mh (build_block ?n (meta_entries opts fh))"
      using block_in_append [OF x3(2), of "x4 @ ?foot"] data(1,3) by simp
    show "\<forall>p. opt_filter_policy opts = Some p \<longrightarrow>
        block_in (wf_data (tb_file tb')) fh (fb_build p (filter_blocks bs' @ [(word_of_nat ?q, [])])) \<and>
        length (fb_build p (filter_blocks bs' @ [(word_of_nat ?q, [])])) \<le> length (wf_data (tb_file tb'))"
      using x2(2) block_in_append [of "wf_data (tb_file tb2)" fh _ "x3 @ x4 @ ?foot"] data(1,2) by auto
    show "\<forall>b \<in> set bs'. fst b < ?q" using on by (fastforce simp: on_file_def)
  qed (use x3(3) x4(3) data(1) in simp_all)
  then show ?thesis using kvs by blast
qed

section \<open>Block sizes\<close>

definition kv_bytes :: "(bytes \<times> bytes) list \<Rightarrow> nat" where
  "kv_bytes kvs = (\<Sum>(k, v) \<leftarrow> kvs. length k + length v + 19)"

lemma entry_bytes_max: "length (entry_bytes s k v) \<le> length k + length v + 15"
  using length_put_varint32 [of "word_of_nat s"] length_put_varint32 [of "word_of_nat (length k - s)"]
    length_put_varint32 [of "word_of_nat (length v)"]
  by (simp add: entry_bytes_def Let_def put_varint32_def)

lemma bb_adds_size:
  "length (bb_buffer (bb_adds (BlockBuilder_ctor n) kvs)) + 4 * length (bb_restarts (bb_adds (BlockBuilder_ctor n) kvs))
     \<le> kv_bytes kvs + 4"
proof (induction kvs rule: rev_induct)
  case (snoc x kvs)
  obtain k v where x: "x = (k, v)" by (cases x)
  show ?case
    using snoc entry_bytes_max [of 0 k v]
      entry_bytes_max [of "shared_prefix (bb_last_key (bb_adds (BlockBuilder_ctor n) kvs)) k" k v]
    by (auto simp: x bb_adds_snoc bb_add_def Let_def kv_bytes_def)
qed (simp add: bb_adds_def BlockBuilder_ctor_def bb_reset_def)

lemma build_block_size: "length (build_block n kvs) \<le> kv_bytes kvs + 8"
  using bb_adds_size [of n kvs] by (simp add: build_block_def bb_finish_bytes)

lemma kv_bytes_append [simp]: "kv_bytes (xs @ ys) = kv_bytes xs + kv_bytes ys"
  by (simp add: kv_bytes_def)

lemma kv_bytes_concat: "xs \<in> set xss \<Longrightarrow> kv_bytes xs \<le> kv_bytes (concat xss)"
  by (induction xss) auto

section \<open>Opening\<close>

lemma length_footer: "length (footer_encode_to f []) = 48"
proof -
  obtain pad where "footer_encode_to f [] =
     (put_varint (bh_offset (ft_metaindex f)) @ put_varint (bh_size (ft_metaindex f)) @
      put_varint (bh_offset (ft_index f)) @ put_varint (bh_size (ft_index f)) @ pad) @
     encode_fixed32 (ucast (kTableMagicNumber AND 0xffffffff)) @ encode_fixed32 (ucast (drop_bit 32 kTableMagicNumber))"
   and "length (put_varint (bh_offset (ft_metaindex f)) @ put_varint (bh_size (ft_metaindex f)) @
      put_varint (bh_offset (ft_index f)) @ put_varint (bh_size (ft_index f)) @ pad) = 40"
    using footer_layout [of f "[]"] by auto
  then show ?thesis by (simp only: length_append length_encode_fixed32)
qed

lemma read_footer:
  assumes "rf_data f = body @ footer_encode_to ft []" "reads_ok f" "length (rf_data f) < 2 ^ 64"
  shows "rf_read f (unat (word_of_nat (length (rf_data f)) - word_of_nat kEncodedLength :: u64)) kEncodedLength =
      Inr (footer_encode_to ft [])"
    and "\<not> (word_of_nat (length (rf_data f)) :: u64) < word_of_nat kEncodedLength"
proof -
  have len: "length (rf_data f) = length body + 48" using assms(1) length_footer by simp
  have k: "kEncodedLength = 48" by (simp add: kEncodedLength_def kMaxEncodedLength_def)
  have "(word_of_nat (length (rf_data f)) - word_of_nat 48 :: u64) = word_of_nat (length body)"
    unfolding len of_nat_add by simp
  moreover have "unat (word_of_nat (length body) :: u64) = length body" using assms(3) len by simp
  moreover have "rf_read f (length body) 48 = Inr (footer_encode_to ft [])"
    using assms(1,2) length_footer [of ft] by (simp add: rf_read_def reads_ok_def)
  ultimately show "rf_read f (unat (word_of_nat (length (rf_data f)) - word_of_nat kEncodedLength :: u64)) kEncodedLength =
      Inr (footer_encode_to ft [])" unfolding k by simp
  have "unat (word_of_nat (length (rf_data f)) :: u64) = length (rf_data f)" using assms(3) by simp
  then show "\<not> (word_of_nat (length (rf_data f)) :: u64) < word_of_nat kEncodedLength"
    unfolding k word_less_nat_alt using len by simp
qed

lemma seek_single:
  assumes "1 \<le> n" "length (build_block n [(key, v)]) < 2 ^ 32"
  shows "block_seek kBytewise nul (Block_ctor (build_block n [(key, v)])) key = Some (key, v)"
proof -
  define b where "b = Block_ctor (build_block n [(key, v)])"
  let ?it = "bi_seek kBytewise nul b (BlockIter_ctor b) key"
  obtain off sh ri where h: "holds b [(key, v)] off sh ri"
    using build_block_holds [OF assms] unfolding b_def by blast
  have "ordered kBytewise [(key, v)]" by (simp add: ordered_def readable_def kBytewise_def)
  moreover have "lower_bound kBytewise key [(key, v)] = 0"
    by (simp add: lower_bound_def kBytewise_def order_simps)
  ultimately have "points_at b [(key, v)] off ri ?it 0"
    using bw.bi_seek_points [OF h, of "BlockIter_ctor b" nul key] by (simp add: BlockIter_ctor_def)
  from points_observed [OF h this] have "bi_valid b ?it" "bi_key ?it = key" "bi_value_bytes b ?it = v" by simp_all
  moreover have "4 \<le> bl_size b" "bl_num_restarts b \<noteq> 0" using h by (auto simp: holds_def)
  ultimately show ?thesis unfolding b_def [symmetric] by (simp add: block_seek_def Let_def)
qed

lemma Table_open_file:
  assumes tf: "table_file opts c (rf_data f) bs" and ok: "reads_ok f" and small: "length (rf_data f) < 2 ^ 32"
    and n: "1 \<le> opt_block_restart_interval opts"
  obtains t q where "Table_open nul opts c f (word_of_nat (length (rf_data f))) cache_id = Inr t"
    "tr_options t = opts" "tr_comparator t = c" "tr_file t = f" "tr_file_size t = word_of_nat (length (rf_data f))"
    "tr_index_block t = Block_ctor (build_block 1 (index_entries c bs))"
    "tr_filter t = map_option (\<lambda>p. FilterBlockReader_ctor (fb_build p (filter_blocks bs @ [(word_of_nat q, [])])))
       (opt_filter_policy opts)"
    "\<forall>b \<in> set bs. fst b < q" "q \<le> length (rf_data f)" "length (build_block 1 (index_entries c bs)) < 2 ^ 32"
    "\<And>p. opt_filter_policy opts = Some p \<Longrightarrow> length (fb_build p (filter_blocks bs @ [(word_of_nat q, [])])) < 2 ^ 32"
    "tr_cache_id t = cache_id"
proof -
  let ?n = "opt_block_restart_interval opts" and ?sz = "word_of_nat (length (rf_data f)) :: u64"
  obtain body fh mh ih q where l: "rf_data f = body @ footer_encode_to \<lparr>ft_metaindex = mh, ft_index = ih\<rparr> []"
      "block_in (rf_data f) ih (build_block 1 (index_entries c bs))"
      "length (build_block 1 (index_entries c bs)) \<le> length (rf_data f)"
      "block_in (rf_data f) mh (build_block ?n (meta_entries opts fh))"
      "length (build_block ?n (meta_entries opts fh)) \<le> length (rf_data f)"
      "\<forall>p. opt_filter_policy opts = Some p \<longrightarrow>
           block_in (rf_data f) fh (fb_build p (filter_blocks bs @ [(word_of_nat q, [])])) \<and>
           length (fb_build p (filter_blocks bs @ [(word_of_nat q, [])])) \<le> length (rf_data f)"
      "\<forall>b \<in> set bs. fst b < q" "q \<le> length (rf_data f)"
    using tf unfolding table_file_def by metis
  have big: "length (rf_data f) < 2 ^ 64" using small by simp
  note rd = read_block_in [OF _ ok big]
  have ix: "read_block f ?sz ih = Inr (build_block 1 (index_entries c bs))" using rd [OF l(2)] l(3) small by simp
  have meta: "read_block f ?sz mh = Inr (build_block ?n (meta_entries opts fh))" using rd [OF l(4)] l(5) small by simp
  have filt: "read_filter nul f ?sz p mh = Some (FilterBlockReader_ctor (fb_build p (filter_blocks bs @ [(word_of_nat q, [])])))"
    if p: "opt_filter_policy opts = Some p" for p
  proof -
    have me: "meta_entries opts fh = [(filter_meta_key p, handle_encode_to fh [])]" using p by (simp add: meta_entries_def)
    have fb: "read_block f ?sz fh = Inr (fb_build p (filter_blocks bs @ [(word_of_nat q, [])]))"
      using rd [of fh] l(6) [rule_format, OF p] small by simp
    have "length (build_block ?n [(filter_meta_key p, handle_encode_to fh [])]) < 2 ^ 32" using l(5) small me by simp
    from seek_single [OF n this] show ?thesis
      unfolding read_filter_def meta sum.case Let_def me by (simp add: fb)
  qed
  show thesis
  proof (rule that)
    let ?t = "\<lparr>tr_options = opts, tr_comparator = c, tr_file = f, tr_file_size = ?sz, tr_cache_id = cache_id,
        tr_metaindex_handle = mh, tr_index_block = Block_ctor (build_block 1 (index_entries c bs)),
        tr_filter = (case opt_filter_policy opts of None \<Rightarrow> None | Some p \<Rightarrow> read_filter nul f ?sz p mh)\<rparr>"
    show "Table_open nul opts c f ?sz cache_id = Inr ?t"
      unfolding Table_open_def if_not_P [OF read_footer(2) [OF l(1) ok big]] read_footer(1) [OF l(1) ok big] sum.case
        footer_round_trip by (simp add: ix cong: option.case_cong)
    show "tr_filter ?t = map_option (\<lambda>p. FilterBlockReader_ctor (fb_build p (filter_blocks bs @ [(word_of_nat q, [])])))
       (opt_filter_policy opts)" using filt by (simp split: option.splits)
  qed (use l small in auto)
qed

section \<open>The index sends a key to its block\<close>

lemma sorted_wrt_concat:
  assumes "sorted_wrt P (concat xss)" "i < length xss" "x \<in> set (xss ! i)"
  shows "sorted_wrt P (xss ! i)" "i < j \<Longrightarrow> j < length xss \<Longrightarrow> y \<in> set (xss ! j) \<Longrightarrow> P x y"
  using assms
proof (induction xss arbitrary: i j)
  case (Cons xs xss)
  { case 1 then show ?case using Cons.IH(1) by (cases i) (auto simp: sorted_wrt_append) }
  { case 2 then show ?case using Cons.IH(2) [of "i - 1" "j - 1"]
      by (cases i; cases j) (auto simp: sorted_wrt_append, metis nth_mem) }
qed simp_all

lemma in_concat_map: "x \<in> set (concat (map f ys)) \<Longrightarrow> \<exists>i < length ys. x \<in> set (f (ys ! i))"
  by (simp add: in_set_conv_nth Bex_def) (metis in_set_conv_nth)

lemma first_at_skip:
  "\<forall>x \<in> set xs. cmp_compare c (fst x) t < 0 \<Longrightarrow> first_at c t (xs @ ys) = first_at c t ys"
  unfolding first_at_def by (rule find_skip) simp

lemma first_at_append_Some: "first_at c t xs = Some e \<Longrightarrow> first_at c t (xs @ ys) = Some e"
  by (induction xs) (auto simp: first_at_def)

lemma first_at_None: "first_at c t xs = None \<longleftrightarrow> (\<forall>x \<in> set xs. cmp_compare c (fst x) t < 0)"
  by (auto simp: first_at_def find_None_iff)

text \<open>
  The order a table needs: of the keys after a block that a separator still sends to the
  block, none counts as the same as the one that was looked up.
\<close>

locale table_order = key_order +
  fixes same :: "bytes \<Rightarrow> bytes \<Rightarrow> bool"
  assumes sep_same: "readable c z \<Longrightarrow> readable c a \<Longrightarrow> readable c t \<Longrightarrow> cmp_compare c z a < 0 \<Longrightarrow>
     cmp_compare c z t < 0 \<Longrightarrow> \<not> cmp_compare c (find_shortest_separator c z a) t < 0 \<Longrightarrow> \<not> same a t"

interpretation bwt: table_order kBytewise "(=)"
  by unfold_locales (use bw.sep_upper in blast)

lemma internal_sep_same:
  assumes "8 \<le> length a" "8 \<le> length t" "compare_internal_keys z t < 0"
    "\<not> compare_internal_keys (internal_shortest_separator z a) t < 0"
  shows "filter_key a \<noteq> filter_key t"
  using assms by (auto simp: internal_shortest_separator_def Let_def cik_less filter_key_def order_simps split: if_splits)

interpretation ikt: table_order kInternal "\<lambda>k k'. filter_key k = filter_key k'"
  by unfold_locales (use internal_sep_same in \<open>simp add: kInternal_def readable_def\<close>)

definition sep_at :: "Comparator \<Rightarrow> dblock list \<Rightarrow> nat \<Rightarrow> bytes" where
  "sep_at c bs i = fst (index_entries c bs ! i)"

lemma index_entries_nth:
  "length (index_entries c bs) = length bs"
  "i < length bs \<Longrightarrow> index_entries c bs ! i = (sep_at c bs i, handle_encode_to (db_handle (bs ! i)) [])"
  by (simp_all add: index_entries_def sep_at_def)

context table_order
begin

lemma block_facts:
  assumes "ordered c (concat (map db_kvs bs))" "i < length bs" "x \<in> set (db_kvs (bs ! i))"
  shows "readable c (fst x)"
    and "\<not> cmp_compare c (fst (last (db_kvs (bs ! i)))) (fst x) < 0"
    and "\<not> cmp_compare c (fst x) (fst (hd (db_kvs (bs ! i)))) < 0"
    and "i < j \<Longrightarrow> j < length bs \<Longrightarrow> y \<in> set (db_kvs (bs ! j)) \<Longrightarrow> cmp_compare c (fst x) (fst y) < 0"
proof -
  let ?P = "\<lambda>x y :: bytes \<times> bytes. cmp_compare c (fst x) (fst y) < 0"
  have so: "sorted_wrt ?P (concat (map db_kvs bs))" using assms(1) by (simp add: ordered_def)
  show "readable c (fst x)" using assms by (auto simp: ordered_def)
  have b: "sorted_wrt ?P (db_kvs (bs ! i))" using sorted_wrt_concat(1) [OF so, of i x] assms(2,3) by simp
  obtain k where k: "k < length (db_kvs (bs ! i))" "x = db_kvs (bs ! i) ! k" using assms(3) by (auto simp: in_set_conv_nth)
  have no: "\<not> ?P y x" if "y = x \<or> ?P x y" for y using that cmp_refl cmp_trans by blast
  have ne: "db_kvs (bs ! i) \<noteq> []" using assms(3) by auto
  have st: "?P (db_kvs (bs ! i) ! m) (db_kvs (bs ! i) ! l)" if "m < l" "l < length (db_kvs (bs ! i))" for m l
    using b that by (simp add: sorted_wrt_iff_nth_less)
  have "k = length (db_kvs (bs ! i)) - 1 \<or> k < length (db_kvs (bs ! i)) - 1" using k by arith
  then have "last (db_kvs (bs ! i)) = x \<or> ?P x (last (db_kvs (bs ! i)))"
    unfolding last_conv_nth [OF ne] k(2) using st [of k "length (db_kvs (bs ! i)) - 1"] ne by auto
  then show "\<not> ?P (last (db_kvs (bs ! i))) x" by (rule no)
  have "k = 0 \<or> ?P (db_kvs (bs ! i) ! 0) x" using st [of 0 k] k by auto
  then show "\<not> ?P x (hd (db_kvs (bs ! i)))"
    unfolding hd_conv_nth [OF ne] using k cmp_refl cmp_trans by blast
  show "i < j \<Longrightarrow> j < length bs \<Longrightarrow> y \<in> set (db_kvs (bs ! j)) \<Longrightarrow> ?P x y"
    using sorted_wrt_concat(2) [OF so, of i x j y] assms(2,3) by simp
qed

lemma sep_facts:
  assumes o: "ordered c (concat (map db_kvs bs))" and ne: "\<forall>b \<in> set bs. db_kvs b \<noteq> []" and i: "i < length bs"
  shows "readable c (sep_at c bs i)"
    and "x \<in> set (db_kvs (bs ! i)) \<Longrightarrow> \<not> cmp_compare c (sep_at c bs i) (fst x) < 0"
    and "i < j \<Longrightarrow> j < length bs \<Longrightarrow> y \<in> set (db_kvs (bs ! j)) \<Longrightarrow> cmp_compare c (sep_at c bs i) (fst y) < 0"
proof -
  let ?z = "last (db_kvs (bs ! i))" and ?a = "hd (db_kvs (bs ! Suc i))"
  have z: "?z \<in> set (db_kvs (bs ! i))" using ne i by simp
  note bf = block_facts [OF o]
  have s: "sep_at c bs i = (if Suc i < length bs then find_shortest_separator c (fst ?z) (fst ?a)
      else find_short_successor c (fst ?z))" using i by (simp add: sep_at_def index_entries_def)
  have rz: "readable c (fst ?z)" by (rule bf(1) [OF i z])
  show r: "readable c (sep_at c bs i)" using s rz sep_readable succ_readable by simp
  have low: "\<not> cmp_compare c (sep_at c bs i) (fst ?z) < 0" using s rz sep_lower succ_lower by simp
  show "x \<in> set (db_kvs (bs ! i)) \<Longrightarrow> \<not> cmp_compare c (sep_at c bs i) (fst x) < 0"
    using low bf(2) [OF i] cmp_le_less_trans [OF rz r low] by blast
  assume j: "i < j" "j < length bs" and y: "y \<in> set (db_kvs (bs ! j))"
  then have a: "Suc i < length bs" "?a \<in> set (db_kvs (bs ! Suc i))" using ne by auto
  have "cmp_compare c (fst ?z) (fst ?a) < 0" by (rule bf(4) [OF i z _ a]) simp
  then have up: "cmp_compare c (sep_at c bs i) (fst ?a) < 0" using s a(1) rz bf(1) [OF a] sep_upper by simp
  have "\<not> cmp_compare c (fst y) (fst ?a) < 0"
  proof (cases "j = Suc i")
    case True then show ?thesis using bf(3) [OF a(1), of y] y by simp
  next
    case False
    then have "cmp_compare c (fst ?a) (fst y) < 0" using bf(4) [OF a, of j y] j y by simp
    then show ?thesis using cmp_trans cmp_refl by blast
  qed
  then show "cmp_compare c (sep_at c bs i) (fst y) < 0"
    using cmp_less_le_trans [OF bf(1) [OF a] bf(1) [OF j(2) y] up] by simp
qed

lemma index_ordered:
  assumes "ordered c (concat (map db_kvs bs))" "\<forall>b \<in> set bs. db_kvs b \<noteq> []"
  shows "ordered c (index_entries c bs)"
  unfolding ordered_def
proof
  note sf = sep_facts [OF assms]
  have "cmp_compare c (sep_at c bs i) (sep_at c bs j) < 0" if "i < j" "j < length bs" for i j
  proof -
    let ?z = "last (db_kvs (bs ! j))"
    have z: "?z \<in> set (db_kvs (bs ! j))" using assms(2) that by simp
    have i: "i < length bs" using that by simp
    show ?thesis
      by (rule cmp_less_le_trans [OF block_facts(1) [OF assms(1) that(2) z] sf(1) [OF that(2)]
            sf(3) [OF i that z] sf(2) [OF that(2) z]])
  qed
  then show "sorted_wrt (\<lambda>x y. cmp_compare c (fst x) (fst y) < 0) (index_entries c bs)"
    by (simp add: sorted_wrt_iff_nth_less index_entries_nth)
  show "\<forall>x \<in> set (index_entries c bs). readable c (fst x)"
    using sf(1) by (auto simp: in_set_conv_nth index_entries_nth)
qed

lemma index_misses:
  assumes "ordered c (concat (map db_kvs bs))" "\<forall>b \<in> set bs. db_kvs b \<noteq> []"
    and "first_at c t (index_entries c bs) = None"
  shows "first_at c t (concat (map db_kvs bs)) = None"
  unfolding first_at_None
proof
  fix x assume "x \<in> set (concat (map db_kvs bs))"
  then obtain i where i: "i < length bs" "x \<in> set (db_kvs (bs ! i))" using in_concat_map [of x db_kvs bs] by auto
  note sf = sep_facts [OF assms(1,2) i(1)]
  have "index_entries c bs ! i \<in> set (index_entries c bs)" by (rule nth_mem) (use i(1) in \<open>simp add: index_entries_nth(1)\<close>)
  then have "cmp_compare c (sep_at c bs i) t < 0"
    using assms(3) unfolding first_at_None sep_at_def by blast
  then show "cmp_compare c (fst x) t < 0"
    by (rule cmp_le_less_trans [OF block_facts(1) [OF assms(1) i] sf(1) sf(2) [OF i(2)]])
qed

lemma index_routes:
  assumes o: "ordered c (concat (map db_kvs bs))" and ne: "\<forall>b \<in> set bs. db_kvs b \<noteq> []" and t: "readable c t"
    and "first_at c t (index_entries c bs) = Some e"
  obtains i where "i < length bs" "e = (sep_at c bs i, handle_encode_to (db_handle (bs ! i)) [])"
    "first_at c t (db_kvs (bs ! i)) = None \<or> first_at c t (db_kvs (bs ! i)) = first_at c t (concat (map db_kvs bs))"
    "\<And>k v. first_at c t (concat (map db_kvs bs)) = Some (k, v) \<Longrightarrow> same k t \<Longrightarrow>
       first_at c t (db_kvs (bs ! i)) = Some (k, v)"
proof -
  note sf = sep_facts [OF o ne] and bf = block_facts [OF o]
  obtain i where i: "i < length bs" "e = index_entries c bs ! i" "\<not> cmp_compare c (sep_at c bs i) t < 0"
    "\<forall>j < i. cmp_compare c (sep_at c bs j) t < 0"
    using assms(4) by (auto simp: first_at_def find_Some_iff index_entries_nth)
  let ?b = "db_kvs (bs ! i)" and ?r = "concat (map db_kvs (drop (Suc i) bs))"
  have kvs: "concat (map db_kvs bs) = concat (map db_kvs (take i bs)) @ ?b @ ?r"
    using arg_cong [OF id_take_nth_drop [OF i(1)], of "\<lambda>bs. concat (map db_kvs bs)"] by simp
  have "\<forall>x \<in> set (concat (map db_kvs (take i bs))). cmp_compare c (fst x) t < 0"
  proof
    fix x assume "x \<in> set (concat (map db_kvs (take i bs)))"
    then obtain j where j: "j < i" "x \<in> set (db_kvs (bs ! j))" using in_concat_map [of x db_kvs "take i bs"] by auto
    then have jl: "j < length bs" using i(1) by simp
    show "cmp_compare c (fst x) t < 0"
      by (rule cmp_le_less_trans [OF bf(1) [OF jl j(2)] sf(1) [OF jl] sf(2) [OF jl j(2)]]) (use i(4) j in simp)
  qed
  then have fa: "first_at c t (concat (map db_kvs bs)) = first_at c t (?b @ ?r)"
    unfolding kvs by (rule first_at_skip)
  have miss: "\<not> same k t" if n: "first_at c t ?b = None" and s: "first_at c t ?r = Some (k, v)" for k v
  proof -
    let ?z = "last ?b" and ?a = "hd (db_kvs (bs ! Suc i))"
    have l: "Suc i < length bs" using s by (cases "Suc i < length bs") (simp_all add: first_at_def)
    then have a: "?a \<in> set (db_kvs (bs ! Suc i))" and z: "?z \<in> set ?b" using ne i(1) by simp_all
    have "cmp_compare c (sep_at c bs i) (fst ?a) < 0" by (rule sf(3) [OF i(1) _ l a]) simp
    then have "\<not> cmp_compare c (fst ?a) t < 0" using i(3) cmp_trans by blast
    moreover have "?r = db_kvs (bs ! Suc i) @ concat (map db_kvs (drop (Suc (Suc i)) bs))"
      by (subst Cons_nth_drop_Suc [OF l, symmetric]) simp
    ultimately have "(k, v) = ?a" using s a by (cases "db_kvs (bs ! Suc i)") (auto simp: first_at_def)
    moreover have "\<not> same (fst ?a) t"
    proof (rule sep_same [OF bf(1) [OF i(1) z] bf(1) [OF l a] t])
      show "cmp_compare c (fst ?z) (fst ?a) < 0" by (rule bf(4) [OF i(1) z _ l a]) simp
      show "cmp_compare c (fst ?z) t < 0" using n z by (simp add: first_at_None)
      show "\<not> cmp_compare c (find_shortest_separator c (fst ?z) (fst ?a)) t < 0"
        using i(1,3) l by (simp add: sep_at_def index_entries_def)
    qed
    ultimately show ?thesis by (metis fst_conv)
  qed
  show thesis
  proof (rule that [OF i(1)])
    show "e = (sep_at c bs i, handle_encode_to (db_handle (bs ! i)) [])" using i by (simp add: index_entries_nth)
    show "first_at c t ?b = None \<or> first_at c t ?b = first_at c t (concat (map db_kvs bs))"
      unfolding fa using first_at_append_Some by (cases "first_at c t ?b") fastforce+
    show "first_at c t ?b = Some (k, v)" if "first_at c t (concat (map db_kvs bs)) = Some (k, v)" "same k t" for k v
      using that miss [of k v] first_at_append_Some [of c t ?b _ ?r] first_at_skip [of ?b c t ?r]
      unfolding fa by (cases "first_at c t ?b") (auto simp: first_at_None)
  qed
qed

end

end
