(* ===== verification/Two_Level.thy ===== *)
theory Two_Level
  imports Merger_Props Table_Read
begin

text \<open>
  src/two_level_iterator.cpp: an iterator over what the entries of an index refer to.  The
  function that turns an index value into an iterator is an argument; its first argument
  is the number of the call, for what it reads from (a cache, a file) may have changed
  since the last one.  The skip loops are partial functions, shown to return.
\<close>

section \<open>Model\<close>

record ('x, 'd) TwoLevelIterator =
  tl_index :: 'x
  tl_data :: "'d option"
  tl_handle :: bytes
  tl_status :: status
  tl_calls :: nat

definition new_two_level_iterator :: "'x \<Rightarrow> ('x, 'd) TwoLevelIterator" where
  "new_two_level_iterator index_iter =
     \<lparr>tl_index = index_iter, tl_data = None, tl_handle = [], tl_status = status_ok, tl_calls = 0\<rparr>"

definition tl_valid :: "'d Iterator \<Rightarrow> ('x, 'd) TwoLevelIterator \<Rightarrow> bool" where
  "tl_valid W t \<longleftrightarrow> (case tl_data t of None \<Rightarrow> False | Some d \<Rightarrow> it_valid W d)"

definition save_error :: "status \<Rightarrow> ('x, 'd) TwoLevelIterator \<Rightarrow> ('x, 'd) TwoLevelIterator" where
  "save_error s t = (if is_ok (tl_status t) \<and> \<not> is_ok s then t\<lparr>tl_status := s\<rparr> else t)"

definition save_data_error :: "'d Iterator \<Rightarrow> ('x, 'd) TwoLevelIterator \<Rightarrow> ('x, 'd) TwoLevelIterator" where
  "save_data_error W t = (case tl_data t of None \<Rightarrow> t | Some d \<Rightarrow> save_error (it_status W d) t)"

definition set_data_iterator :: "'d Iterator \<Rightarrow> 'd option \<Rightarrow> ('x, 'd) TwoLevelIterator \<Rightarrow> ('x, 'd) TwoLevelIterator" where
  "set_data_iterator W d t = (save_data_error W t)\<lparr>tl_data := d\<rparr>"

definition init_data_block ::
    "'x Iterator \<Rightarrow> 'd Iterator \<Rightarrow> (nat \<Rightarrow> bytes \<Rightarrow> 'd) \<Rightarrow> ('x, 'd) TwoLevelIterator \<Rightarrow> ('x, 'd) TwoLevelIterator" where
  "init_data_block V W f t =
     (if \<not> it_valid V (tl_index t) then set_data_iterator W None t
      else let handle = it_value V (tl_index t) in
        if tl_data t \<noteq> None \<and> handle = tl_handle t then t
        else set_data_iterator W (Some (f (tl_calls t) handle))
               (t\<lparr>tl_handle := handle, tl_calls := tl_calls t + 1\<rparr>))"

text \<open>A call on the data iterator, if there is one.\<close>

definition on_data :: "'d Iterator \<Rightarrow> cursor_op \<Rightarrow> ('x, 'd) TwoLevelIterator \<Rightarrow> ('x, 'd) TwoLevelIterator option" where
  "on_data W op t =
     (case tl_data t of
        None \<Rightarrow> Some t
      | Some d \<Rightarrow> map_option (\<lambda>d'. t\<lparr>tl_data := Some d'\<rparr>) (it_do W op d))"

text \<open>A call on the index iterator, the block it then stands on, and a call on that.\<close>

definition reposition ::
    "'x Iterator \<Rightarrow> 'd Iterator \<Rightarrow> (nat \<Rightarrow> bytes \<Rightarrow> 'd) \<Rightarrow> cursor_op \<Rightarrow> cursor_op \<Rightarrow>
     ('x, 'd) TwoLevelIterator \<Rightarrow> ('x, 'd) TwoLevelIterator option" where
  "reposition V W f index_op data_op t =
     Option.bind (it_do V index_op (tl_index t))
       (\<lambda>x. on_data W data_op (init_data_block V W f (t\<lparr>tl_index := x\<rparr>)))"

partial_function (option) skip_empty_blocks_forward ::
    "'x Iterator \<Rightarrow> 'd Iterator \<Rightarrow> (nat \<Rightarrow> bytes \<Rightarrow> 'd) \<Rightarrow> ('x, 'd) TwoLevelIterator \<Rightarrow> ('x, 'd) TwoLevelIterator option" where
  "skip_empty_blocks_forward V W f t =
     (if tl_valid W t then Some t
      else let t1 = save_data_error W t in
        if \<not> it_valid V (tl_index t1) then Some (set_data_iterator W None t1)
        else Option.bind (reposition V W f Next SeekToFirst t1) (skip_empty_blocks_forward V W f))"

partial_function (option) skip_empty_blocks_backward ::
    "'x Iterator \<Rightarrow> 'd Iterator \<Rightarrow> (nat \<Rightarrow> bytes \<Rightarrow> 'd) \<Rightarrow> ('x, 'd) TwoLevelIterator \<Rightarrow> ('x, 'd) TwoLevelIterator option" where
  "skip_empty_blocks_backward V W f t =
     (if tl_valid W t then Some t
      else let t1 = save_data_error W t in
        if \<not> it_valid V (tl_index t1) then Some (set_data_iterator W None t1)
        else Option.bind (reposition V W f Prev SeekToLast t1) (skip_empty_blocks_backward V W f))"

text \<open>Next and prev with no data iterator would follow a null pointer.\<close>

definition tl_do ::
    "'x Iterator \<Rightarrow> 'd Iterator \<Rightarrow> (nat \<Rightarrow> bytes \<Rightarrow> 'd) \<Rightarrow> cursor_op \<Rightarrow>
     ('x, 'd) TwoLevelIterator \<Rightarrow> ('x, 'd) TwoLevelIterator option" where
  "tl_do V W f op t =
     (case op of
        Seek target \<Rightarrow> Option.bind (reposition V W f (Seek target) (Seek target) t) (skip_empty_blocks_forward V W f)
      | SeekToFirst \<Rightarrow> Option.bind (reposition V W f SeekToFirst SeekToFirst t) (skip_empty_blocks_forward V W f)
      | SeekToLast \<Rightarrow> Option.bind (reposition V W f SeekToLast SeekToLast t) (skip_empty_blocks_backward V W f)
      | Next \<Rightarrow> if tl_data t = None then None
                else Option.bind (on_data W Next t) (skip_empty_blocks_forward V W f)
      | Prev \<Rightarrow> if tl_data t = None then None
                else Option.bind (on_data W Prev t) (skip_empty_blocks_backward V W f))"

text \<open>The first real error wins, and an error in either level counts.\<close>

definition tl_get_status :: "'x Iterator \<Rightarrow> 'd Iterator \<Rightarrow> ('x, 'd) TwoLevelIterator \<Rightarrow> status" where
  "tl_get_status V W t =
     (if \<not> is_ok (it_status V (tl_index t)) then it_status V (tl_index t)
      else case tl_data t of
        None \<Rightarrow> tl_status t
      | Some d \<Rightarrow> if \<not> is_ok (it_status W d) then it_status W d else tl_status t)"

definition TwoLevelIterator ::
    "'x Iterator \<Rightarrow> 'd Iterator \<Rightarrow> (nat \<Rightarrow> bytes \<Rightarrow> 'd) \<Rightarrow> ('x, 'd) TwoLevelIterator Iterator" where
  "TwoLevelIterator V W f =
     \<lparr>it_valid = tl_valid W,
      it_key = (\<lambda>t. it_key W (the (tl_data t))),
      it_value = (\<lambda>t. it_value W (the (tl_data t))),
      it_status = tl_get_status V W,
      it_do = tl_do V W f\<rparr>"

section \<open>Layout\<close>

text \<open>
  What the index refers to: entry \<open>j\<close> of the index bounds the entries of its block from
  above, and the blocks after it from below.
\<close>

definition layout ::
    "Comparator \<Rightarrow> ('d \<Rightarrow> (bytes \<times> bytes) list \<Rightarrow> nat \<Rightarrow> bool) \<Rightarrow> (nat \<Rightarrow> bytes \<Rightarrow> 'd) \<Rightarrow>
     (bytes \<times> bytes) list \<Rightarrow> (bytes \<Rightarrow> (bytes \<times> bytes) list) \<Rightarrow> bool" where
  "layout c at f idx content \<longleftrightarrow>
     (\<forall>j < length idx. \<forall>n. \<exists>p. at (f n (snd (idx ! j))) (content (snd (idx ! j))) p) \<and>
     (\<forall>j < length idx. \<forall>x \<in> set (content (snd (idx ! j))). \<not> cmp_compare c (fst (idx ! j)) (fst x) < 0) \<and>
     (\<forall>j < length idx. \<forall>i < j. \<forall>x \<in> set (content (snd (idx ! j))). cmp_compare c (fst (idx ! i)) (fst x) < 0)"

abbreviation block_list :: "(bytes \<times> bytes) list \<Rightarrow> (bytes \<Rightarrow> (bytes \<times> bytes) list) \<Rightarrow> (bytes \<times> bytes) list list" where
  "block_list idx content \<equiv> map (\<lambda>e. content (snd e)) idx"

definition start :: "'a list list \<Rightarrow> nat \<Rightarrow> nat" where
  "start xss j = length (concat (take j xss))"

lemma start_0 [simp]: "start xss 0 = 0"
  by (simp add: start_def)

lemma start_Suc [simp]: "j < length xss \<Longrightarrow> start xss (Suc j) = start xss j + length (xss ! j)"
  by (simp add: start_def take_Suc_conv_app_nth)

lemma start_all [simp]: "length xss \<le> j \<Longrightarrow> start xss j = length (concat xss)"
  by (simp add: start_def)

lemma start_le: "start xss j \<le> length (concat xss)"
proof -
  have "concat xss = concat (take j xss) @ concat (drop j xss)" by (metis append_take_drop_id concat_append)
  then show ?thesis by (simp add: start_def)
qed

lemma concat_at: "j < length xss \<Longrightarrow> q < length (xss ! j) \<Longrightarrow> concat xss ! (start xss j + q) = xss ! j ! q"
proof -
  assume j: "j < length xss" and q: "q < length (xss ! j)"
  have "concat xss = concat (take j xss) @ xss ! j @ concat (drop (Suc j) xss)"
    by (metis append_take_drop_id concat.simps(2) concat_append Cons_nth_drop_Suc j)
  then show ?thesis using q by (simp add: start_def nth_append)
qed

lemma start_less: "j < length xss \<Longrightarrow> q < length (xss ! j) \<Longrightarrow> start xss j + q < length (concat xss)"
  using start_le [of xss "Suc j"] by simp

lemma sorted_concatI:
  "(\<And>i. i < length xss \<Longrightarrow> sorted_wrt P (xss ! i)) \<Longrightarrow>
   (\<And>i j x y. i < j \<Longrightarrow> j < length xss \<Longrightarrow> x \<in> set (xss ! i) \<Longrightarrow> y \<in> set (xss ! j) \<Longrightarrow> P x y) \<Longrightarrow> sorted_wrt P (concat xss)"
proof (induction xss)
  case (Cons xs xss)
  have "sorted_wrt P xs" using Cons.prems(1) [of 0] by simp
  moreover have "sorted_wrt P (concat xss)"
    by (rule Cons.IH) (use Cons.prems(1) [of "Suc _"] Cons.prems(2) [of "Suc _" "Suc _"] in auto)
  moreover have "P x y" if x: "x \<in> set xs" and y: "y \<in> set (concat xss)" for x y
  proof -
    obtain ys where "ys \<in> set xss" "y \<in> set ys" using y by auto
    then obtain j where "j < length xss" "y \<in> set (xss ! j)" by (metis in_set_conv_nth)
    then show ?thesis using Cons.prems(2) [of 0 "Suc j" x y] x by simp
  qed
  ultimately show ?case by (simp add: sorted_wrt_append)
qed simp

lemma takeWhile_none: "(\<And>x. x \<in> set xs \<Longrightarrow> \<not> P x) \<Longrightarrow> takeWhile P xs = []"
  by (cases xs) auto

section \<open>Positions\<close>

definition tl_ready ::
    "('x \<Rightarrow> (bytes \<times> bytes) list \<Rightarrow> nat \<Rightarrow> bool) \<Rightarrow> ('d \<Rightarrow> (bytes \<times> bytes) list \<Rightarrow> nat \<Rightarrow> bool) \<Rightarrow>
     (bytes \<times> bytes) list \<Rightarrow> (bytes \<Rightarrow> (bytes \<times> bytes) list) \<Rightarrow> ('x, 'd) TwoLevelIterator \<Rightarrow> nat \<Rightarrow> nat \<Rightarrow> bool" where
  "tl_ready at atd idx content t j q \<longleftrightarrow>
     at (tl_index t) idx j \<and> tl_status t = status_ok \<and>
     (if j < length idx
      then (\<exists>d. tl_data t = Some d \<and> atd d (content (snd (idx ! j))) q \<and> tl_handle t = snd (idx ! j))
      else tl_data t = None)"

definition tl_at ::
    "Comparator \<Rightarrow> ('x \<Rightarrow> (bytes \<times> bytes) list \<Rightarrow> nat \<Rightarrow> bool) \<Rightarrow> ('d \<Rightarrow> (bytes \<times> bytes) list \<Rightarrow> nat \<Rightarrow> bool) \<Rightarrow>
     (nat \<Rightarrow> bytes \<Rightarrow> 'd) \<Rightarrow> ('x, 'd) TwoLevelIterator \<Rightarrow> (bytes \<times> bytes) list \<Rightarrow> nat \<Rightarrow> bool" where
  "tl_at c at atd f t kvs p \<longleftrightarrow> p \<le> length kvs \<and>
     (\<exists>idx content. layout c atd f idx content \<and> kvs = concat (block_list idx content) \<and>
        (if p < length kvs
         then (\<exists>j q. j < length idx \<and> q < length (content (snd (idx ! j))) \<and> p = start (block_list idx content) j + q \<and>
                 tl_ready at atd idx content t j q)
         else tl_data t = None \<and> tl_status t = status_ok \<and> (\<exists>j. at (tl_index t) idx j)))"

locale two_level = ix: cursor c V at + dt: cursor c W atd
  for c and V :: "'x Iterator" and at and W :: "'d Iterator" and atd
begin

lemma saved: "tl_status t = status_ok \<Longrightarrow> (\<And>d. tl_data t = Some d \<Longrightarrow> \<exists>kvs p. atd d kvs p) \<Longrightarrow> save_data_error W t = t"
  using dt.at_status by (fastforce simp: save_data_error_def save_error_def split: option.splits)

text \<open>The states init_data_block meets: the data iterator, if any, is over what its handle refers to.\<close>

definition sound :: "(bytes \<times> bytes) list \<Rightarrow> (bytes \<Rightarrow> (bytes \<times> bytes) list) \<Rightarrow> ('x, 'd) TwoLevelIterator \<Rightarrow> bool" where
  "sound idx content t \<longleftrightarrow> tl_status t = status_ok \<and> (\<exists>j. at (tl_index t) idx j) \<and>
     (\<forall>d. tl_data t = Some d \<longrightarrow> (\<exists>p. atd d (content (tl_handle t)) p))"

lemma ready_sound: "tl_ready at atd idx content t j q \<Longrightarrow> sound idx content t"
  by (auto simp: tl_ready_def sound_def split: if_splits)

lemma init_ready:
  assumes "sound idx content t" "layout c atd f idx content" "at (tl_index t) idx j"
  shows "\<exists>q. tl_ready at atd idx content (init_data_block V W f t) j q"
proof -
  have saved': "save_data_error W (t\<lparr>tl_handle := h, tl_calls := n\<rparr>) = t\<lparr>tl_handle := h, tl_calls := n\<rparr>" for h n
    by (rule saved) (use assms(1) in \<open>auto simp: sound_def\<close>)
  have "save_data_error W t = t" by (rule saved) (use assms(1) in \<open>auto simp: sound_def\<close>)
  moreover have "\<exists>p. atd (f n (snd (idx ! j))) (content (snd (idx ! j))) p" if "j < length idx" for n
    using assms(2) that by (auto simp: layout_def)
  ultimately show ?thesis
    using assms(1,3) ix.at_valid [OF assms(3)] ix.at_value [OF assms(3)] saved'
    by (auto simp: init_data_block_def Let_def set_data_iterator_def tl_ready_def sound_def)
qed

lemma repositioned:
  assumes s: "sound idx content t" and lay: "layout c atd f idx content"
    and ix: "\<exists>x. it_do V op (tl_index t) = Some x \<and> at x idx j"
    and dt: "\<And>d kvs p. kvs = content (snd (idx ! j)) \<Longrightarrow> atd d kvs p \<Longrightarrow> \<exists>d'. it_do W op' d = Some d' \<and> atd d' kvs (g kvs)"
  shows "\<exists>t'. reposition V W f op op' t = Some t' \<and> tl_ready at atd idx content t' j (g (content (snd (idx ! j))))"
proof -
  obtain x where x: "it_do V op (tl_index t) = Some x" "at x idx j" using ix by blast
  have "sound idx content (t\<lparr>tl_index := x\<rparr>)" using s x(2) by (auto simp: sound_def)
  then obtain q where "tl_ready at atd idx content (init_data_block V W f (t\<lparr>tl_index := x\<rparr>)) j q"
    using init_ready [OF _ lay, of "t\<lparr>tl_index := x\<rparr>" j] x(2) by auto
  then show ?thesis using x(1) dt
    by (cases "j < length idx") (fastforce simp: reposition_def on_data_def tl_ready_def)+
qed

lemma ready_valid: "tl_ready at atd idx content t j q \<Longrightarrow>
    tl_valid W t \<longleftrightarrow> j < length idx \<and> q < length (content (snd (idx ! j)))"
  using dt.at_valid by (auto simp: tl_ready_def tl_valid_def split: if_splits)

lemma ready_saved: "tl_ready at atd idx content t j q \<Longrightarrow> save_data_error W t = t"
  by (rule saved) (auto simp: tl_ready_def split: if_splits)

lemma settled:
  assumes lay: "layout c atd f idx content" and r: "tl_ready at atd idx content t j q"
    and j: "j < length idx" "q < length (content (snd (idx ! j)))"
  shows "tl_at c at atd f t (concat (block_list idx content)) (start (block_list idx content) j + q)"
proof -
  let ?k = "concat (block_list idx content)" and ?p = "start (block_list idx content) j + q"
  have "?p < length ?k" using start_less [of j "block_list idx content" q] j by simp
  then show ?thesis unfolding tl_at_def using lay r j by (intro conjI exI [of _ idx] exI [of _ content]) auto
qed

lemma exhausted:
  assumes lay: "layout c atd f idx content" and r: "tl_ready at atd idx content t j q" and j: "\<not> j < length idx"
  shows "tl_at c at atd f (set_data_iterator W None t) (concat (block_list idx content)) (length (concat (block_list idx content)))"
  using lay r j ready_saved [OF r] unfolding tl_at_def
  by (intro conjI exI [of _ idx] exI [of _ content]) (auto simp: tl_ready_def set_data_iterator_def)

lemma skip_forward:
  assumes lay: "layout c atd f idx content"
  shows "tl_ready at atd idx content t j q \<Longrightarrow> (j < length idx \<Longrightarrow> q \<le> length (content (snd (idx ! j)))) \<Longrightarrow>
    (\<not> j < length idx \<Longrightarrow> q = 0) \<Longrightarrow>
    \<exists>t'. skip_empty_blocks_forward V W f t = Some t' \<and>
      tl_at c at atd f t' (concat (block_list idx content)) (start (block_list idx content) j + q)"
proof (induction "length idx - j" arbitrary: t j q)
  case 0
  then have "\<not> j < length idx" by simp
  moreover from this have "\<not> it_valid V (tl_index t)" using 0(2) ix.at_valid by (auto simp: tl_ready_def)
  ultimately show ?case
    using 0 exhausted [OF lay 0(2)] ready_valid [OF 0(2)] ready_saved [OF 0(2)]
    by (subst skip_empty_blocks_forward.simps) (simp add: Let_def)
next
  case (Suc n)
  then have j: "j < length idx" by simp
  note r = Suc.prems(1)
  show ?case
  proof (cases "q < length (content (snd (idx ! j)))")
    case True
    then show ?thesis using settled [OF lay r j True] ready_valid [OF r] j
      by (subst skip_empty_blocks_forward.simps) simp
  next
    case False
    have v: "it_valid V (tl_index t)" and nx: "\<exists>x. it_do V Next (tl_index t) = Some x \<and> at x idx (Suc j)"
      using r ix.at_valid ix.at_next j by (auto simp: tl_ready_def)
    obtain t1 where t1: "reposition V W f Next SeekToFirst t = Some t1" "tl_ready at atd idx content t1 (Suc j) 0"
      using repositioned [OF ready_sound [OF r] lay nx, of SeekToFirst "\<lambda>_. 0"] dt.at_first by blast
    have "n = length idx - Suc j" using Suc.hyps(2) by simp
    then obtain t' where "skip_empty_blocks_forward V W f t1 = Some t'"
        "tl_at c at atd f t' (concat (block_list idx content)) (start (block_list idx content) (Suc j) + 0)"
      using Suc.hyps(1) [OF _ t1(2)] by auto
    moreover have "start (block_list idx content) (Suc j) + 0 = start (block_list idx content) j + q"
      using j False Suc.prems(2) by simp
    ultimately show ?thesis using False j v t1(1) ready_valid [OF r] ready_saved [OF r]
      by (subst skip_empty_blocks_forward.simps) (simp add: Let_def)
  qed
qed

lemma skip_backward:
  assumes lay: "layout c atd f idx content"
  shows "tl_ready at atd idx content t j q \<Longrightarrow>
    p = (if j < length idx \<and> q < length (content (snd (idx ! j))) then start (block_list idx content) j + q
         else if j < length idx then before_cut (start (block_list idx content) j) (concat (block_list idx content))
         else length (concat (block_list idx content))) \<Longrightarrow>
    \<exists>t'. skip_empty_blocks_backward V W f t = Some t' \<and> tl_at c at atd f t' (concat (block_list idx content)) p"
proof (induction "if j < length idx then Suc j else 0" arbitrary: t j q p)
  case 0
  then have "\<not> j < length idx" by (simp split: if_splits)
  moreover from this have "\<not> it_valid V (tl_index t)" using 0(2) ix.at_valid by (auto simp: tl_ready_def)
  ultimately show ?case
    using 0 exhausted [OF lay 0(2)] ready_valid [OF 0(2)] ready_saved [OF 0(2)]
    by (subst skip_empty_blocks_backward.simps) (simp add: Let_def)
next
  case (Suc n)
  then have j: "j < length idx" "n = j" by (simp_all split: if_splits)
  note r = Suc.prems(1)
  show ?case
  proof (cases "q < length (content (snd (idx ! j)))")
    case True
    then show ?thesis using settled [OF lay r j(1) True] ready_valid [OF r] j Suc.prems(2)
      by (subst skip_empty_blocks_backward.simps) simp
  next
    case False
    let ?j = "if j = 0 then length idx else j - 1" and ?b = "block_list idx content"
    have v: "it_valid V (tl_index t)" and pv: "\<exists>x. it_do V Prev (tl_index t) = Some x \<and> at x idx ?j"
      using r ix.at_valid ix.at_prev j by (auto simp: tl_ready_def)
    obtain t1 where t1: "reposition V W f Prev SeekToLast t = Some t1"
        "tl_ready at atd idx content t1 ?j (length (content (snd (idx ! ?j))) - 1)"
      using repositioned [OF ready_sound [OF r] lay pv, of SeekToLast "\<lambda>kvs. length kvs - 1"] dt.at_last by blast
    have p: "p = before_cut (start ?b j) (concat ?b)" using Suc.prems(2) False j(1) by simp
    have "p = (if ?j < length idx \<and> length (content (snd (idx ! ?j))) - 1 < length (content (snd (idx ! ?j)))
        then start ?b ?j + (length (content (snd (idx ! ?j))) - 1)
        else if ?j < length idx then before_cut (start ?b ?j) (concat ?b) else length (concat ?b))"
      using j(1) by (cases j) (auto simp: p before_cut_def)
    moreover have "n = (if ?j < length idx then Suc ?j else 0)" using j by auto
    ultimately obtain t' where "skip_empty_blocks_backward V W f t1 = Some t'" "tl_at c at atd f t' (concat ?b) p"
      using Suc.hyps(1) [OF _ t1(2)] by blast
    then show ?thesis using False j(1) v t1(1) ready_valid [OF r] ready_saved [OF r]
      by (subst skip_empty_blocks_backward.simps) (simp add: Let_def)
  qed
qed

lemma layout_facts:
  assumes lay: "layout c atd f idx content" and o: "ordered c idx" and j: "j < length idx"
  shows "ordered c (content (snd (idx ! j)))"
    and "x \<in> set (content (snd (idx ! j))) \<Longrightarrow> short (fst x) \<and> readable c (fst x)"
    and "x \<in> set (content (snd (idx ! j))) \<Longrightarrow> cmp_compare c (fst (idx ! j)) t < 0 \<Longrightarrow> cmp_compare c (fst x) t < 0"
    and "i < j \<Longrightarrow> x \<in> set (content (snd (idx ! j))) \<Longrightarrow> cmp_compare c (fst (idx ! i)) (fst x) < 0"
proof -
  obtain p where p: "atd (f 0 (snd (idx ! j))) (content (snd (idx ! j))) p" using lay j unfolding layout_def by blast
  show o': "ordered c (content (snd (idx ! j)))" by (rule dt.at_ordered [OF p])
  show sr: "x \<in> set (content (snd (idx ! j))) \<Longrightarrow> short (fst x) \<and> readable c (fst x)"
    using dt.at_short [OF p] o' by (simp add: ordered_def)
  have rj: "readable c (fst (idx ! j))" using o j by (simp add: ordered_def)
  show "cmp_compare c (fst x) t < 0" if "x \<in> set (content (snd (idx ! j)))" "cmp_compare c (fst (idx ! j)) t < 0"
    using ix.cmp_le_less_trans [OF conjunct2 [OF sr [OF that(1)]] rj _ that(2)] lay j that(1) by (auto simp: layout_def)
  show "i < j \<Longrightarrow> x \<in> set (content (snd (idx ! j))) \<Longrightarrow> cmp_compare c (fst (idx ! i)) (fst x) < 0"
    using lay j by (auto simp: layout_def)
qed

lemma layout_ordered:
  assumes lay: "layout c atd f idx content" and o: "ordered c idx"
  shows "ordered c (concat (block_list idx content))"
proof -
  note lf = layout_facts [OF lay o]
  have "sorted_wrt (\<lambda>x y. cmp_compare c (fst x) (fst y) < 0) (concat (block_list idx content))"
  proof (rule sorted_concatI)
    fix i j x y assume "i < j" "j < length (block_list idx content)" "x \<in> set (block_list idx content ! i)" "y \<in> set (block_list idx content ! j)"
    then show "cmp_compare c (fst x) (fst y) < 0" using lf(3) [of i x "fst y"] lf(4) [of j i y] by simp
  qed (use lf(1) in \<open>simp add: ordered_def\<close>)
  moreover have "readable c (fst x)" if "x \<in> set (concat (block_list idx content))" for x
    using in_concat_map [OF that] lf(2) by blast
  ultimately show ?thesis by (simp add: ordered_def)
qed

lemma lower_bound_concat:
  assumes lay: "layout c atd f idx content" and o: "ordered c idx" and j: "j = lower_bound c t idx"
  shows "lower_bound c t (concat (block_list idx content)) =
    start (block_list idx content) j + (if j < length idx then lower_bound c t (content (snd (idx ! j))) else 0)"
proof -
  let ?P = "\<lambda>x. cmp_compare c (fst x) t < 0" and ?b = "block_list idx content"
  note lf = layout_facts [OF lay o]
  have jl: "j \<le> length idx" unfolding j lower_bound_def by (rule length_takeWhile_le)
  have pre: "?P (idx ! i)" if "i < j" for i
    using that nth_mem [of i "takeWhile ?P idx"] set_takeWhileD [of _ ?P idx]
    by (auto simp: j lower_bound_def takeWhile_nth)
  have before: "?P x" if mem: "x \<in> set (concat (take j ?b))" for x
  proof -
    obtain i where "i < length (take j idx)" "x \<in> set (content (snd (take j idx ! i)))"
      using in_concat_map [of x "\<lambda>e. content (snd e)" "take j idx"] mem unfolding take_map by blast
    then show ?thesis using lf(3) [of i x t] pre [of i] by simp
  qed
  have split: "concat ?b = concat (take j ?b) @ concat (drop j ?b)" by (metis append_take_drop_id concat_append)
  have lb: "lower_bound c t (concat ?b) = start ?b j + length (takeWhile ?P (concat (drop j ?b)))"
    unfolding split lower_bound_def start_def using before by (subst takeWhile_append2) auto
  show ?thesis
  proof (cases "j < length idx")
    case True
    have nj: "\<not> ?P (idx ! j)" using True nth_length_takeWhile [of ?P idx] by (simp add: j lower_bound_def)
    have "\<not> ?P x" if mem: "x \<in> set (concat (drop (Suc j) ?b))" for x
    proof -
      obtain i where i: "i < length (drop (Suc j) idx)" "x \<in> set (content (snd (drop (Suc j) idx ! i)))"
        using in_concat_map [of x "\<lambda>e. content (snd e)" "drop (Suc j) idx"] mem unfolding drop_map by blast
      then have "cmp_compare c (fst (idx ! j)) (fst x) < 0" using lf(4) [of "Suc j + i" j x] by simp
      then show ?thesis using nj ix.cmp_trans by blast
    qed
    then have after: "takeWhile ?P (concat (drop (Suc j) ?b)) = []" by (rule takeWhile_none)
    have "concat (drop j ?b) = ?b ! j @ concat (drop (Suc j) ?b)"
      using True by (metis Cons_nth_drop_Suc concat.simps(2) length_map)
    then show ?thesis using lb True after by (simp add: takeWhile_append lower_bound_def takeWhile_eq_all_conv [THEN iffD2])
  qed (simp add: lb)
qed

lemma tl_at_sound:
  assumes "tl_at c at atd f t kvs p"
  obtains idx content where "layout c atd f idx content" "ordered c idx" "kvs = concat (block_list idx content)" "sound idx content t"
proof -
  obtain idx content where l: "layout c atd f idx content" "kvs = concat (block_list idx content)"
    and r: "if p < length kvs
         then (\<exists>j q. j < length idx \<and> q < length (content (snd (idx ! j))) \<and> p = start (block_list idx content) j + q \<and>
                 tl_ready at atd idx content t j q)
         else tl_data t = None \<and> tl_status t = status_ok \<and> (\<exists>j. at (tl_index t) idx j)"
    using assms unfolding tl_at_def by blast
  have "sound idx content t" using r ready_sound by (auto simp: sound_def split: if_splits)
  moreover from this have "ordered c idx" using ix.at_ordered by (auto simp: sound_def)
  ultimately show thesis using that l by blast
qed

lemma tl_seek_at:
  assumes "tl_at c at atd f t kvs p" "short target"
  shows "\<exists>t'. tl_do V W f (Seek target) t = Some t' \<and> tl_at c at atd f t' kvs (lower_bound c target kvs)"
proof -
  obtain idx content where l: "layout c atd f idx content" "ordered c idx" and kvs: "kvs = concat (block_list idx content)"
    and s: "sound idx content t" by (rule tl_at_sound [OF assms(1)])
  let ?j = "lower_bound c target idx"
  let ?q = "if ?j < length idx then lower_bound c target (content (snd (idx ! ?j))) else 0"
  have "\<exists>x. it_do V (Seek target) (tl_index t) = Some x \<and> at x idx ?j" using s ix.at_seek assms(2) by (auto simp: sound_def)
  from repositioned [OF s l(1) this, of "Seek target" "lower_bound c target"] obtain t1 where
      t1: "reposition V W f (Seek target) (Seek target) t = Some t1"
      "tl_ready at atd idx content t1 ?j (lower_bound c target (content (snd (idx ! ?j))))"
    using dt.at_seek [OF _ assms(2)] by blast
  then have "tl_ready at atd idx content t1 ?j ?q" by (simp add: tl_ready_def)
  from skip_forward [OF l(1) this] show ?thesis
    using t1(1) lower_bound_concat [OF l refl, of target] kvs by (auto simp: tl_do_def lower_bound_def length_takeWhile_le)
qed

lemma tl_first_at:
  assumes "tl_at c at atd f t kvs p"
  shows "\<exists>t'. tl_do V W f SeekToFirst t = Some t' \<and> tl_at c at atd f t' kvs 0"
proof -
  obtain idx content where l: "layout c atd f idx content" and kvs: "kvs = concat (block_list idx content)"
    and s: "sound idx content t" by (rule tl_at_sound [OF assms])
  have "\<exists>x. it_do V SeekToFirst (tl_index t) = Some x \<and> at x idx 0" using s ix.at_first by (auto simp: sound_def)
  from repositioned [OF s l this, of SeekToFirst "\<lambda>_. 0"] obtain t1 where
      t1: "reposition V W f SeekToFirst SeekToFirst t = Some t1" "tl_ready at atd idx content t1 0 0"
    using dt.at_first by blast
  from skip_forward [OF l t1(2)] show ?thesis using t1(1) kvs by (auto simp: tl_do_def)
qed

lemma tl_last_at:
  assumes "tl_at c at atd f t kvs p"
  shows "\<exists>t'. tl_do V W f SeekToLast t = Some t' \<and> tl_at c at atd f t' kvs (length kvs - 1)"
proof -
  obtain idx content where l: "layout c atd f idx content" and kvs: "kvs = concat (block_list idx content)"
    and s: "sound idx content t" by (rule tl_at_sound [OF assms])
  let ?j = "length idx - 1" and ?b = "block_list idx content"
  let ?q = "length (content (snd (idx ! ?j))) - 1"
  have "\<exists>x. it_do V SeekToLast (tl_index t) = Some x \<and> at x idx ?j" using s ix.at_last by (auto simp: sound_def)
  from repositioned [OF s l this, of SeekToLast "\<lambda>kvs. length kvs - 1"] obtain t1 where
      t1: "reposition V W f SeekToLast SeekToLast t = Some t1" "tl_ready at atd idx content t1 ?j ?q"
    using dt.at_last by blast
  have len: "length kvs = start ?b ?j + length (content (snd (idx ! ?j)))" if "idx \<noteq> []"
    using start_Suc [of ?j ?b] that by (simp add: kvs)
  have "length kvs - 1 = (if ?j < length idx \<and> ?q < length (content (snd (idx ! ?j))) then start ?b ?j + ?q
      else if ?j < length idx then before_cut (start ?b ?j) (concat ?b) else length (concat ?b))"
  proof (cases "idx = []")
    case False
    then show ?thesis using len unfolding kvs [symmetric] before_cut_def
      by (cases "length (content (snd (idx ! ?j)))") auto
  qed (simp add: kvs)
  from skip_backward [OF l t1(2) this] show ?thesis using t1(1) kvs by (simp add: tl_do_def)
qed

lemma tl_at_ready:
  assumes "tl_at c at atd f t kvs p" "p < length kvs"
  obtains idx content j q d where "layout c atd f idx content" "kvs = concat (block_list idx content)"
    "tl_ready at atd idx content t j q" "j < length idx" "q < length (content (snd (idx ! j)))"
    "p = start (block_list idx content) j + q" "tl_data t = Some d" "atd d (content (snd (idx ! j))) q"
proof -
  obtain idx content j q where r: "layout c atd f idx content" "kvs = concat (block_list idx content)"
    "tl_ready at atd idx content t j q" "j < length idx" "q < length (content (snd (idx ! j)))"
    "p = start (block_list idx content) j + q"
    using assms by (auto simp: tl_at_def)
  then obtain d where "tl_data t = Some d" "atd d (content (snd (idx ! j))) q" by (auto simp: tl_ready_def)
  then show thesis using that r by blast
qed

lemma tl_next_at:
  assumes "tl_at c at atd f t kvs p" "p < length kvs"
  shows "\<exists>t'. tl_do V W f Next t = Some t' \<and> tl_at c at atd f t' kvs (Suc p)"
proof -
  obtain idx content j q d where l: "layout c atd f idx content" "kvs = concat (block_list idx content)"
    and r: "tl_ready at atd idx content t j q" and j: "j < length idx" "q < length (content (snd (idx ! j)))"
    and p: "p = start (block_list idx content) j + q" and d: "tl_data t = Some d" "atd d (content (snd (idx ! j))) q"
    by (rule tl_at_ready [OF assms])
  obtain d' where d': "it_do W Next d = Some d'" "atd d' (content (snd (idx ! j))) (Suc q)" using dt.at_next [OF d(2) j(2)] by blast
  have "tl_ready at atd idx content (t\<lparr>tl_data := Some d'\<rparr>) j (Suc q)" using r j(1) d'(2) by (auto simp: tl_ready_def)
  from skip_forward [OF l(1) this] show ?thesis using d d'(1) j p l(2) by (auto simp: tl_do_def on_data_def)
qed

lemma tl_prev_at:
  assumes "tl_at c at atd f t kvs p" "p < length kvs"
  shows "\<exists>t'. tl_do V W f Prev t = Some t' \<and> tl_at c at atd f t' kvs (before_cut p kvs)"
proof -
  obtain idx content j q d where l: "layout c atd f idx content" "kvs = concat (block_list idx content)"
    and r: "tl_ready at atd idx content t j q" and j: "j < length idx" "q < length (content (snd (idx ! j)))"
    and p: "p = start (block_list idx content) j + q" and d: "tl_data t = Some d" "atd d (content (snd (idx ! j))) q"
    by (rule tl_at_ready [OF assms])
  let ?q = "if q = 0 then length (content (snd (idx ! j))) else q - 1"
  obtain d' where d': "it_do W Prev d = Some d'" "atd d' (content (snd (idx ! j))) ?q" using dt.at_prev [OF d(2) j(2)] by blast
  have "tl_ready at atd idx content (t\<lparr>tl_data := Some d'\<rparr>) j ?q" using r j(1) d'(2) by (auto simp: tl_ready_def)
  from skip_backward [OF l(1) this refl] show ?thesis using d d'(1) j p l(2)
    by (auto simp: tl_do_def on_data_def before_cut_def split: if_splits)
qed

lemma tl_observed:
  assumes "tl_at c at atd f t kvs p"
  shows "it_valid (TwoLevelIterator V W f) t \<longleftrightarrow> p < length kvs"
    and "p < length kvs \<Longrightarrow> it_key (TwoLevelIterator V W f) t = fst (kvs ! p) \<and> it_value (TwoLevelIterator V W f) t = snd (kvs ! p)"
    and "it_status (TwoLevelIterator V W f) t = status_ok"
proof -
  show "p < length kvs \<Longrightarrow> it_key (TwoLevelIterator V W f) t = fst (kvs ! p) \<and> it_value (TwoLevelIterator V W f) t = snd (kvs ! p)"
  proof (elim tl_at_ready [OF assms])
    fix idx content j q d assume "kvs = concat (block_list idx content)" "j < length idx" "q < length (content (snd (idx ! j)))"
      "p = start (block_list idx content) j + q" "tl_data t = Some d" "atd d (content (snd (idx ! j))) q"
    then show ?thesis using concat_at [of j "block_list idx content" q] dt.at_key [of d _ q] dt.at_value [of d _ q]
      by (simp add: TwoLevelIterator_def)
  qed
  show "it_valid (TwoLevelIterator V W f) t \<longleftrightarrow> p < length kvs"
  proof (cases "p < length kvs")
    case True
    then have "tl_valid W t" using ready_valid by (elim tl_at_ready [OF assms]) auto
    then show ?thesis using True by (simp add: TwoLevelIterator_def)
  qed (use assms in \<open>auto simp: TwoLevelIterator_def tl_valid_def tl_at_def\<close>)
  obtain idx content where "sound idx content t" by (rule tl_at_sound [OF assms])
  then show "it_status (TwoLevelIterator V W f) t = status_ok"
    using ix.at_status dt.at_status by (fastforce simp: TwoLevelIterator_def tl_get_status_def sound_def split: option.splits)
qed

lemma two_level_cursor: "cursor c (TwoLevelIterator V W f) (tl_at c at atd f)"
proof (unfold_locales, goal_cases)
  case (1 t kvs p)
  then show ?case by (elim tl_at_sound) (simp add: layout_ordered)
next
  case (2 t kvs p x)
  obtain idx content where l: "layout c atd f idx content" "ordered c idx" "kvs = concat (block_list idx content)"
    by (rule tl_at_sound [OF 2(1)])
  then show ?case using in_concat_map [of x "\<lambda>e. content (snd e)" idx] 2(2) layout_facts(2) [OF l(1,2)] by blast
next
  case (3 t kvs p)
  then show ?case by (simp add: tl_at_def)
next
  case (8 t kvs p op)
  then show ?case using tl_seek_at [OF 8(1)] tl_first_at [OF 8(1)] tl_last_at [OF 8(1)] tl_next_at [OF 8(1)] tl_prev_at [OF 8(1)]
    by (cases op) (auto simp: TwoLevelIterator_def may_do_def before_cut_def)
qed (simp_all add: tl_observed)

lemma new_two_level_at:
  assumes "layout c atd f idx content" "at x idx j"
  shows "tl_at c at atd f (new_two_level_iterator x) (concat (block_list idx content)) (length (concat (block_list idx content)))"
  unfolding tl_at_def using assms
  by (intro conjI exI [of _ idx] exI [of _ content]) (auto simp: new_two_level_iterator_def)

end

end
