(* ===== verification/Table_Get.thy ===== *)
theory Table_Get
  imports Table_Read
begin

text \<open>
  Looking a key up in a table that was built and opened: through the index, the filter
  and a block cache that may already hold the block.
\<close>

section \<open>The block cache\<close>

text \<open>
  A cache agrees with the table when every block it holds for a handle of the index is
  the block the file has there.
\<close>

definition coherent :: "Table \<Rightarrow> (bytes \<Rightarrow> Block option) \<Rightarrow> bool" where
  "coherent t lookup \<longleftrightarrow>
     (\<forall>target k v h rest raw b.
        Block_find (tr_comparator t) (tr_index_block t) target = Inr (Some (k, v)) \<longrightarrow>
        handle_decode_from v = Inr (h, rest) \<longrightarrow> read_block (tr_file t) (tr_file_size t) h = Inr raw \<longrightarrow>
        lookup (cache_key (tr_cache_id t) (bh_offset h)) = Some b \<longrightarrow> b = Block_ctor raw)"

definition with_insertion :: "(bytes \<Rightarrow> Block option) \<Rightarrow> insertion option \<Rightarrow> bytes \<Rightarrow> Block option" where
  "with_insertion lookup ins = (case ins of None \<Rightarrow> lookup | Some (key, block, _) \<Rightarrow> lookup(key \<mapsto> block))"

section \<open>Opened tables\<close>

text \<open>What opening the file of \<open>bs\<close> establishes.\<close>

definition opened :: "Options \<Rightarrow> Comparator \<Rightarrow> dblock list \<Rightarrow> Table \<Rightarrow> bool" where
  "opened opts c bs t \<longleftrightarrow>
     tr_options t = opts \<and> tr_comparator t = c \<and>
     (\<exists>off sh ri. holds (tr_index_block t) (index_entries c bs) off sh ri) \<and>
     (\<forall>b \<in> set bs. db_kvs b \<noteq> [] \<and> fst b < 2 ^ 64 \<and>
        read_block (tr_file t) (tr_file_size t) (db_handle b) =
          Inr (build_block (opt_block_restart_interval opts) (db_kvs b)) \<and>
        (\<exists>off sh ri. holds (Block_ctor (build_block (opt_block_restart_interval opts) (db_kvs b))) (db_kvs b) off sh ri)) \<and>
     distinct (map fst bs) \<and>
     (case opt_filter_policy opts of
        None \<Rightarrow> tr_filter t = None
      | Some p \<Rightarrow> \<exists>blocks. tr_filter t = Some (FilterBlockReader_ctor (fb_build p blocks)) \<and> sorted (map fst blocks) \<and>
          length (fb_build p blocks) < 2 ^ 32 \<and> key_count blocks < 2 ^ 32 \<and> set (filter_blocks bs) \<subseteq> set blocks)"

lemma sorted_filter_blocks:
  assumes "sorted_wrt (<) (map fst bs)" "\<forall>b \<in> set bs. fst b < q" "q < 2 ^ 64"
  shows "sorted (map fst (filter_blocks bs @ [(word_of_nat q, [])]))"
proof -
  have le: "(word_of_nat m :: u64) \<le> word_of_nat n" if "m \<le> n" "n < 2 ^ 64" for m n
    using that by (simp add: word_le_nat_alt)
  have "sorted_wrt (\<lambda>a b. (word_of_nat (fst a) :: u64) \<le> word_of_nat (fst b)) bs"
    using assms(1)
    by (auto simp: sorted_wrt_map intro!: sorted_wrt_mono_rel [of bs "\<lambda>a b. fst a < fst b"] le)
      (use assms(2,3) in fastforce)
  then show ?thesis using assms(2,3) by (auto simp: filter_blocks_def sorted_append sorted_map o_def intro!: le)
qed

lemma kv_bytes_entries: "length kvs \<le> kv_bytes kvs"
  by (induction kvs) (auto simp: kv_bytes_def)

lemma Table_open_opened:
  assumes tf: "table_file opts c (rf_data f) bs" and ok: "reads_ok f" and small: "length (rf_data f) < 2 ^ 32"
    and n: "1 \<le> opt_block_restart_interval opts" and kv: "kv_bytes (concat (map db_kvs bs)) + 8 < 2 ^ 32"
  shows "\<exists>t. Table_open nul opts c f (word_of_nat (length (rf_data f))) cache_id = Inr t \<and> opened opts c bs t"
proof -
  obtain t q where t: "Table_open nul opts c f (word_of_nat (length (rf_data f))) cache_id = Inr t"
    "tr_options t = opts" "tr_comparator t = c" "tr_file t = f" "tr_file_size t = word_of_nat (length (rf_data f))"
    "tr_index_block t = Block_ctor (build_block 1 (index_entries c bs))"
    "tr_filter t = map_option (\<lambda>p. FilterBlockReader_ctor (fb_build p (filter_blocks bs @ [(word_of_nat q, [])])))
       (opt_filter_policy opts)"
    and q: "\<forall>b \<in> set bs. fst b < q" "q \<le> length (rf_data f)" "length (build_block 1 (index_entries c bs)) < 2 ^ 32"
    "\<And>p. opt_filter_policy opts = Some p \<Longrightarrow> length (fb_build p (filter_blocks bs @ [(word_of_nat q, [])])) < 2 ^ 32"
    using Table_open_file [OF tf ok small n, of nul cache_id] by metis
  have onf: "on_file (opt_block_restart_interval opts) (rf_data f) bs" using tf by (auto simp: table_file_def)
  have big: "length (rf_data f) < 2 ^ 64" using small by simp
  have raw: "length (build_block (opt_block_restart_interval opts) (db_kvs b)) < 2 ^ 32" if "b \<in> set bs" for b
    using build_block_size [of "opt_block_restart_interval opts" "db_kvs b"]
      kv_bytes_concat [of "db_kvs b" "map db_kvs bs"] that kv by simp
  have blocks: "\<forall>b \<in> set bs. db_kvs b \<noteq> [] \<and> fst b < 2 ^ 64 \<and>
        read_block f (word_of_nat (length (rf_data f))) (db_handle b) =
          Inr (build_block (opt_block_restart_interval opts) (db_kvs b)) \<and>
        (\<exists>off sh ri. holds (Block_ctor (build_block (opt_block_restart_interval opts) (db_kvs b))) (db_kvs b) off sh ri)"
  proof
    fix b assume b: "b \<in> set bs"
    then have f: "db_kvs b \<noteq> []" "block_in (rf_data f) (db_handle b) (build_block (opt_block_restart_interval opts) (db_kvs b))"
      "fst b + 5 \<le> length (rf_data f)" using onf by (auto simp: on_file_def)
    show "db_kvs b \<noteq> [] \<and> fst b < 2 ^ 64 \<and>
        read_block f (word_of_nat (length (rf_data f))) (db_handle b) =
          Inr (build_block (opt_block_restart_interval opts) (db_kvs b)) \<and>
        (\<exists>off sh ri. holds (Block_ctor (build_block (opt_block_restart_interval opts) (db_kvs b))) (db_kvs b) off sh ri)"
      using f(1,3) big read_block_in [OF f(2) ok big raw [OF b]] build_block_holds [OF n raw [OF b]] by simp
  qed
  have srt: "sorted_wrt (<) (map fst bs)" using onf by (simp add: on_file_def)
  then have dist: "distinct (map fst bs)" by (simp add: strict_sorted_iff)
  have "key_count (filter_blocks bs @ [(word_of_nat q, [])]) = length (concat (map db_kvs bs))"
    by (simp add: filter_blocks_def length_concat o_def)
  then have keys: "key_count (filter_blocks bs @ [(word_of_nat q, [])]) < 2 ^ 32"
    using kv_bytes_entries [of "concat (map db_kvs bs)"] kv by linarith
  have "\<exists>blocks. tr_filter t = Some (FilterBlockReader_ctor (fb_build p blocks)) \<and> sorted (map fst blocks) \<and>
          length (fb_build p blocks) < 2 ^ 32 \<and> key_count blocks < 2 ^ 32 \<and> set (filter_blocks bs) \<subseteq> set blocks"
    if "opt_filter_policy opts = Some p" for p
    using that t(7) q(4) [OF that] sorted_filter_blocks [OF srt q(1)] q(2) big keys
    by (intro exI [of _ "filter_blocks bs @ [(word_of_nat q, [])]"]) auto
  moreover have "\<exists>off sh ri. holds (tr_index_block t) (index_entries c bs) off sh ri"
    unfolding t(6) by (rule build_block_holds) (use q(3) in simp_all)
  ultimately show ?thesis using t blocks dist by (auto simp: opened_def split: option.splits)
qed

section \<open>Lookups\<close>

lemma cache_key_inj: "cache_key i x = cache_key i y \<longleftrightarrow> x = y"
proof
  assume "cache_key i x = cache_key i y"
  then have "encode_fixed64 x @ [] = encode_fixed64 y @ []" by (simp add: cache_key_def)
  from arg_cong [OF this, of decode_fixed64] show "x = y" by (simp only: decode_encode_fixed64)
qed simp

lemma first_at_in: "first_at c t xs = Some e \<Longrightarrow> e \<in> set xs"
  by (auto simp: first_at_def find_Some_iff)

lemma handle_at_offset [simp]: "bh_offset (db_handle b) = word_of_nat (fst b)"
  by (simp add: db_handle_def handle_at_def)

text \<open>Fetching a block of the index, with or without a cache.\<close>

lemma block_for_opened:
  assumes op: "opened opts c bs t" and b: "b \<in> set bs"
    and found: "Block_find (tr_comparator t) (tr_index_block t) target = Inr (Some (k, handle_encode_to (db_handle b) []))"
    and coh: "\<And>lookup. cache = Some lookup \<Longrightarrow> coherent t lookup"
    and raw: "raw = build_block (opt_block_restart_interval opts) (db_kvs b)"
  obtains ins where "block_for block_bytes t fill cache (handle_encode_to (db_handle b) []) = (Inr (Block_ctor raw), ins)"
    "ins = None \<or> (\<exists>n. ins = Some (cache_key (tr_cache_id t) (word_of_nat (fst b)), Block_ctor raw, n))"
proof -
  have rd: "read_block (tr_file t) (tr_file_size t) (db_handle b) = Inr raw" using op b raw by (auto simp: opened_def)
  have hit: "blk = Block_ctor raw"
    if "cache = Some lookup" "lookup (cache_key (tr_cache_id t) (word_of_nat (fst b))) = Some blk" for lookup blk
    using coh [OF that(1)] found rd that(2) unfolding coherent_def by (metis handle_at_offset handle_round_trip_enc)
  show thesis
  proof (cases cache)
    case None
    then show ?thesis using that by (simp add: block_for_def rd)
  next
    case (Some lookup)
    then show ?thesis using that hit [OF Some]
      by (cases "lookup (cache_key (tr_cache_id t) (word_of_nat (fst b)))") (auto simp: block_for_def rd Let_def)
  qed
qed

context table_order
begin

lemma find_index:
  assumes "opened opts c bs t" "ordered c (concat (map db_kvs bs))"
  shows "Block_find (tr_comparator t) (tr_index_block t) target = Inr (first_at c target (index_entries c bs))"
    and "tr_comparator t = c" "\<forall>b \<in> set bs. db_kvs b \<noteq> []"
  using assms Block_find_holds [OF _ index_ordered [OF assms(2)]] by (auto simp: opened_def)

lemma find_block:
  assumes "opened opts c bs t" "ordered c (concat (map db_kvs bs))" "b \<in> set bs"
  shows "Block_find c (Block_ctor (build_block (opt_block_restart_interval opts) (db_kvs b))) target =
    Inr (first_at c target (db_kvs b))"
proof -
  obtain off sh ri where h: "holds (Block_ctor (build_block (opt_block_restart_interval opts) (db_kvs b))) (db_kvs b) off sh ri"
    using assms(1,3) by (auto simp: opened_def)
  moreover obtain i where i: "i < length bs" "b = bs ! i" using assms(3) by (auto simp: in_set_conv_nth)
  moreover have "hd (db_kvs b) \<in> set (db_kvs b)" using assms(1,3) by (simp add: opened_def)
  ultimately have "ordered c (db_kvs b)"
    using assms(2) sorted_wrt_concat(1) [of _ "map db_kvs bs" i "hd (db_kvs b)"] assms(3) by (auto simp: ordered_def)
  with h show ?thesis by (rule Block_find_holds)
qed

text \<open>Caching the block a handle of the index names keeps the cache in agreement.\<close>

lemma coherent_insertion:
  assumes op: "opened opts c bs t" and o: "ordered c (concat (map db_kvs bs))" and b: "b \<in> set bs"
    and coh: "coherent t lookup"
    and raw: "raw = build_block (opt_block_restart_interval opts) (db_kvs b)"
  shows "coherent t (lookup(cache_key (tr_cache_id t) (word_of_nat (fst b)) \<mapsto> Block_ctor raw))"
  unfolding coherent_def
proof (intro allI impI)
  fix target k v h rest raw' blk
  assume f: "Block_find (tr_comparator t) (tr_index_block t) target = Inr (Some (k, v))"
    and d: "handle_decode_from v = Inr (h, rest)" and rd: "read_block (tr_file t) (tr_file_size t) h = Inr raw'"
    and l: "(lookup(cache_key (tr_cache_id t) (word_of_nat (fst b)) \<mapsto> Block_ctor raw))
        (cache_key (tr_cache_id t) (bh_offset h)) = Some blk"
  have "(k, v) \<in> set (index_entries c bs)"
    using f unfolding find_index(1) [OF op o] by (simp add: first_at_in)
  then have "\<exists>b' \<in> set bs. v = handle_encode_to (db_handle b') []" by (auto simp: index_entries_def intro: bexI [OF _ nth_mem])
  then obtain b' where b': "b' \<in> set bs" "v = handle_encode_to (db_handle b') []" by blast
  then have h: "h = db_handle b'" using d by simp
  have lim: "fst b < 2 ^ 64" "fst b' < 2 ^ 64" "distinct (map fst bs)" using op b b' by (auto simp: opened_def)
  have rdb: "read_block (tr_file t) (tr_file_size t) (db_handle b) = Inr raw" using op b raw by (auto simp: opened_def)
  show "blk = Block_ctor raw'"
  proof (cases "fst b' = fst b")
    case True
    then have "b' = b" using lim(3) b b'(1) by (metis distinct_map inj_onD)
    then show ?thesis using l h rd rdb by simp
  next
    case False
    then have "(word_of_nat (fst b') :: u64) \<noteq> word_of_nat (fst b)" using lim by (auto dest!: arg_cong [of _ _ unat])
    then show ?thesis using l h coh f d rd unfolding coherent_def by (auto simp: cache_key_inj)
  qed
qed

lemma internal_get_opened:
  assumes op: "opened opts c bs t" and o: "ordered c kvs" and kvs: "kvs = concat (map db_kvs bs)"
    and target: "readable c target" and pol: "\<And>p. opt_filter_policy opts = Some p \<Longrightarrow> filter_policy p same"
    and coh: "\<And>lookup. cache = Some lookup \<Longrightarrow> coherent t lookup"
  shows "\<exists>r ins. internal_get block_bytes t fill cache target = (Inr r, ins) \<and>
     (r = None \<or> r = first_at c target kvs) \<and>
     (\<forall>k v. first_at c target kvs = Some (k, v) \<and> same k target \<longrightarrow> r = Some (k, v)) \<and>
     (\<forall>lookup. coherent t lookup \<longrightarrow> coherent t (with_insertion lookup ins))"
proof (cases "first_at c target (index_entries c bs)")
  case None
  have "first_at c target kvs = None"
    unfolding kvs by (rule index_misses [OF o [unfolded kvs] find_index(3) [OF op o [unfolded kvs]] None])
  then show ?thesis using find_index(1) [OF op o [unfolded kvs], of target] None
    by (simp add: internal_get_def with_insertion_def)
next
  case (Some e)
  note o' = o [unfolded kvs]
  obtain i where i: "i < length bs" "e = (sep_at c bs i, handle_encode_to (db_handle (bs ! i)) [])"
    and miss: "first_at c target (db_kvs (bs ! i)) = None \<or> first_at c target (db_kvs (bs ! i)) = first_at c target kvs"
    and hit: "\<And>k v. first_at c target kvs = Some (k, v) \<Longrightarrow> same k target \<Longrightarrow>
       first_at c target (db_kvs (bs ! i)) = Some (k, v)"
    using index_routes [OF o' find_index(3) [OF op o'] target Some] unfolding kvs by metis
  let ?b = "bs ! i"
  have b: "?b \<in> set bs" using i by simp
  have found: "Block_find (tr_comparator t) (tr_index_block t) target =
      Inr (Some (sep_at c bs i, handle_encode_to (db_handle ?b) []))"
    using find_index(1) [OF op o', of target] Some i(2) by simp
  define absent where "absent = (case (tr_filter t, opt_filter_policy (tr_options t)) of
      (Some filt, Some p) \<Rightarrow> \<not> fr_key_may_match p filt (word_of_nat (fst ?b)) target | _ \<Rightarrow> False)"
  obtain raw ins where raw: "raw = build_block (opt_block_restart_interval opts) (db_kvs ?b)"
    and bf: "block_for block_bytes t fill cache (handle_encode_to (db_handle ?b) []) = (Inr (Block_ctor raw), ins)"
    and ins: "ins = None \<or> (\<exists>n. ins = Some (cache_key (tr_cache_id t) (word_of_nat (fst ?b)), Block_ctor raw, n))"
    using block_for_opened [OF op b found coh refl, of cache block_bytes fill] by metis
  have get: "internal_get block_bytes t fill cache target =
      (if absent then (Inr None, None) else (Inr (first_at c target (db_kvs ?b)), ins))"
    unfolding internal_get_def found absent_def
    using bf find_block [OF op o' b, of target] find_index(2) [OF op o']
    by (simp add: Let_def raw split: option.splits)
  have no_absent: "\<not> absent" if s: "first_at c target kvs = Some (k, v)" "same k target" for k v
  proof
    assume "absent"
    then obtain filt p where p: "tr_filter t = Some filt" "opt_filter_policy opts = Some p"
      "\<not> fr_key_may_match p filt (word_of_nat (fst ?b)) target"
      using op by (auto simp: absent_def opened_def split: option.splits)
    then obtain blocks where bl: "filt = FilterBlockReader_ctor (fb_build p blocks)" "sorted (map fst blocks)"
      "length (fb_build p blocks) < 2 ^ 32" "key_count blocks < 2 ^ 32" "set (filter_blocks bs) \<subseteq> set blocks"
      using op by (auto simp: opened_def)
    have "(word_of_nat (fst ?b), map fst (db_kvs ?b)) \<in> set blocks" using bl(5) b by (auto simp: filter_blocks_def)
    moreover have "k \<in> set (map fst (db_kvs ?b))"
      using first_at_in [OF hit [OF s]] by force
    ultimately show False
      using filter_policy.no_key_lost [OF pol [OF p(2)] bl(2-4) _ _ s(2)] p(3) bl(1) by simp
  qed
  have coh': "coherent t (with_insertion lookup ins)" if "coherent t lookup" for lookup
    using ins coherent_insertion [OF op o' b that raw] that by (auto simp: with_insertion_def)
  show ?thesis
    unfolding get using miss hit no_absent coh' by (cases absent) (auto simp: with_insertion_def)
qed

end

section \<open>Properties\<close>

lemma tb_finish_sticky: "tb_finish tb = (s, tb') \<Longrightarrow> is_ok s \<Longrightarrow> is_ok (tb_status tb)"
  by (auto simp: tb_finish_def write_footer_def write_index_def write_metaindex_def write_filter_def Let_def
      split: prod.splits if_splits dest: tb_flush_sticky)

lemma built_opened:
  assumes "1 \<le> opt_block_restart_interval opts" "kv_bytes kvs + 8 < 2 ^ 32" "wf_data out = []"
    and fin: "tb_finish (tb_adds (TableBuilder_ctor opts out c) kvs) = (s, tb)" "is_ok s"
    and "rf_data f = wf_data (tb_file tb)" "reads_ok f" "length (rf_data f) < 2 ^ 32"
  shows "\<exists>bs t. kvs = concat (map db_kvs bs) \<and>
    Table_open nul opts c f (word_of_nat (length (rf_data f))) cache_id = Inr t \<and> opened opts c bs t"
proof -
  obtain bs0 cur idx where inv: "tb_inv opts c (tb_adds (TableBuilder_ctor opts out c) kvs) bs0 cur idx"
    and kvs0: "concat (map db_kvs bs0) @ cur = kvs"
    using tb_adds_inv [OF tb_finish_sticky [OF fin] assms(3)] by blast
  obtain bs where "table_file opts c (rf_data f) bs" and kvs: "concat (map db_kvs bs) = kvs"
    using tb_finish_file [OF inv fin] kvs0 assms(6) by auto
  from Table_open_opened [OF this(1) assms(7,8,1)] show ?thesis using assms(2) kvs by metis
qed

text \<open>
  C2. A table that was built without an error from entries in strictly ascending internal
  key order, and is read back intact, opens.  A lookup in it never fails, and reports
  either nothing or the first entry at or after the target.  When that entry has the
  user key of the target, the lookup reports it: neither the shortened index keys, nor
  the bloom filter, nor the block compression, nor a block cache that agrees with the file
  loses it.  The block the lookup adds to the cache agrees with the file too.  The number
  of bits per key is an int and not negative, and entries and file are smaller than 4 GiB.
\<close>

theorem table_get_built:
  assumes "ordered kInternal kvs" "1 \<le> opt_block_restart_interval opts" "kv_bytes kvs + 8 < 2 ^ 32"
    and "opt_filter_policy opts = None \<or> 0 \<le> bits_per_key \<and> bits_per_key < 2 ^ 31 \<and>
      opt_filter_policy opts = Some (new_internal_filter_policy (new_bloom_filter_policy bits_per_key))"
    and "wf_data out = []" "tb_finish (tb_adds (TableBuilder_ctor opts out kInternal) kvs) = (s, tb)" "is_ok s"
    and "rf_data f = wf_data (tb_file tb)" "reads_ok f" "length (rf_data f) < 2 ^ 32"
    and "readable kInternal target"
  shows "\<exists>t. Table_open nul opts kInternal f (word_of_nat (length (rf_data f))) cache_id = Inr t \<and>
    (\<forall>cache. (\<forall>lookup. cache = Some lookup \<longrightarrow> coherent t lookup) \<longrightarrow>
       (\<exists>r ins. internal_get block_bytes t fill_cache cache target = (Inr r, ins) \<and>
          (r = None \<or> r = first_at kInternal target kvs) \<and>
          (\<forall>k v. first_at kInternal target kvs = Some (k, v) \<and> filter_key k = filter_key target \<longrightarrow> r = Some (k, v)) \<and>
          (\<forall>lookup. coherent t lookup \<longrightarrow> coherent t (with_insertion lookup ins))))"
proof -
  obtain bs t where b: "kvs = concat (map db_kvs bs)"
    "Table_open nul opts kInternal f (word_of_nat (length (rf_data f))) cache_id = Inr t" "opened opts kInternal bs t"
    using built_opened [OF assms(2,3,5-10)] by blast
  have "filter_policy p (\<lambda>k k'. filter_key k = filter_key k')" if "opt_filter_policy opts = Some p" for p
    using assms(4) that internal_bloom_policy by auto
  then show ?thesis using b(2) ikt.internal_get_opened [OF b(3) assms(1) b(1) assms(11)] by blast
qed

text \<open>A table of two entries, one per block.\<close>

definition sample_options :: Options where
  "sample_options = \<lparr>opt_create_if_missing = True, opt_error_if_exists = False, opt_write_buffer_size = 4194304,
     opt_block_size = 16, opt_block_restart_interval = 16, opt_compression = CompNone, opt_max_file_size = 2097152,
     opt_max_open_files = 100, opt_filter_policy = None\<rparr>"

definition sample_kvs :: "(bytes \<times> bytes) list" where
  "sample_kvs = [([97, 98, 98, 1, 5, 0, 0, 0, 0, 0, 0], [1]), ([97, 100, 1, 4, 0, 0, 0, 0, 0, 0], [2])]"

definition sample_finish :: "status \<times> TableBuilder" where
  "sample_finish = tb_finish (tb_adds (TableBuilder_ctor sample_options (open_writable [] (\<lambda>_. None)) kInternal) sample_kvs)"

lemma put_varint_small: "unat v < 128 \<Longrightarrow> put_varint v = [ucast v]"
  by (subst put_varint.simps) simp

lemma sample_separators:
  "find_shortest_separator kInternal [97, 98, 98, 1, 5, 0, 0, 0, 0, 0, 0] [97, 100, 1, 4, 0, 0, 0, 0, 0, 0] =
     [97, 99, 1, 255, 255, 255, 255, 255, 255, 255]"
  "find_short_successor kInternal [97, 100, 1, 4, 0, 0, 0, 0, 0, 0] = [98, 1, 255, 255, 255, 255, 255, 255, 255]"
  by code_simp+

lemmas builder_defs = TableBuilder_ctor_def tb_add_def Let_def bb_add_def BlockBuilder_ctor_def bb_reset_def
  current_size_estimate_def tb_flush_def write_block_def bb_finish_def choose_contents_def write_raw_block_def
  wf_append_def open_writable_def wf_flush_def entry_bytes_def put_varint32_def put_fixed32_def add_pending_index_def
  write_filter_def write_metaindex_def write_index_def write_footer_def kBlockTrailerSize_def tb_finish_def

lemma sample_built: "is_ok (fst sample_finish) \<and> length (wf_data (tb_file (snd sample_finish))) < 1000"
  unfolding sample_finish_def
  by (simp add: sample_options_def sample_kvs_def tb_adds_def builder_defs length_footer sample_separators
      put_varint_small handle_encode_eq)

theorem table_get_built_witness:
  "\<exists>t ins. Table_open 0 sample_options kInternal
        \<lparr>rf_path = [], rf_data = wf_data (tb_file (snd sample_finish)), rf_os = \<lambda>_ _. None\<rparr>
        (word_of_nat (length (wf_data (tb_file (snd sample_finish))))) 7 = Inr t \<and>
     internal_get 0 t True (Some Map.empty) [97, 100, 1, 9, 0, 0, 0, 0, 0, 0] =
       (Inr (Some ([97, 100, 1, 4, 0, 0, 0, 0, 0, 0], [2])), ins)"
proof -
  let ?f = "\<lparr>rf_path = [], rf_data = wf_data (tb_file (snd sample_finish)), rf_os = \<lambda>_ _. None\<rparr> :: RandomAccessFile"
  let ?target = "[97, 100, 1, 9, 0, 0, 0, 0, 0, 0] :: bytes"
  have o: "ordered kInternal sample_kvs" and fa: "first_at kInternal ?target sample_kvs = Some ([97, 100, 1, 4, 0, 0, 0, 0, 0, 0], [2])"
    and fk: "filter_key ([97, 100, 1, 4, 0, 0, 0, 0, 0, 0] :: bytes) = filter_key ?target" and rd: "readable kInternal ?target"
    by code_simp+
  have kv: "kv_bytes sample_kvs + 8 < 2 ^ 32" by (simp add: kv_bytes_def sample_kvs_def)
  have opt: "1 \<le> opt_block_restart_interval sample_options" "opt_filter_policy sample_options = None \<or> (0 :: int) \<le> 10 \<and> (10 :: int) < 2 ^ 31 \<and>
      opt_filter_policy sample_options = Some (new_internal_filter_policy (new_bloom_filter_policy 10))"
    by (simp_all add: sample_options_def)
  have fin: "tb_finish (tb_adds (TableBuilder_ctor sample_options (open_writable [] (\<lambda>_. None)) kInternal) sample_kvs) =
      (fst sample_finish, snd sample_finish)" by (simp add: sample_finish_def)
  have fl: "wf_data (open_writable [] (\<lambda>_. None)) = []" "rf_data ?f = wf_data (tb_file (snd sample_finish))" "reads_ok ?f"
    "length (rf_data ?f) < 2 ^ 32" using sample_built by (simp_all add: open_writable_def reads_ok_def)
  have coh: "\<forall>lookup. Some Map.empty = Some lookup \<longrightarrow> coherent t lookup" for t by (simp add: coherent_def)
  obtain t where t: "Table_open 0 sample_options kInternal ?f (word_of_nat (length (rf_data ?f))) 7 = Inr t"
    and get: "\<exists>r ins. internal_get 0 t True (Some Map.empty) ?target = (Inr r, ins) \<and>
       (\<forall>k v. first_at kInternal ?target sample_kvs = Some (k, v) \<and> filter_key k = filter_key ?target \<longrightarrow> r = Some (k, v))"
    using table_get_built [OF o opt(1) kv opt(2) fl(1) fin conjunct1 [OF sample_built] fl(2-4) rd, of 0 7 0 True] coh by blast
  show ?thesis using t get unfolding fa fl(2) using fk by auto
qed

end
