(* ===== verification/Table_Iter.thy ===== *)
theory Table_Iter
  imports Two_Level Table_Get
begin

text \<open>
  The iterators of src/table.cpp over the blocks of a table and over the whole table: the
  two-level iterator over the index block, whose function reads a data block through the
  block cache.  \<open>caches n\<close> is the cache at the n-th block that is opened.
\<close>

section \<open>Model\<close>

text \<open>
  The iterators OwningBlockIterator and CachedBlockIterator forward every call to the one
  they hold; what they own besides it is not modelled.
\<close>

datatype BlockCursor = NoBlock status | InBlock Block BlockIter

definition Block_new_iterator :: "Block \<Rightarrow> BlockCursor" where
  "Block_new_iterator b =
     (if bl_size b < 4 then NoBlock (new_error_iterator (Status kCorruption ''block is too small''))
      else if bl_num_restarts b = 0 then NoBlock new_empty_iterator
      else InBlock b (BlockIter_ctor b))"

definition BlockCursorIterator :: "Comparator \<Rightarrow> nat \<Rightarrow> BlockCursor Iterator" where
  "BlockCursorIterator c nul =
     \<lparr>it_valid = (\<lambda>x. case x of NoBlock s \<Rightarrow> it_valid EmptyIterator s | InBlock b i \<Rightarrow> it_valid (BlockIterator c nul) (b, i)),
      it_key = (\<lambda>x. case x of NoBlock s \<Rightarrow> it_key EmptyIterator s | InBlock b i \<Rightarrow> it_key (BlockIterator c nul) (b, i)),
      it_value = (\<lambda>x. case x of NoBlock s \<Rightarrow> it_value EmptyIterator s | InBlock b i \<Rightarrow> it_value (BlockIterator c nul) (b, i)),
      it_status = (\<lambda>x. case x of NoBlock s \<Rightarrow> it_status EmptyIterator s | InBlock b i \<Rightarrow> it_status (BlockIterator c nul) (b, i)),
      it_do = (\<lambda>op x. case x of
          NoBlock s \<Rightarrow> map_option NoBlock (it_do EmptyIterator op s)
        | InBlock b i \<Rightarrow> map_option (\<lambda>(b', i'). InBlock b' i') (it_do (BlockIterator c nul) op (b, i)))\<rparr>"

definition block_reader ::
    "nat \<Rightarrow> Table \<Rightarrow> bool \<Rightarrow> (nat \<Rightarrow> (bytes \<Rightarrow> Block option) option) \<Rightarrow> nat \<Rightarrow> bytes \<Rightarrow> BlockCursor" where
  "block_reader block_bytes t fill_cache caches n index_value =
     (case block_for block_bytes t fill_cache (caches n) index_value of
        (Inl s, _) \<Rightarrow> NoBlock (new_error_iterator s)
      | (Inr block, _) \<Rightarrow> Block_new_iterator block)"

type_synonym TableIter = "(BlockCursor, BlockCursor) TwoLevelIterator"

definition Table_new_iterator :: "Table \<Rightarrow> TableIter" where
  "Table_new_iterator t = new_two_level_iterator (Block_new_iterator (tr_index_block t))"

definition TableIterator ::
    "nat \<Rightarrow> nat \<Rightarrow> Table \<Rightarrow> bool \<Rightarrow> (nat \<Rightarrow> (bytes \<Rightarrow> Block option) option) \<Rightarrow> TableIter Iterator" where
  "TableIterator nul block_bytes t fill_cache caches =
     TwoLevelIterator (BlockCursorIterator (tr_comparator t) nul) (BlockCursorIterator (tr_comparator t) nul)
       (block_reader block_bytes t fill_cache caches)"

section \<open>Block iterators\<close>

fun block_cursor_at :: "Comparator \<Rightarrow> BlockCursor \<Rightarrow> (bytes \<times> bytes) list \<Rightarrow> nat \<Rightarrow> bool" where
  "block_cursor_at c (NoBlock s) kvs i \<longleftrightarrow> s = status_ok \<and> kvs = [] \<and> i = 0"
| "block_cursor_at c (InBlock b it) kvs i \<longleftrightarrow> block_at c (b, it) kvs i"

context key_order
begin

lemma block_cursor_cursor: "cursor c (BlockCursorIterator c nul) (block_cursor_at c)"
proof -
  have B: "cursor c (BlockIterator c nul) (block_at c)" by (rule block_cursor)
  have E: "cursor c EmptyIterator (\<lambda>s kvs i. s = status_ok \<and> kvs = [] \<and> i = 0)"
    by unfold_locales (auto simp: EmptyIterator_def ordered_def may_do_def lower_bound_def split: cursor_op.splits)
  show ?thesis
  proof (unfold_locales, goal_cases)
    case (8 x kvs i op)
    show ?case
    proof (cases x)
      case (NoBlock s)
      then show ?thesis using cursor.at_do [OF E, of s kvs i op] 8 by (auto simp: BlockCursorIterator_def)
    next
      case (InBlock b it)
      then obtain b' it' where "it_do (BlockIterator c nul) op (b, it) = Some (b', it')" "block_at c (b', it') kvs (cursor_step c kvs i op)"
        using cursor.at_do [OF B, of "(b, it)" kvs i op] 8 by auto
      then show ?thesis using InBlock by (intro exI [of _ "InBlock b' it'"]) (simp add: BlockCursorIterator_def)
    qed
  next
    case (2 x kvs i e)
    then show ?case using cursor.at_short [OF B] by (cases x) auto
  qed (case_tac [!] it, auto simp: BlockCursorIterator_def EmptyIterator_def
        cursor.at_ordered [OF B] cursor.at_le [OF B] cursor.at_valid [OF B]
        cursor.at_key [OF B] cursor.at_value [OF B] cursor.at_status [OF B])
qed

lemma new_block_iterator_at:
  assumes "ordered c kvs" "holds b kvs off sh ri"
  shows "block_cursor_at c (Block_new_iterator b) kvs (length kvs)"
proof -
  have "4 \<le> bl_size b" "bl_num_restarts b \<noteq> 0" using assms(2) by (auto simp: holds_def)
  moreover have "block_at c (b, BlockIter_ctor b) kvs (length kvs)"
    unfolding block_at_def using assms ctor_points [OF assms(2)] by auto
  ultimately show ?thesis by (simp add: Block_new_iterator_def)
qed

end

interpretation block_cursor_ik: cursor kInternal "BlockCursorIterator kInternal nul" "block_cursor_at kInternal" for nul
  by (rule ik.block_cursor_cursor)

interpretation table_levels: two_level kInternal "BlockCursorIterator kInternal nul" "block_cursor_at kInternal"
    "BlockCursorIterator kInternal nul" "block_cursor_at kInternal" for nul
  by unfold_locales

section \<open>Tables\<close>

lemma first_at_lower_bound:
  "first_at c t kvs = (if lower_bound c t kvs < length kvs then Some (kvs ! lower_bound c t kvs) else None)"
  by (induction kvs) (simp_all add: first_at_def lower_bound_def)

definition block_content :: "dblock list \<Rightarrow> bytes \<Rightarrow> (bytes \<times> bytes) list" where
  "block_content bs v = (case find (\<lambda>b. handle_encode_to (db_handle b) [] = v) bs of None \<Rightarrow> [] | Some b \<Rightarrow> db_kvs b)"

lemma block_content_at:
  assumes "opened opts c bs t" "b \<in> set bs"
  shows "block_content bs (handle_encode_to (db_handle b) []) = db_kvs b"
proof -
  let ?P = "\<lambda>b'. handle_encode_to (db_handle b') [] = handle_encode_to (db_handle b) []"
  have "find ?P bs \<noteq> None" unfolding find_None_iff using assms(2) by blast
  then obtain b' where b': "find ?P bs = Some b'" by blast
  then have m: "b' \<in> set bs" "handle_encode_to (db_handle b') [] = handle_encode_to (db_handle b) []"
    by (auto simp: find_Some_iff)
  have "db_handle b' = db_handle b"
    using arg_cong [OF m(2), of handle_decode_from] unfolding handle_round_trip_enc by (simp only: sum.inject prod.inject)
  then have "(word_of_nat (fst b') :: u64) = word_of_nat (fst b)" by (metis handle_at_offset)
  moreover have "fst b' < 2 ^ 64" "fst b < 2 ^ 64" "distinct (map fst bs)" using assms m(1) by (auto simp: opened_def)
  ultimately have "fst b' = fst b" "inj_on fst (set bs)" by (auto simp: distinct_map dest!: arg_cong [of _ _ unat])
  then have "b' = b" using assms(2) m(1) by (metis inj_onD)
  then show ?thesis using b' by (simp add: block_content_def)
qed

context table_order
begin

lemma block_reader_at:
  assumes op: "opened opts c bs t" and o: "ordered c (concat (map db_kvs bs))" and j: "j < length bs"
    and coh: "\<And>n lookup. caches n = Some lookup \<Longrightarrow> coherent t lookup"
  shows "\<exists>p. block_cursor_at c (block_reader bb t fill caches n (handle_encode_to (db_handle (bs ! j)) [])) (db_kvs (bs ! j)) p"
proof -
  let ?b = "bs ! j"
  have b: "?b \<in> set bs" using j by simp
  note fi = find_index [OF op o]
  have io: "ordered c (index_entries c bs)" by (rule index_ordered [OF o fi(3)])
  have "lower_bound c (sep_at c bs j) (index_entries c bs) = j"
    using lower_bound_self [OF io, of j] j unfolding sep_at_def index_entries_nth(1) by simp
  then have "first_at c (sep_at c bs j) (index_entries c bs) = Some (sep_at c bs j, handle_encode_to (db_handle ?b) [])"
    using j by (simp add: first_at_lower_bound index_entries_nth)
  then have "Block_find (tr_comparator t) (tr_index_block t) (sep_at c bs j) = Inr (Some (sep_at c bs j, handle_encode_to (db_handle ?b) []))"
    by (simp add: fi(1))
  then obtain ins where f: "block_for bb t fill (caches n) (handle_encode_to (db_handle ?b) []) =
      (Inr (Block_ctor (build_block (opt_block_restart_interval opts) (db_kvs ?b))), ins)"
    by (rule block_for_opened [OF op b _ _ refl, where cache = "caches n" and block_bytes = bb and fill = fill]) (use coh in blast)+
  obtain off sh ri where h: "holds (Block_ctor (build_block (opt_block_restart_interval opts) (db_kvs ?b))) (db_kvs ?b) off sh ri"
    using op b by (auto simp: opened_def)
  have "hd (db_kvs ?b) \<in> set (db_kvs ?b)" using fi(3) b by simp
  then have "ordered c (db_kvs ?b)"
    using o sorted_wrt_concat(1) [of _ "map db_kvs bs" j "hd (db_kvs ?b)"] j b by (auto simp: ordered_def)
  then show ?thesis using new_block_iterator_at [OF _ h] f by (auto simp: block_reader_def)
qed

lemma opened_layout:
  assumes op: "opened opts c bs t" and o: "ordered c (concat (map db_kvs bs))"
    and coh: "\<And>n lookup. caches n = Some lookup \<Longrightarrow> coherent t lookup"
  shows "layout c (block_cursor_at c) (block_reader bb t fill caches) (index_entries c bs) (block_content bs)"
    and "concat (block_list (index_entries c bs) (block_content bs)) = concat (map db_kvs bs)"
proof -
  note ne = find_index(3) [OF op o]
  have ct: "snd (index_entries c bs ! j) = handle_encode_to (db_handle (bs ! j)) []"
      "block_content bs (handle_encode_to (db_handle (bs ! j)) []) = db_kvs (bs ! j)" if "j < length bs" for j
    using block_content_at [OF op, of "bs ! j"] that by (simp_all add: index_entries_nth(2))
  show "layout c (block_cursor_at c) (block_reader bb t fill caches) (index_entries c bs) (block_content bs)"
    unfolding layout_def index_entries_nth(1)
  proof (intro conjI allI impI ballI)
    fix j n assume j: "j < length bs"
    show "\<exists>p. block_cursor_at c (block_reader bb t fill caches n (snd (index_entries c bs ! j)))
        (block_content bs (snd (index_entries c bs ! j))) p"
      using ct [OF j] block_reader_at [OF op o j, of caches bb fill n] coh by simp
  next
    fix j x assume j: "j < length bs" and x: "x \<in> set (block_content bs (snd (index_entries c bs ! j)))"
    show "\<not> cmp_compare c (fst (index_entries c bs ! j)) (fst x) < 0"
      using sep_facts(2) [OF o ne j, of x] x ct [OF j] by (simp add: sep_at_def)
  next
    fix j i x assume j: "j < length bs" and i: "i < j" and x: "x \<in> set (block_content bs (snd (index_entries c bs ! j)))"
    show "cmp_compare c (fst (index_entries c bs ! i)) (fst x) < 0"
      using sep_facts(3) [OF o ne _ i j, of x] x ct [OF j] i j by (simp add: sep_at_def)
  qed
  have "block_list (index_entries c bs) (block_content bs) = map db_kvs bs"
    by (rule nth_equalityI) (use ct in \<open>simp_all add: index_entries_nth(1)\<close>)
  then show "concat (block_list (index_entries c bs) (block_content bs)) = concat (map db_kvs bs)" by simp
qed

lemma index_iterator_at:
  assumes op: "opened opts c bs t" and o: "ordered c (concat (map db_kvs bs))"
  shows "\<exists>j. block_cursor_at c (Block_new_iterator (tr_index_block t)) (index_entries c bs) j"
  using new_block_iterator_at [OF index_ordered [OF o find_index(3) [OF op o]]] op unfolding opened_def by blast

end

lemma table_iterator_at:
  assumes op: "opened opts kInternal bs t" and o: "ordered kInternal (concat (map db_kvs bs))"
    and coh: "\<And>n lookup. caches n = Some lookup \<Longrightarrow> coherent t lookup"
  shows "tl_at kInternal (block_cursor_at kInternal) (block_cursor_at kInternal) (block_reader bb t fill caches)
    (Table_new_iterator t) (concat (map db_kvs bs)) (length (concat (map db_kvs bs)))"
  using table_levels.new_two_level_at [OF ikt.opened_layout(1) [OF op o coh]] ikt.index_iterator_at [OF op o]
    ikt.opened_layout(2) [OF op o coh] by (auto simp: Table_new_iterator_def)

section \<open>Properties\<close>

text \<open>
  C4. Iterating over a table gives back the entries it was built from.  A table built
  without an error from entries in strictly ascending order and read back intact opens,
  and whatever calls are made on its iterator, each returns, the status stays ok, and the
  iterator stands where a cursor into those entries stands: crossing from block to block in
  both directions neither skips nor repeats an entry, and shortened index keys send
  every seek to the right entry.  The block cache may change between any two blocks that
  are read, as long as what it answers agrees with the file.  The entries together, the
  file, and every seek target are smaller than 4 GiB; of a target shorter than the eight
  bytes of a trailer, which the engine never passes, the statement is about the model only.
\<close>

theorem table_iterator_refines_entries:
  assumes "ordered kInternal kvs" "1 \<le> opt_block_restart_interval opts" "kv_bytes kvs + 8 < 2 ^ 32"
    and "wf_data out = []" "tb_finish (tb_adds (TableBuilder_ctor opts out kInternal) kvs) = (s, tb)" "is_ok s"
    and "rf_data f = wf_data (tb_file tb)" "reads_ok f" "length (rf_data f) < 2 ^ 32"
    and "short_targets ops" "i = foldl (cursor_step kInternal kvs) (length kvs) ops"
  shows "\<exists>t. Table_open nul opts kInternal f (word_of_nat (length (rf_data f))) cache_id = Inr t \<and>
    (\<forall>caches. (\<forall>n lookup. caches n = Some lookup \<longrightarrow> coherent t lookup) \<longrightarrow>
       (\<exists>it. it_run (TableIterator nul block_bytes t fill_cache caches) ops (Table_new_iterator t) = Some it \<and>
          it_status (TableIterator nul block_bytes t fill_cache caches) it = status_ok \<and>
          (it_valid (TableIterator nul block_bytes t fill_cache caches) it \<longleftrightarrow> i < length kvs) \<and>
          (i < length kvs \<longrightarrow>
             it_key (TableIterator nul block_bytes t fill_cache caches) it = fst (kvs ! i) \<and>
             it_value (TableIterator nul block_bytes t fill_cache caches) it = snd (kvs ! i))))"
proof -
  obtain bs t where b: "kvs = concat (map db_kvs bs)"
    "Table_open nul opts kInternal f (word_of_nat (length (rf_data f))) cache_id = Inr t" "opened opts kInternal bs t"
    using built_opened [OF assms(2-9)] by blast
  have "tr_comparator t = kInternal" using b(3) by (simp add: opened_def)
  then show ?thesis
    using b(2) cursor.at_run_observed [OF table_levels.two_level_cursor table_iterator_at [OF b(3)] assms(10)] assms(1,11)
    unfolding b(1) TableIterator_def by (intro exI [of _ t] conjI allI impI) auto
qed

theorem table_iterator_refines_entries_witness:
  "\<exists>t it. Table_open 0 sample_options kInternal
        \<lparr>rf_path = [], rf_data = wf_data (tb_file (snd sample_finish)), rf_os = \<lambda>_ _. None\<rparr>
        (word_of_nat (length (wf_data (tb_file (snd sample_finish))))) 7 = Inr t \<and>
     it_run (TableIterator 0 0 t True (\<lambda>_. None)) [SeekToFirst, Next, Prev, Next] (Table_new_iterator t) = Some it \<and>
     it_key (TableIterator 0 0 t True (\<lambda>_. None)) it = [97, 100, 1, 4, 0, 0, 0, 0, 0, 0]"
proof -
  let ?f = "\<lparr>rf_path = [], rf_data = wf_data (tb_file (snd sample_finish)), rf_os = \<lambda>_ _. None\<rparr> :: RandomAccessFile"
  let ?ops = "[SeekToFirst, Next, Prev, Next]"
  have o: "ordered kInternal sample_kvs" by code_simp
  have kv: "kv_bytes sample_kvs + 8 < 2 ^ 32" "1 \<le> opt_block_restart_interval sample_options"
    by (simp_all add: kv_bytes_def sample_kvs_def sample_options_def)
  have fin: "tb_finish (tb_adds (TableBuilder_ctor sample_options (open_writable [] (\<lambda>_. None)) kInternal) sample_kvs) =
      (fst sample_finish, snd sample_finish)" by (simp add: sample_finish_def)
  have fl: "wf_data (open_writable [] (\<lambda>_. None)) = []" "rf_data ?f = wf_data (tb_file (snd sample_finish))" "reads_ok ?f"
    "length (rf_data ?f) < 2 ^ 32" using sample_built by (simp_all add: open_writable_def reads_ok_def)
  have ops: "short_targets ?ops" "1 = foldl (cursor_step kInternal sample_kvs) (length sample_kvs) ?ops"
    by (simp_all add: short_targets_def sample_kvs_def)
  show ?thesis
    using table_iterator_refines_entries [OF o kv(2,1) fl(1) fin conjunct1 [OF sample_built] fl(2-4) ops, of 0 7 0 True]
  proof (elim exE conjE)
    fix t
    assume t: "Table_open 0 sample_options kInternal ?f (word_of_nat (length (rf_data ?f))) 7 = Inr t"
      and run: "\<forall>caches. (\<forall>n lookup. caches n = Some lookup \<longrightarrow> coherent t lookup) \<longrightarrow>
        (\<exists>it. it_run (TableIterator 0 0 t True caches) ?ops (Table_new_iterator t) = Some it \<and>
          it_status (TableIterator 0 0 t True caches) it = status_ok \<and>
          (it_valid (TableIterator 0 0 t True caches) it \<longleftrightarrow> 1 < length sample_kvs) \<and>
          (1 < length sample_kvs \<longrightarrow> it_key (TableIterator 0 0 t True caches) it = fst (sample_kvs ! 1) \<and>
             it_value (TableIterator 0 0 t True caches) it = snd (sample_kvs ! 1)))"
    show ?thesis using t spec [OF run, of "\<lambda>_. None"] by (auto simp: sample_kvs_def)
  qed
qed

end
