(* ===== verification/Version_Props.thy ===== *)
theory Version_Props
  imports Version Db_Iter_Props Table_Iter
begin

text \<open>
  The searches of a version against the plain scans they replace: the binary search over
  a level, the test for overlap, and the files that overlap a range.
\<close>

lemma order_fields [simp]:
  "cmp_compare kInternal = compare_internal_keys" "readable kInternal k \<longleftrightarrow> 8 \<le> length k"
  "cmp_compare kBytewise = bytewise_compare"
  by (simp_all add: kInternal_def kBytewise_def readable_def)

section \<open>Levels\<close>

text \<open>What the record of a file says of itself, and the levels below 0: disjoint and in order.\<close>

definition file_ok :: "FileMetaData \<Rightarrow> bool" where
  "file_ok f \<longleftrightarrow> parse_internal_key (fm_smallest f) \<noteq> None \<and> parse_internal_key (fm_largest f) \<noteq> None \<and>
     \<not> compare_internal_keys (fm_largest f) (fm_smallest f) < 0"

definition disjoint :: "FileMetaData list \<Rightarrow> bool" where
  "disjoint files \<longleftrightarrow> (\<forall>f \<in> set files. file_ok f) \<and>
     sorted_wrt (\<lambda>a b. compare_internal_keys (fm_largest a) (fm_smallest b) < 0) files"

lemma disjoint_Nil: "disjoint []"
  by (simp add: disjoint_def)

abbreviation smallest_user_key :: "FileMetaData \<Rightarrow> bytes" where
  "smallest_user_key f \<equiv> extract_user_key (fm_smallest f)"

abbreviation largest_user_key :: "FileMetaData \<Rightarrow> bytes" where
  "largest_user_key f \<equiv> extract_user_key (fm_largest f)"

lemma parsed_length: "parse_internal_key k \<noteq> None \<Longrightarrow> 8 \<le> length k"
  by (auto simp: parse_internal_key_def Let_def split: if_splits)

text \<open>The key before every version of a user key.\<close>

lemma before_first_version:
  assumes "parse_internal_key k \<noteq> None"
  shows "compare_internal_keys k (make_internal_key t kMaxSequenceNumber kValueTypeForSeek) < 0 \<longleftrightarrow> extract_user_key k < t"
proof -
  have "extract_sequence k \<le> kMaxSequenceNumber"
    using unsigned_less [of "trailer k", where 'a = nat]
    by (simp add: extract_sequence_def kMaxSequenceNumber_def word_le_nat_alt drop_bit_eq_div unat_div)
  then show ?thesis using key_before_lookup [OF assms, of kMaxSequenceNumber t] by (simp add: make_lookup_key_def)
qed

lemma file_ok_order: "file_ok f \<Longrightarrow> smallest_user_key f \<le> largest_user_key f"
  by (auto simp: file_ok_def cik_less)

lemma disjoint_user_keys:
  assumes "disjoint files" "i < j" "j < length files"
  shows "largest_user_key (files ! i) \<le> smallest_user_key (files ! j)"
  using assms by (force simp: disjoint_def sorted_wrt_iff_nth_less cik_less)

lemma disjoint_largest:
  assumes "disjoint files" "i < j" "j < length files"
  shows "compare_internal_keys (fm_largest (files ! i)) (fm_largest (files ! j)) < 0"
proof -
  have "8 \<le> length (fm_smallest (files ! j))" "8 \<le> length (fm_largest (files ! j))"
    "\<not> compare_internal_keys (fm_largest (files ! j)) (fm_smallest (files ! j)) < 0"
    using assms parsed_length by (auto simp: disjoint_def file_ok_def)
  moreover have "compare_internal_keys (fm_largest (files ! i)) (fm_smallest (files ! j)) < 0"
    using assms by (auto simp: disjoint_def sorted_wrt_iff_nth_less)
  ultimately show ?thesis
    using ik.cmp_less_le_trans [of "fm_smallest (files ! j)" "fm_largest (files ! j)" "fm_largest (files ! i)"]
    by simp
qed

section \<open>The binary search\<close>

definition level_index :: "FileMetaData list \<Rightarrow> (bytes \<times> bytes) list" where
  "level_index files = map (\<lambda>f. (fm_largest f, level_value f)) files"

lemma find_file_loop_bounds:
  assumes "\<forall>j < length files. \<forall>i < j. P (files ! j) \<longrightarrow> P (files ! i)"
    and "P = (\<lambda>f. cmp_compare c (fm_largest f) key < 0)"
    and "right \<le> length files" "left \<le> right" "\<forall>i < left. P (files ! i)" "\<forall>i. right \<le> i \<and> i < length files \<longrightarrow> \<not> P (files ! i)"
  shows "find_file_loop c files key left right \<le> length files \<and> (\<forall>i < find_file_loop c files key left right. P (files ! i)) \<and>
    (\<forall>i. find_file_loop c files key left right \<le> i \<and> i < length files \<longrightarrow> \<not> P (files ! i))"
  using assms(3-6)
proof (induction "right - left" arbitrary: left right rule: less_induct)
  case less
  show ?case
  proof (cases "left < right")
    case lr: True
    obtain mid where mid: "mid = (left + right) div 2" "left \<le> mid" "mid < right" using lr by simp
    show ?thesis
    proof (cases "P (files ! mid)")
      case True
      have eq: "find_file_loop c files key left right = find_file_loop c files key (mid + 1) right"
        using lr True by (subst find_file_loop.simps) (simp add: Let_def assms(2) mid(1))
      have "\<forall>i < mid + 1. P (files ! i)"
        using assms(1) [rule_format, of mid] True mid(3) less.prems(1) by (auto simp: less_Suc_eq)
      then show ?thesis unfolding eq by (intro less.hyps) (use less.prems mid(2,3) in auto)
    next
      case False
      have eq: "find_file_loop c files key left right = find_file_loop c files key left mid"
        using lr False by (subst find_file_loop.simps) (simp add: Let_def assms(2) mid(1))
      have "\<not> P (files ! i)" if "mid \<le> i" "i < length files" for i
        using assms(1) [rule_format, of i mid] False that by (cases "i = mid") auto
      then show ?thesis unfolding eq by (intro less.hyps) (use less.prems mid(2,3) in auto)
    qed
  qed (use less.prems in \<open>simp add: find_file_loop.simps\<close>)
qed

lemma find_file_lower_bound:
  assumes "disjoint files"
  shows "find_file kInternal files key = lower_bound kInternal key (level_index files)"
proof -
  let ?P = "\<lambda>f. cmp_compare kInternal (fm_largest f) key < 0" and ?n = "find_file kInternal files key"
  have "\<forall>j < length files. \<forall>i < j. ?P (files ! j) \<longrightarrow> ?P (files ! i)"
    using disjoint_largest [OF assms] ik.cmp_trans by fastforce
  from find_file_loop_bounds [OF this refl, of "length files" 0] have
    "?n \<le> length files \<and> (\<forall>i < ?n. ?P (files ! i)) \<and> (\<forall>i. ?n \<le> i \<and> i < length files \<longrightarrow> \<not> ?P (files ! i))"
    by (simp add: find_file_def)
  then have "takeWhile ?P files = take ?n files" "?n \<le> length files" by (auto intro: takeWhile_eq_take_P_nth)
  then show ?thesis by (simp add: lower_bound_def level_index_def takeWhile_map comp_def)
qed

lemma find_file_bounds:
  assumes "disjoint files"
  shows "find_file kInternal files key \<le> length files"
    and "i < find_file kInternal files key \<Longrightarrow> compare_internal_keys (fm_largest (files ! i)) key < 0"
    and "find_file kInternal files key \<le> i \<Longrightarrow> i < length files \<Longrightarrow> \<not> compare_internal_keys (fm_largest (files ! i)) key < 0"
proof -
  have o: "ordered kInternal (level_index files)"
    using assms disjoint_largest [OF assms] parsed_length
    by (auto simp: ordered_def level_index_def sorted_wrt_iff_nth_less disjoint_def file_ok_def)
  show "find_file kInternal files key \<le> length files"
    using length_takeWhile_le [of _ "level_index files"] by (simp add: find_file_lower_bound [OF assms] lower_bound_def level_index_def)
  then show "i < find_file kInternal files key \<Longrightarrow> compare_internal_keys (fm_largest (files ! i)) key < 0"
    "find_file kInternal files key \<le> i \<Longrightarrow> i < length files \<Longrightarrow> \<not> compare_internal_keys (fm_largest (files ! i)) key < 0"
    using ik.lower_bound_iff [OF o, of i key] by (auto simp: find_file_lower_bound [OF assms] level_index_def)
qed

section \<open>Overlap\<close>

lemma after_file_iff: "after_file kBytewise s f \<longleftrightarrow> (\<exists>k. s = Some k \<and> largest_user_key f < k)"
  by (auto simp: after_file_def order_simps split: option.splits)

lemma before_file_iff: "before_file kBytewise l f \<longleftrightarrow> (\<exists>k. l = Some k \<and> k < smallest_user_key f)"
  by (auto simp: before_file_def order_simps split: option.splits)

lemma first_reaching:
  assumes "disjoint files"
  shows "i < find_file kInternal files (make_internal_key k kMaxSequenceNumber kValueTypeForSeek) \<Longrightarrow>
      largest_user_key (files ! i) < k"
    and "find_file kInternal files (make_internal_key k kMaxSequenceNumber kValueTypeForSeek) \<le> i \<Longrightarrow> i < length files \<Longrightarrow>
      k \<le> largest_user_key (files ! i)"
proof -
  let ?n = "find_file kInternal files (make_internal_key k kMaxSequenceNumber kValueTypeForSeek)"
  have ok: "parse_internal_key (fm_largest (files ! i)) \<noteq> None" if "i < length files" for i
    using assms that by (simp add: disjoint_def file_ok_def)
  show "largest_user_key (files ! i) < k" if "i < ?n"
    using find_file_bounds(1) [OF assms] find_file_bounds(2) [OF assms that] before_first_version [OF ok, of i k] that
    by (metis order_less_le_trans)
  show "k \<le> largest_user_key (files ! i)" if "?n \<le> i" "i < length files"
    using find_file_bounds(3) [OF assms that] before_first_version [OF ok, of i k] that by simp
qed

lemma disjoint_smallest:
  assumes "disjoint files" "i \<le> j" "j < length files"
  shows "smallest_user_key (files ! i) \<le> smallest_user_key (files ! j)"
proof (cases "i = j")
  case False
  then have "smallest_user_key (files ! i) \<le> largest_user_key (files ! i)"
    using assms by (intro file_ok_order) (simp add: disjoint_def)
  also have "\<dots> \<le> smallest_user_key (files ! j)" using assms False by (intro disjoint_user_keys) auto
  finally show ?thesis .
qed simp

lemma overlap_search:
  assumes "disjoint files"
  shows "some_file_overlaps_range kInternal kBytewise True files s l \<longleftrightarrow>
    (\<exists>f \<in> set files. \<not> after_file kBytewise s f \<and> \<not> before_file kBytewise l f)"
proof -
  obtain n where n: "some_file_overlaps_range kInternal kBytewise True files s l \<longleftrightarrow>
      n < length files \<and> \<not> before_file kBytewise l (files ! n)"
    and reach: "\<And>i. i < length files \<Longrightarrow> after_file kBytewise s (files ! i) \<longleftrightarrow> i < n"
  proof (cases s)
    case None
    then show thesis using that [of 0] by (auto simp: some_file_overlaps_range_def after_file_iff)
  next
    case (Some k)
    then show thesis using that [of "find_file kInternal files (make_internal_key k kMaxSequenceNumber kValueTypeForSeek)"]
        first_reaching [OF assms, where k = k]
      by (simp add: some_file_overlaps_range_def after_file_iff Let_def not_less) (metis linorder_not_less)
  qed
  have up: "\<not> before_file kBytewise l (files ! n)" if "n \<le> i" "i < length files" "\<not> before_file kBytewise l (files ! i)" for i
    using that disjoint_smallest [OF assms that(1,2)] by (auto simp: before_file_iff)
  have "(\<exists>f \<in> set files. \<not> after_file kBytewise s f \<and> \<not> before_file kBytewise l f) \<longleftrightarrow>
      (\<exists>i < length files. n \<le> i \<and> \<not> before_file kBytewise l (files ! i))"
    unfolding in_set_conv_nth Bex_def using reach by (metis not_less)
  also have "\<dots> \<longleftrightarrow> n < length files \<and> \<not> before_file kBytewise l (files ! n)"
    using up by (meson le_less_trans order_refl)
  finally show ?thesis using n by blast
qed

section \<open>The files that overlap a range\<close>

text \<open>A range has two ends, either of which may be open.\<close>

definition in_range :: "bytes option \<Rightarrow> bytes option \<Rightarrow> FileMetaData \<Rightarrow> bool" where
  "in_range lo hi f \<longleftrightarrow> (\<forall>b. lo = Some b \<longrightarrow> b \<le> largest_user_key f) \<and> (\<forall>e. hi = Some e \<longrightarrow> smallest_user_key f \<le> e)"

definition within_range :: "bytes option \<Rightarrow> bytes option \<Rightarrow> FileMetaData \<Rightarrow> bool" where
  "within_range lo hi f \<longleftrightarrow> (\<forall>b. lo = Some b \<longrightarrow> b \<le> smallest_user_key f) \<and> (\<forall>e. hi = Some e \<longrightarrow> largest_user_key f \<le> e)"

definition wider :: "bytes option \<Rightarrow> bytes option \<Rightarrow> bytes option \<Rightarrow> bytes option \<Rightarrow> bool" where
  "wider lo hi lo' hi' \<longleftrightarrow> rel_option (\<ge>) lo lo' \<and> rel_option (\<le>) hi hi'"

lemma wider_refl [simp]: "wider lo hi lo hi"
  by (simp add: wider_def option.rel_refl)

lemma wider_trans: "wider a b c d \<Longrightarrow> wider c d e f \<Longrightarrow> wider a b e f"
  by (auto simp: wider_def rel_option_iff split: option.splits)

lemma overlapping_step:
  "i < length files \<Longrightarrow> f = files ! i \<Longrightarrow> overlapping_loop level files lo hi i inputs =
     (if \<not> in_range lo hi f then overlapping_loop level files lo hi (Suc i) inputs
      else if level = 0 \<and> (\<exists>b. lo = Some b \<and> smallest_user_key f < b)
      then overlapping_loop level files (Some (smallest_user_key f)) hi 0 []
      else if level = 0 \<and> (\<exists>e. hi = Some e \<and> e < largest_user_key f)
      then overlapping_loop level files lo (Some (largest_user_key f)) 0 []
      else overlapping_loop level files lo hi (Suc i) (inputs @ [f]))"
  by (subst overlapping_loop.simps) (cases lo; cases hi; auto simp: Let_def in_range_def order_simps)

lemma overlapping_sorted_level:
  "0 < level \<Longrightarrow> overlapping_loop level files lo hi i inputs = inputs @ filter (in_range lo hi) (drop i files)"
proof (induction "length files - i" arbitrary: i inputs)
  case 0
  then show ?case by (subst overlapping_loop.simps) simp
next
  case (Suc n)
  then have i: "i < length files" "drop i files = files ! i # drop (Suc i) files" by (simp_all add: Cons_nth_drop_Suc)
  then show ?case using Suc overlapping_step [OF i(1) refl, of level lo hi inputs] by auto
qed

text \<open>At level 0: the smallest range around the given one that no file reached by it sticks out of.\<close>

definition closed_range :: "FileMetaData list \<Rightarrow> bytes option \<Rightarrow> bytes option \<Rightarrow> bool" where
  "closed_range files lo hi \<longleftrightarrow> (\<forall>f \<in> set files. in_range lo hi f \<longrightarrow> within_range lo hi f)"

definition closure_of :: "FileMetaData list \<Rightarrow> bytes option \<Rightarrow> bytes option \<Rightarrow> bytes option \<Rightarrow> bytes option \<Rightarrow> bool" where
  "closure_of files lo hi lo' hi' \<longleftrightarrow> wider lo hi lo' hi' \<and> closed_range files lo' hi' \<and>
     (\<forall>a b. wider lo hi a b \<and> closed_range files a b \<longrightarrow> wider lo' hi' a b)"

lemma closed_wider:
  assumes "closed_range files a b" "f \<in> set files" "wider lo hi a b" "in_range lo hi f"
  shows "\<exists>x. lo = Some x \<Longrightarrow> wider (Some (smallest_user_key f)) hi a b" "\<exists>x. hi = Some x \<Longrightarrow> wider lo (Some (largest_user_key f)) a b"
proof -
  have "in_range a b f" using assms(3,4) unfolding wider_def in_range_def by (auto simp: option_rel_Some2)
  then have "within_range a b f" using assms(1,2) by (simp add: closed_range_def)
  then show "\<exists>x. lo = Some x \<Longrightarrow> wider (Some (smallest_user_key f)) hi a b" "\<exists>x. hi = Some x \<Longrightarrow> wider lo (Some (largest_user_key f)) a b"
    using assms(3) unfolding wider_def within_range_def by (auto simp: option_rel_Some1)
qed

lemma closure_step:
  assumes "closure_of files lo1 hi1 lo' hi'" "wider lo hi lo1 hi1"
    and "\<And>a b. closed_range files a b \<Longrightarrow> wider lo hi a b \<Longrightarrow> wider lo1 hi1 a b"
  shows "closure_of files lo hi lo' hi'"
  using assms wider_trans [of lo hi lo1 hi1] unfolding closure_of_def by blast

lemma overlapping_level0:
  assumes "i \<le> length files" "inputs = filter (in_range lo hi) (take i files)" "\<forall>f \<in> set inputs. within_range lo hi f"
  shows "\<exists>lo' hi'. closure_of files lo hi lo' hi' \<and> overlapping_loop 0 files lo hi i inputs = filter (in_range lo' hi') files"
  using assms
proof (induction "sticking_out files lo hi" arbitrary: lo hi i inputs rule: less_induct)
  case outer: less
  from outer.prems show ?case
  proof (induction "length files - i" arbitrary: i inputs)
    case 0
    then have "overlapping_loop 0 files lo hi i inputs = filter (in_range lo hi) files"
      by (subst overlapping_loop.simps) simp
    moreover have "closure_of files lo hi lo hi" using 0 by (auto simp: closure_of_def closed_range_def)
    ultimately show ?case by blast
  next
    case (Suc n)
    define f where "f = files ! i"
    have i: "i < length files" "take (Suc i) files = take i files @ [f]"
      using Suc.hyps(2) by (simp_all add: take_Suc_conv_app_nth f_def)
    have f: "f \<in> set files" using i(1) by (simp add: f_def)
    note step = overlapping_step [OF i(1) f_def, of 0 lo hi inputs]
    consider (out) "\<not> in_range lo hi f" | (low) b where "in_range lo hi f" "lo = Some b" "smallest_user_key f < b"
      | (high) e where "in_range lo hi f" "\<not> (\<exists>b. lo = Some b \<and> smallest_user_key f < b)" "hi = Some e" "e < largest_user_key f"
      | (inside) "in_range lo hi f" "within_range lo hi f"
      unfolding within_range_def by (metis not_less)
    then show ?case
    proof cases
      case out
      then show ?thesis using step Suc.hyps(1) [of "Suc i" inputs] Suc.hyps(2) Suc.prems i by simp
    next
      case low
      have "\<exists>lo' hi'. closure_of files (Some (smallest_user_key f)) hi lo' hi' \<and>
          overlapping_loop 0 files (Some (smallest_user_key f)) hi 0 [] = filter (in_range lo' hi') files"
        using sticking_out_less(1) [OF f low(3)] low(2) by (intro outer.hyps) auto
      moreover have "closure_of files lo hi lo' hi'" if "closure_of files (Some (smallest_user_key f)) hi lo' hi'" for lo' hi'
        by (rule closure_step [OF that]) (use low closed_wider(1) [OF _ f _ low(1)] in \<open>auto simp: wider_def option.rel_refl\<close>)
      ultimately show ?thesis using step low by auto
    next
      case high
      have "\<exists>lo' hi'. closure_of files lo (Some (largest_user_key f)) lo' hi' \<and>
          overlapping_loop 0 files lo (Some (largest_user_key f)) 0 [] = filter (in_range lo' hi') files"
        using sticking_out_less(2) [OF f high(4)] high(3) by (intro outer.hyps) auto
      moreover have "closure_of files lo hi lo' hi'" if "closure_of files lo (Some (largest_user_key f)) lo' hi'" for lo' hi'
        by (rule closure_step [OF that]) (use high closed_wider(2) [OF _ f _ high(1)] in \<open>auto simp: wider_def option.rel_refl\<close>)
      ultimately show ?thesis using step high by auto
    next
      case inside
      then have "\<not> (\<exists>b. lo = Some b \<and> smallest_user_key f < b)" "\<not> (\<exists>e. hi = Some e \<and> e < largest_user_key f)"
        by (auto simp: within_range_def)
      then show ?thesis using step inside Suc.hyps(1) [of "Suc i" "inputs @ [f]"] Suc.hyps(2) Suc.prems i by auto
    qed
  qed
qed

section \<open>The level of a flushed memtable\<close>

lemma pick_level_step:
  "pick_level_loop options v smallest largest level = level \<or>
   level < kMaxMemCompactLevel \<and> \<not> overlaps_in_level v (level + 1) (Some smallest) (Some largest) \<and>
   pick_level_loop options v smallest largest level = pick_level_loop options v smallest largest (level + 1)"
  using pick_level_loop.simps [of options v smallest largest level] by metis

lemma pick_level_loop_clear:
  assumes "level \<le> kMaxMemCompactLevel" "\<forall>i \<le> level. \<not> overlaps_in_level v i (Some smallest) (Some largest)"
  shows "pick_level_loop options v smallest largest level \<le> kMaxMemCompactLevel \<and>
    (\<forall>i \<le> pick_level_loop options v smallest largest level. \<not> overlaps_in_level v i (Some smallest) (Some largest))"
  using assms
proof (induction "kMaxMemCompactLevel - level" arbitrary: level)
  case 0
  then show ?case using pick_level_step [of options v smallest largest level] by simp
next
  case (Suc n)
  from pick_level_step [of options v smallest largest level] show ?case
  proof
    assume step: "level < kMaxMemCompactLevel \<and> \<not> overlaps_in_level v (level + 1) (Some smallest) (Some largest) \<and>
      pick_level_loop options v smallest largest level = pick_level_loop options v smallest largest (level + 1)"
    then have eq: "pick_level_loop options v smallest largest level = pick_level_loop options v smallest largest (level + 1)" by blast
    show ?thesis unfolding eq by (rule Suc.hyps(1)) (use Suc step in \<open>auto simp: le_Suc_eq\<close>)
  qed (use Suc.prems in simp)
qed

section \<open>Properties\<close>

text \<open>
  C8. The files that overlap a range are found exactly.  Below level 0 they are the ones the
  range meets.  At level 0, where taking in a file widens the range, the restarting loop
  ends, and gives the files that meet the smallest range around the given one which none of
  the files it meets sticks out of: no file that overlaps a chosen one is left behind, and
  none is taken without need.
\<close>

theorem overlapping_inputs_closed:
  "(0 < level \<longrightarrow> get_overlapping_inputs v level b e =
      filter (in_range (map_option extract_user_key b) (map_option extract_user_key e)) (v_files v level)) \<and>
   (\<exists>lo hi. closure_of (v_files v 0) (map_option extract_user_key b) (map_option extract_user_key e) lo hi \<and>
      get_overlapping_inputs v 0 b e = filter (in_range lo hi) (v_files v 0))"
  using overlapping_sorted_level [of level "v_files v level"] overlapping_level0 [of 0 "v_files v 0" "[]"]
  by (simp add: get_overlapping_inputs_def)

definition sample_file :: "u64 \<Rightarrow> byte \<Rightarrow> byte \<Rightarrow> FileMetaData" where
  "sample_file number a b = new_meta number 100 (make_internal_key [a] 5 kValue) (make_internal_key [b] 4 kValue)"

theorem overlapping_inputs_closed_witness:
  "get_overlapping_inputs (Version_ctor\<lparr>v_files := \<lambda>_. [sample_file 1 1 2, sample_file 2 3 5]\<rparr>) 1
     (Some (make_internal_key [4] 9 kValue)) None = [sample_file 2 3 5]"
proof -
  have "in_range (Some [4]) None (sample_file 2 3 5)" "\<not> in_range (Some [4]) None (sample_file 1 1 2)"
    by (simp_all add: in_range_def sample_file_def new_meta_def)
  then show ?thesis
    using overlapping_inputs_closed [of 1 "Version_ctor\<lparr>v_files := \<lambda>_. [sample_file 1 1 2, sample_file 2 3 5]\<rparr>"
        "Some (make_internal_key [4] 9 kValue)" None] by simp
qed

text \<open>
  C10. The test for overlap by binary search agrees with the scan of every file.  On a level
  whose files are disjoint and in order, with either end of the range open or not, one
  probe answers what the loop over all files answers.
\<close>

theorem overlap_search_equals_scan:
  assumes "disjoint files"
  shows "some_file_overlaps_range kInternal kBytewise True files smallest largest =
    some_file_overlaps_range kInternal kBytewise False files smallest largest"
  using overlap_search [OF assms, of smallest largest] by (simp add: some_file_overlaps_range_def)

lemma sample_files_disjoint: "disjoint [sample_file 1 1 2, sample_file 2 3 5]"
  by (simp add: disjoint_def file_ok_def sample_file_def new_meta_def cik_less kMaxSequenceNumber_def)

theorem overlap_search_equals_scan_witness:
  "some_file_overlaps_range kInternal kBytewise True [sample_file 1 1 2, sample_file 2 3 5] (Some [4]) None"
  using overlap_search_equals_scan [OF sample_files_disjoint, of "Some [4]" None]
  by (simp add: some_file_overlaps_range_def after_file_iff before_file_iff sample_file_def new_meta_def)

text \<open>
  C9. A flushed memtable never lands beside or below a file it overlaps.  The level chosen
  for its table is at most 2, and if it is not level 0, then no file of that level or of a
  level above holds a key in its range.
\<close>

theorem memtable_output_level_safe:
  assumes "\<forall>level. 0 < level \<longrightarrow> disjoint (v_files v level)"
    and "pick_level_for_memtable_output options v smallest largest = level"
  shows "level \<le> kMaxMemCompactLevel \<and>
    (0 < level \<longrightarrow> (\<forall>i \<le> level. \<forall>f \<in> set (v_files v i). largest_user_key f < smallest \<or> largest < smallest_user_key f))"
proof -
  have scan: "overlaps_in_level v i (Some smallest) (Some largest) \<longleftrightarrow>
      (\<exists>f \<in> set (v_files v i). \<not> after_file kBytewise (Some smallest) f \<and> \<not> before_file kBytewise (Some largest) f)" for i
    using overlap_search [of "v_files v i"] assms(1)
    by (cases "i = 0") (simp_all add: overlaps_in_level_def some_file_overlaps_range_def [of _ _ False])
  show ?thesis
  proof (cases "overlaps_in_level v 0 (Some smallest) (Some largest)")
    case True
    then show ?thesis using assms(2) by (simp add: pick_level_for_memtable_output_def)
  next
    case False
    then have clear: "\<forall>i \<le> 0. \<not> overlaps_in_level v i (Some smallest) (Some largest)" by simp
    have pick: "pick_level_loop options v smallest largest 0 = level"
      using False assms(2) by (simp add: pick_level_for_memtable_output_def)
    have "level \<le> kMaxMemCompactLevel" "\<forall>i \<le> level. \<not> overlaps_in_level v i (Some smallest) (Some largest)"
      using pick_level_loop_clear [OF le0 clear, of options] unfolding pick by blast+
    then show ?thesis unfolding scan after_file_iff before_file_iff by (metis option.inject)
  qed
qed

theorem memtable_output_level_safe_witness:
  "pick_level_for_memtable_output sample_options
     (Version_ctor\<lparr>v_files := \<lambda>i. if i = 3 then [sample_file 1 1 2, sample_file 2 3 5] else []\<rparr>) [1] [2] \<le> kMaxMemCompactLevel"
proof -
  have "\<forall>level. 0 < level \<longrightarrow>
      disjoint (v_files (Version_ctor\<lparr>v_files := \<lambda>i. if i = 3 then [sample_file 1 1 2, sample_file 2 3 5] else []\<rparr>) level)"
    using sample_files_disjoint by (simp add: disjoint_Nil)
  from memtable_output_level_safe [OF this refl, of sample_options "[1]" "[2]"] show ?thesis by (rule conjunct1)
qed

end
