(* ===== verification/Version_Get.thy ===== *)
theory Version_Get
  imports Version_Props
begin

text \<open>
  A lookup in a version answers with the newest visible entry of all its files, whatever
  table cache it reads them through.
\<close>

section \<open>The newest visible entry\<close>

definition visible_entry :: "bytes \<Rightarrow> u64 \<Rightarrow> bytes \<times> bytes \<Rightarrow> bool" where
  "visible_entry uk snap e \<longleftrightarrow> ukey e = uk \<and> seen snap e"

definition newest_entry :: "bytes \<Rightarrow> u64 \<Rightarrow> (bytes \<times> bytes) set \<Rightarrow> bytes \<times> bytes \<Rightarrow> bool" where
  "newest_entry uk snap E e \<longleftrightarrow> e \<in> E \<and> visible_entry uk snap e \<and>
     (\<forall>x \<in> E. visible_entry uk snap x \<longrightarrow> extract_sequence (fst x) \<le> extract_sequence (fst e))"

text \<open>What a sorted run answers: the first entry at or after the lookup key, if it is of the user key.\<close>

definition run_answer :: "bytes \<Rightarrow> u64 \<Rightarrow> (bytes \<times> bytes) list \<Rightarrow> (bytes \<times> bytes) option" where
  "run_answer uk snap kvs =
     (case first_at kInternal (make_lookup_key uk snap) kvs of
        None \<Rightarrow> None | Some e \<Rightarrow> if ukey e = uk then Some e else None)"

lemma parses_in:
  assumes "parses kvs" "e \<in> set kvs"
  shows "parse_internal_key (fst e) \<noteq> None"
  using assms by (simp add: parses_def)

lemma entry_before_lookup:
  assumes "parses kvs" "e \<in> set kvs" "snap \<le> kMaxSequenceNumber"
  shows "compare_internal_keys (fst e) (make_lookup_key uk snap) < 0 \<longleftrightarrow> ukey e < uk \<or> ukey e = uk \<and> \<not> seen snap e"
  using key_before_lookup [OF parses_in [OF assms(1,2)] assms(3)] by (simp add: ukey_def seen_def)

lemma first_at_Some:
  assumes "first_at c t kvs = Some e"
  obtains i where "i < length kvs" "e = kvs ! i" "\<not> cmp_compare c (fst e) t < 0" "\<forall>j < i. cmp_compare c (fst (kvs ! j)) t < 0"
  using assms that by (auto simp: first_at_def find_Some_iff)

lemma run_answer_None:
  assumes ps: "parses kvs" and snap: "snap \<le> kMaxSequenceNumber" and none: "run_answer uk snap kvs = None" and e: "e \<in> set kvs"
  shows "\<not> visible_entry uk snap e"
proof (cases "first_at kInternal (make_lookup_key uk snap) kvs")
  case None
  then show ?thesis using e entry_before_lookup [OF ps e snap, of uk] by (auto simp: first_at_None visible_entry_def)
next
  case (Some x)
  obtain i where i: "i < length kvs" "x = kvs ! i" "\<not> compare_internal_keys (fst x) (make_lookup_key uk snap) < 0"
    "\<forall>j < i. compare_internal_keys (fst (kvs ! j)) (make_lookup_key uk snap) < 0"
    using first_at_Some [OF Some] by auto
  have "ukey x \<noteq> uk" using none Some by (auto simp: run_answer_def split: if_splits)
  moreover have "x \<in> set kvs" using i by simp
  ultimately have "uk < ukey x" using i(3) entry_before_lookup [OF ps _ snap, of x uk] by fastforce
  obtain j where j: "j < length kvs" "e = kvs ! j" using e by (auto simp: in_set_conv_nth)
  show ?thesis
  proof (cases "j < i")
    case True
    then show ?thesis using i(4) j entry_before_lookup [OF ps e snap, of uk] by (auto simp: visible_entry_def)
  next
    case False
    then have "ukey x \<le> ukey e" using ukey_mono [OF ps, of i j] i j by simp
    then show ?thesis using \<open>uk < ukey x\<close> by (auto simp: visible_entry_def)
  qed
qed

lemma seq_mono:
  assumes "parses kvs" "i \<le> j" "j < length kvs" "ukey (kvs ! i) = ukey (kvs ! j)"
  shows "extract_sequence (fst (kvs ! j)) \<le> extract_sequence (fst (kvs ! i))"
proof (cases "i = j")
  case False
  then have "trailer (fst (kvs ! j)) < trailer (fst (kvs ! i))"
    using ik.ordered_less [of kvs i j] assms by (auto simp: parses_def cik_less ukey_def)
  then show ?thesis by (simp add: extract_sequence_def drop_bit_eq_div word_le_nat_alt word_less_nat_alt unat_div div_le_mono)
qed simp

lemma run_answer_Some:
  assumes ps: "parses kvs" and snap: "snap \<le> kMaxSequenceNumber" and some: "run_answer uk snap kvs = Some e"
  shows "newest_entry uk snap (set kvs) e"
proof -
  have fa: "first_at kInternal (make_lookup_key uk snap) kvs = Some e" and u: "ukey e = uk"
    using some by (auto simp: run_answer_def split: option.splits if_splits)
  obtain i where i: "i < length kvs" "e = kvs ! i" "\<not> compare_internal_keys (fst e) (make_lookup_key uk snap) < 0"
    "\<forall>j < i. compare_internal_keys (fst (kvs ! j)) (make_lookup_key uk snap) < 0"
    using first_at_Some [OF fa] by auto
  have in_e: "e \<in> set kvs" using i by simp
  then have "visible_entry uk snap e"
    using i(3) u entry_before_lookup [OF ps in_e snap, of uk] by (auto simp: visible_entry_def)
  moreover have "extract_sequence (fst x) \<le> extract_sequence (fst e)" if x: "x \<in> set kvs" "visible_entry uk snap x" for x
  proof -
    obtain j where j: "j < length kvs" "x = kvs ! j" using x(1) by (auto simp: in_set_conv_nth)
    have "\<not> j < i" using i(4) j entry_before_lookup [OF ps x(1) snap, of uk] x(2) by (auto simp: visible_entry_def)
    then show ?thesis using seq_mono [OF ps, of i j] i j u x(2) by (auto simp: visible_entry_def)
  qed
  ultimately show ?thesis using in_e by (simp add: newest_entry_def)
qed

section \<open>Files and what they hold\<close>

definition file_holds :: "(FileMetaData \<Rightarrow> (bytes \<times> bytes) list) \<Rightarrow> FileMetaData \<Rightarrow> bool" where
  "file_holds content f \<longleftrightarrow> content f \<noteq> [] \<and> parses (content f) \<and>
     fm_smallest f = fst (hd (content f)) \<and> fm_largest f = fst (last (content f))"

abbreviation level_run :: "(FileMetaData \<Rightarrow> (bytes \<times> bytes) list) \<Rightarrow> FileMetaData list \<Rightarrow> (bytes \<times> bytes) list" where
  "level_run content files \<equiv> concat (map content files)"

text \<open>Every version of a key in the first list is newer than every version of it in the second.\<close>

definition fresher :: "(bytes \<times> bytes) list \<Rightarrow> (bytes \<times> bytes) list \<Rightarrow> bool" where
  "fresher a b \<longleftrightarrow> (\<forall>x \<in> set a. \<forall>y \<in> set b. ukey x = ukey y \<longrightarrow> extract_sequence (fst y) < extract_sequence (fst x))"

text \<open>
  The shape of a database: below level 0 the files of a level are disjoint and in order;
  at level 0 a larger number means newer entries; and a level holds newer entries than
  the levels below it.
\<close>

definition version_ok :: "(FileMetaData \<Rightarrow> (bytes \<times> bytes) list) \<Rightarrow> Version \<Rightarrow> bool" where
  "version_ok content v \<longleftrightarrow>
     (\<forall>level < kNumLevels. \<forall>f \<in> set (v_files v level). file_holds content f) \<and>
     (\<forall>level < kNumLevels. 0 < level \<longrightarrow> disjoint (v_files v level)) \<and>
     (\<forall>f \<in> set (v_files v 0). fm_number f < - 1) \<and>
     inj_on fm_number (set (v_files v 0)) \<and>
     (\<forall>a \<in> set (v_files v 0). \<forall>b \<in> set (v_files v 0). fm_number b < fm_number a \<longrightarrow> fresher (content a) (content b)) \<and>
     (\<forall>j < kNumLevels. \<forall>i < j. \<forall>a \<in> set (v_files v i). \<forall>b \<in> set (v_files v j). fresher (content a) (content b))"

definition version_entries :: "(FileMetaData \<Rightarrow> (bytes \<times> bytes) list) \<Rightarrow> Version \<Rightarrow> (bytes \<times> bytes) set" where
  "version_entries content v = (\<Union>level < kNumLevels. \<Union>f \<in> set (v_files v level). set (content f))"

lemma entry_order:
  assumes "ordered kInternal kvs" "i \<le> j" "j < length kvs"
  shows "\<not> compare_internal_keys (fst (kvs ! j)) (fst (kvs ! i)) < 0"
proof (cases "i = j")
  case False
  then have "compare_internal_keys (fst (kvs ! i)) (fst (kvs ! j)) < 0"
    using ik.ordered_less [OF assms(1), of i j] assms(2,3) by simp
  then show ?thesis using cik_trans [of "fst (kvs ! i)" "fst (kvs ! j)" "fst (kvs ! i)"] by (auto simp: cik_less)
qed (simp add: cik_less)

lemma file_holds_bounds:
  assumes "file_holds content f" "e \<in> set (content f)"
  shows "smallest_user_key f \<le> ukey e" "ukey e \<le> largest_user_key f"
    "\<not> compare_internal_keys (fst e) (fm_smallest f) < 0" "\<not> compare_internal_keys (fm_largest f) (fst e) < 0"
proof -
  let ?k = "content f"
  have ps: "parses ?k" and o: "ordered kInternal ?k" using assms(1) by (auto simp: file_holds_def parses_def)
  obtain i where i: "i < length ?k" "e = ?k ! i" using assms(2) by (auto simp: in_set_conv_nth)
  have s: "fm_smallest f = fst (?k ! 0)" and l: "fm_largest f = fst (?k ! (length ?k - 1))"
    using assms(1) by (auto simp: file_holds_def hd_conv_nth last_conv_nth)
  show "smallest_user_key f \<le> ukey e" "ukey e \<le> largest_user_key f"
    using ukey_mono [OF ps, of 0 i] ukey_mono [OF ps, of i "length ?k - 1"] i by (auto simp: s l ukey_def)
  show "\<not> compare_internal_keys (fst e) (fm_smallest f) < 0"
    using entry_order [OF o, of 0 i] i by (simp add: s)
  show "\<not> compare_internal_keys (fm_largest f) (fst e) < 0"
    using entry_order [OF o, of i "length ?k - 1"] i by (simp add: l)
qed

lemma file_holds_ok:
  assumes "file_holds content f"
  shows "file_ok f" "8 \<le> length (fm_smallest f)" "8 \<le> length (fm_largest f)" "e \<in> set (content f) \<Longrightarrow> 8 \<le> length (fst e)"
proof -
  have h: "parses (content f)" "hd (content f) \<in> set (content f)" "last (content f) \<in> set (content f)"
    "fm_smallest f = fst (hd (content f))" "fm_largest f = fst (last (content f))"
    using assms by (simp_all add: file_holds_def)
  have p: "parse_internal_key (fm_smallest f) \<noteq> None" "parse_internal_key (fm_largest f) \<noteq> None"
    using parses_in [OF h(1)] h(2-5) by simp_all
  moreover have "\<not> compare_internal_keys (fm_largest f) (fm_smallest f) < 0"
    using file_holds_bounds(4) [OF assms h(2)] h(4) by simp
  ultimately show "file_ok f" by (simp add: file_ok_def)
  show "8 \<le> length (fm_smallest f)" "8 \<le> length (fm_largest f)" using p parsed_length by auto
  show "8 \<le> length (fst e)" if "e \<in> set (content f)" using parses_in [OF h(1) that] by (rule parsed_length)
qed

text \<open>A level below 0 is one sorted run, and one file answers for it.\<close>

lemma level_run_parses:
  assumes "disjoint files" "\<forall>f \<in> set files. file_holds content f"
  shows "parses (level_run content files)"
  using assms
proof (induction files)
  case (Cons f files)
  have "disjoint files" using Cons.prems(1) by (simp add: disjoint_def)
  then have IH: "parses (level_run content files)" using Cons by simp
  have f: "parses (content f)" "file_holds content f" using Cons.prems(2) by (auto simp: file_holds_def)
  have "compare_internal_keys (fst x) (fst y) < 0" if x: "x \<in> set (content f)" and g: "g \<in> set files" "y \<in> set (content g)" for x y g
  proof -
    have gh: "file_holds content g" using Cons.prems(2) g(1) by simp
    have "compare_internal_keys (fm_largest f) (fm_smallest g) < 0" using Cons.prems(1) g(1) by (simp add: disjoint_def)
    moreover have "8 \<le> length (fm_largest f)" "8 \<le> length (fst x)" "8 \<le> length (fm_smallest g)" "8 \<le> length (fst y)"
      using file_holds_ok [OF f(2)] file_holds_ok [OF gh] x g(2) by auto
    ultimately show ?thesis
      using file_holds_bounds(4) [OF f(2) x] file_holds_bounds(3) [OF gh g(2)]
        ik.cmp_le_less_trans [of "fst x" "fm_largest f" "fm_smallest g"] ik.cmp_less_le_trans [of "fm_smallest g" "fst y" "fst x"]
      by simp
  qed
  then show ?case using IH f by (auto simp: parses_def ordered_def sorted_wrt_append)
qed (simp add: parses_def ordered_def)

lemma level_answer:
  assumes dj: "disjoint files" and fh: "\<forall>f \<in> set files. file_holds content f" and snap: "snap \<le> kMaxSequenceNumber"
    and n: "n = find_file kInternal files (make_lookup_key uk snap)"
  shows "run_answer uk snap (level_run content files) =
    (if n < length files \<and> \<not> uk < smallest_user_key (files ! n) then run_answer uk snap (content (files ! n)) else None)"
proof -
  let ?t = "make_lookup_key uk snap"
  have before: "\<forall>x \<in> set (level_run content (take n files)). compare_internal_keys (fst x) ?t < 0"
  proof
    fix x assume "x \<in> set (level_run content (take n files))"
    then obtain f where f: "f \<in> set (take n files)" "x \<in> set (content f)" by auto
    then obtain i where i: "i < n" "i < length files" "x \<in> set (content (files ! i))"
      unfolding in_set_conv_nth [of f] by auto
    then have h: "file_holds content (files ! i)" using fh by simp
    have "compare_internal_keys (fm_largest (files ! i)) ?t < 0" using find_file_bounds(2) [OF dj] i(1) n by simp
    moreover have "8 \<le> length (fm_largest (files ! i))" "8 \<le> length (fst x)"
      using file_holds_ok(3,4) [OF h] i(3) by auto
    ultimately show "compare_internal_keys (fst x) ?t < 0"
      using file_holds_bounds(4) [OF h i(3)] ik.cmp_le_less_trans [of "fst x" "fm_largest (files ! i)" ?t] by simp
  qed
  show ?thesis
  proof (cases "n < length files")
    case True
    let ?f = "files ! n"
    have h: "file_holds content ?f" using fh True by simp
    have split: "level_run content files = level_run content (take n files) @ content ?f @ level_run content (drop (Suc n) files)"
      using id_take_nth_drop [OF True] by (metis concat.simps(2) concat_append list.map(2) map_append)
    have "last (content ?f) \<in> set (content ?f)" "\<not> compare_internal_keys (fst (last (content ?f))) ?t < 0"
      using h find_file_bounds(3) [OF dj, of ?t n] n True by (simp_all add: file_holds_def)
    then obtain e where e: "first_at kInternal ?t (content ?f) = Some e"
      using first_at_None [of kInternal ?t "content ?f"] by (cases "first_at kInternal ?t (content ?f)") auto
    have "first_at kInternal ?t (level_run content files) = Some e"
      using before first_at_append_Some [OF e] by (simp add: split first_at_skip)
    moreover have "smallest_user_key ?f \<le> ukey e" using file_holds_bounds(1) [OF h first_at_in [OF e]] .
    ultimately show ?thesis using e True by (auto simp: run_answer_def)
  next
    case False
    then have "take n files = files" by simp
    then have "first_at kInternal ?t (level_run content files) = None" using before by (simp add: first_at_None)
    then show ?thesis using False by (simp add: run_answer_def)
  qed
qed

section \<open>Level 0\<close>

lemma newest_unsearched_best:
  assumes "g \<in> set files" "fm_number g < newer_than" "covers key g"
  shows "\<exists>f. newest_unsearched key newer_than files = Some f \<and> fm_number g \<le> fm_number f"
proof -
  let ?step = "newer_file key newer_than"
  have keep: "\<exists>f. foldl ?step (Some h) fs = Some f \<and> fm_number h \<le> fm_number f" for h fs
  proof (induction fs arbitrary: h)
    case (Cons x fs)
    show ?case
    proof (cases "fm_number x < newer_than \<and> fm_number x > fm_number h \<and> covers key x")
      case True
      then have "?step (Some h) x = Some x" by (simp add: newer_file_def)
      then show ?thesis using Cons.IH [of x] True by auto
    next
      case False
      then have "?step (Some h) x = Some h" by (auto simp: newer_file_def)
      then show ?thesis using Cons.IH [of h] by simp
    qed
  qed simp
  have "\<exists>f. foldl ?step best files = Some f \<and> fm_number g \<le> fm_number f" for best
    using assms(1)
  proof (induction files arbitrary: best)
    case (Cons x files)
    show ?case
    proof (cases "x = g")
      case True
      show ?thesis
      proof (cases "best = None \<or> fm_number g > fm_number (the best)")
        case better: True
        then have "?step best x = Some g" using True assms(2,3) by (simp add: newer_file_def)
        then show ?thesis using keep [of g files] by simp
      next
        case False
        then obtain h where h: "best = Some h" "fm_number g \<le> fm_number h" by auto
        then have "?step best x = Some h" using True False by (simp add: newer_file_def)
        then show ?thesis using keep [of h files] h(2) by auto
      qed
    next
      case False
      then show ?thesis using Cons by simp
    qed
  qed simp
  then show ?thesis by (simp add: newest_unsearched_def)
qed

lemma not_covered:
  assumes "file_holds content f" "\<not> covers (LookupKey_ctor uk snap) f"
  shows "run_answer uk snap (content f) = None"
proof -
  have "ukey e \<noteq> uk" if "e \<in> set (content f)" for e
    using file_holds_bounds(1,2) [OF assms(1) that] assms(2) by (auto simp: covers_def order_simps not_le not_less)
  then show ?thesis using first_at_in [of kInternal _ "content f"] by (auto simp: run_answer_def split: option.splits)
qed

section \<open>Newest in a run, newest of all\<close>

lemma in_version:
  assumes "x \<in> version_entries content v"
  obtains i g where "i < kNumLevels" "g \<in> set (v_files v i)" "x \<in> set (content g)"
  using assms by (auto simp: version_entries_def)

lemma version_okD:
  assumes "version_ok content v" "f \<in> set (v_files v i)" "i < kNumLevels"
  shows "file_holds content f" "parses (content f)" "0 < i \<Longrightarrow> parses (level_run content (v_files v i))"
    "e \<in> set (content f) \<Longrightarrow> e \<in> version_entries content v"
proof -
  show f: "file_holds content f" using assms unfolding version_ok_def by blast
  show "parses (content f)" using f by (simp add: file_holds_def)
  have "\<forall>f \<in> set (v_files v i). file_holds content f" using assms unfolding version_ok_def by blast
  then show "parses (level_run content (v_files v i))" if "0 < i"
    using level_run_parses [of "v_files v i" content] assms that unfolding version_ok_def by blast
  show "e \<in> set (content f) \<Longrightarrow> e \<in> version_entries content v" using assms by (auto simp: version_entries_def)
qed

lemma fresher_seq: "fresher a b \<Longrightarrow> x \<in> set a \<Longrightarrow> y \<in> set b \<Longrightarrow> ukey x = ukey y \<Longrightarrow> extract_sequence (fst y) \<le> extract_sequence (fst x)"
  by (auto simp: fresher_def less_imp_le)

lemma newest_at_level0:
  assumes v: "version_ok content v" and snap: "snap \<le> kMaxSequenceNumber" and f: "f \<in> set (v_files v 0)"
    and e: "run_answer uk snap (content f) = Some e"
    and newer: "\<forall>g \<in> set (v_files v 0). fm_number f < fm_number g \<longrightarrow> run_answer uk snap (content g) = None"
  shows "newest_entry uk snap (version_entries content v) e"
proof -
  have lev: "0 < kNumLevels" by (simp add: kNumLevels_def)
  have ne: "newest_entry uk snap (set (content f)) e" using run_answer_Some [OF version_okD(2) [OF v f lev] snap e] .
  then have ein: "e \<in> set (content f)" "ukey e = uk" "visible_entry uk snap e" by (auto simp: newest_entry_def visible_entry_def)
  have "extract_sequence (fst x) \<le> extract_sequence (fst e)" if x: "x \<in> version_entries content v" "visible_entry uk snap x" for x
  proof -
    obtain i g where g: "i < kNumLevels" "g \<in> set (v_files v i)" "x \<in> set (content g)" by (rule in_version [OF x(1)])
    have u: "ukey e = ukey x" using x(2) ein(2) by (simp add: visible_entry_def)
    show ?thesis
    proof (cases "i = 0")
      case True
      consider "fm_number f < fm_number g" | "g = f" | "fm_number g < fm_number f"
        using v f g(2) True unfolding version_ok_def inj_on_def by (metis linorder_neqE)
      then show ?thesis
      proof cases
        case 1
        then show ?thesis using run_answer_None [OF version_okD(2) [OF v g(2,1)] snap _ g(3), of uk] newer g(2) x(2) True by auto
      next
        case 2
        then show ?thesis using ne x(2) g(3) by (simp add: newest_entry_def)
      next
        case 3
        then have "fresher (content f) (content g)" using v f g(2) True unfolding version_ok_def by blast
        then show ?thesis using fresher_seq ein(1) g(3) u by blast
      qed
    next
      case False
      then have "fresher (content f) (content g)" using v f g(1,2) unfolding version_ok_def by blast
      then show ?thesis using fresher_seq ein(1) g(3) u by blast
    qed
  qed
  then show ?thesis using ein version_okD(4) [OF v f lev] by (simp add: newest_entry_def)
qed

lemma newest_at_level:
  assumes v: "version_ok content v" and snap: "snap \<le> kMaxSequenceNumber" and level: "0 < level" "level < kNumLevels"
    and e: "run_answer uk snap (level_run content (v_files v level)) = Some e"
    and above: "\<forall>i < level. 0 < i \<longrightarrow> run_answer uk snap (level_run content (v_files v i)) = None"
    and zero: "\<forall>f \<in> set (v_files v 0). run_answer uk snap (content f) = None"
  shows "newest_entry uk snap (version_entries content v) e"
proof -
  have "e \<in> set (level_run content (v_files v level))"
    using e first_at_in by (fastforce simp: run_answer_def split: option.splits if_splits)
  then obtain f where f: "f \<in> set (v_files v level)" "e \<in> set (content f)" by auto
  have ne: "newest_entry uk snap (set (level_run content (v_files v level))) e"
    using run_answer_Some [OF version_okD(3) [OF v f(1) level(2,1)] snap e] .
  then have ein: "ukey e = uk" "visible_entry uk snap e" by (auto simp: newest_entry_def visible_entry_def)
  have "extract_sequence (fst x) \<le> extract_sequence (fst e)" if x: "x \<in> version_entries content v" "visible_entry uk snap x" for x
  proof -
    obtain i g where g: "i < kNumLevels" "g \<in> set (v_files v i)" "x \<in> set (content g)" by (rule in_version [OF x(1)])
    then have run: "x \<in> set (level_run content (v_files v i))" by auto
    consider "i = 0" | "0 < i" "i < level" | "i = level" | "level < i" by linarith
    then show ?thesis
    proof cases
      case 1
      then show ?thesis using run_answer_None [OF version_okD(2) [OF v g(2,1)] snap _ g(3), of uk] zero g(2) x(2) by auto
    next
      case 2
      then show ?thesis using run_answer_None [OF version_okD(3) [OF v g(2,1)] snap _ run, of uk] above x(2) by auto
    next
      case 3
      then show ?thesis using ne run x(2) unfolding newest_entry_def by blast
    next
      case 4
      then have "fresher (content f) (content g)" using v f(1) g(1,2) unfolding version_ok_def by blast
      then show ?thesis using fresher_seq f(2) g(3) ein(1) x(2) by (simp add: visible_entry_def)
    qed
  qed
  then show ?thesis using ein version_okD(4) [OF v f(1) level(2) f(2)] by (simp add: newest_entry_def)
qed

section \<open>Reading through a table cache\<close>

definition verdict :: "bytes \<times> bytes \<Rightarrow> status" where
  "verdict e = (if is_put e then status_ok else Status kNotFound ''deleted'')"

definition value_after :: "(bytes \<times> bytes) option \<Rightarrow> bytes \<Rightarrow> bytes" where
  "value_after answer out = (case answer of None \<Rightarrow> out | Some e \<Rightarrow> if is_put e then snd e else out)"

text \<open>
  What a version asks of the table cache: while its state is good, a lookup in a file it
  knows does not fail, and hands over nothing or the first entry at or after the target --
  and that entry for certain when it is of the user key.
\<close>

locale table_reader =
  fixes get :: "'s table_get" and good :: "'s \<Rightarrow> bool" and known :: "FileMetaData \<Rightarrow> bool"
    and content :: "FileMetaData \<Rightarrow> (bytes \<times> bytes) list"
  assumes get_law: "good s \<Longrightarrow> known f \<Longrightarrow> 8 \<le> length target \<Longrightarrow>
    \<exists>r s'. get (fm_number f) (fm_file_size f) target s = (Inr r, s') \<and> good s' \<and>
      (r = None \<or> r = first_at kInternal target (content f)) \<and>
      (\<forall>e. first_at kInternal target (content f) = Some e \<and> ukey e = extract_user_key target \<longrightarrow> r = Some e)"
begin

lemma search_known:
  assumes "good (lu_cache l)" "known f" "parses (content f)" "answer = run_answer uk snap (content f)"
  shows "\<exists>l'. search get (LookupKey_ctor uk snap) f level l = (map_option verdict answer, l') \<and> good (lu_cache l') \<and>
    lu_value l' = value_after answer (lu_value l)"
proof -
  let ?t = "make_lookup_key uk snap"
  let ?l = "(charge l)\<lparr>lu_last_file_read := Some f, lu_last_file_read_level := int level\<rparr>"
  have c: "lu_cache ?l = lu_cache l" "lu_value ?l = lu_value l" by (simp_all add: charge_def)
  have "good (lu_cache ?l)" "8 \<le> length ?t" using assms(1) c by (simp_all add: make_lookup_key_def)
  then obtain r s' where g: "get (fm_number f) (fm_file_size f) ?t (lu_cache ?l) = (Inr r, s')" "good s'"
    and r: "r = None \<or> r = first_at kInternal ?t (content f)"
    and hit: "\<forall>e. first_at kInternal ?t (content f) = Some e \<and> ukey e = extract_user_key ?t \<longrightarrow> r = Some e"
    using get_law [OF _ assms(2), of "lu_cache ?l" ?t] by blast
  let ?saver = "\<lparr>sv_state = kAbsent, sv_user_key = uk, sv_value = lu_value l\<rparr>"
  have "(case r of None \<Rightarrow> ?saver | Some kv \<Rightarrow> save_value ?saver kv) =
      (case answer of None \<Rightarrow> ?saver
       | Some e \<Rightarrow> if is_put e then ?saver\<lparr>sv_state := kFound, sv_value := snd e\<rparr> else ?saver\<lparr>sv_state := kDeleted\<rparr>)"
  proof (cases r)
    case None
    then show ?thesis using hit assms(4) by (auto simp: run_answer_def make_lookup_key_def split: option.splits)
  next
    case (Some e)
    then have fa: "first_at kInternal ?t (content f) = Some e" using r by simp
    then have "e \<in> set (content f)" by (rule first_at_in)
    then obtain q where q: "q < length (content f)" "e = content f ! q" by (auto simp: in_set_conv_nth)
    obtain key where "parse_internal_key (fst e) = Some key" "user_key key = ukey e" "key_type key = (if is_put e then kValue else kDeletion)"
      using parse_entry [OF assms(3) q(1)] unfolding q(2) by blast
    then show ?thesis using Some fa assms(4) by (auto simp: run_answer_def save_value_def)
  qed
  then show ?thesis using g c
    by (cases answer) (simp_all add: search_def Let_def verdict_def value_after_def)
qed


definition file_ready :: "FileMetaData \<Rightarrow> bool" where
  "file_ready f \<longleftrightarrow> known f \<and> file_holds content f"

lemma search_level0_answer:
  assumes "good (lu_cache l)" "\<forall>f \<in> set files. file_ready f" "inj_on fm_number (set files)"
    and "\<forall>f \<in> set files. newer_than \<le> fm_number f \<longrightarrow> run_answer uk snap (content f) = None"
  shows "\<exists>l' answer. search_level0 get (LookupKey_ctor uk snap) files newer_than l = (map_option verdict answer, l') \<and>
    good (lu_cache l') \<and> lu_value l' = value_after answer (lu_value l) \<and>
    (case answer of None \<Rightarrow> \<forall>f \<in> set files. run_answer uk snap (content f) = None
     | Some e \<Rightarrow> \<exists>f \<in> set files. run_answer uk snap (content f) = Some e \<and>
         (\<forall>g \<in> set files. fm_number f < fm_number g \<longrightarrow> run_answer uk snap (content g) = None))"
  using assms(1,4)
proof (induction "unat newer_than" arbitrary: newer_than l rule: less_induct)
  case less
  let ?key = "LookupKey_ctor uk snap"
  have skip: "run_answer uk snap (content g) = None"
    if "g \<in> set files" "newer_than \<le> fm_number g \<or> \<not> covers ?key g" for g
    using that less.prems(2) not_covered [of content g uk snap] assms(2) by (auto simp: file_ready_def)
  show ?case
  proof (cases "newest_unsearched ?key newer_than files")
    case None
    then have "run_answer uk snap (content g) = None" if "g \<in> set files" for g
      using skip [OF that] newest_unsearched_best [OF that, of newer_than ?key] by (metis not_less option.distinct(1))
    then show ?thesis using None less.prems(1)
      by (subst search_level0.simps) (auto simp: value_after_def intro!: exI [of _ None])
  next
    case (Some f)
    have f: "f \<in> set files" "fm_number f < newer_than" using newest_unsearched_Some [OF Some] by auto
    have ready: "known f" "parses (content f)" using assms(2) f(1) by (auto simp: file_ready_def file_holds_def)
    have above: "run_answer uk snap (content g) = None" if "g \<in> set files" "fm_number f < fm_number g" for g
      using skip [OF that(1)] newest_unsearched_best [OF that(1), of newer_than ?key] Some that(2)
      by (metis not_less option.inject)
    obtain l1 where l1: "search get ?key f 0 l = (map_option verdict (run_answer uk snap (content f)), l1)" "good (lu_cache l1)"
      "lu_value l1 = value_after (run_answer uk snap (content f)) (lu_value l)"
      using search_known [OF less.prems(1) ready refl] by blast
    show ?thesis
    proof (cases "run_answer uk snap (content f)")
      case (Some e)
      then have "search_level0 get ?key files newer_than l = (Some (verdict e), l1)"
        using \<open>newest_unsearched ?key newer_than files = Some f\<close> l1(1) by (subst search_level0.simps) simp
      then show ?thesis using l1 Some f(1) above by (intro exI [of _ l1] exI [of _ "Some e"]) auto
    next
      case none: None
      then have eq: "search_level0 get ?key files newer_than l = search_level0 get ?key files (fm_number f) l1"
        using Some l1(1) by (subst search_level0.simps) simp
      have "lu_value l1 = lu_value l" using l1(3) none by (simp add: value_after_def)
      moreover have "\<forall>g \<in> set files. fm_number f \<le> fm_number g \<longrightarrow> run_answer uk snap (content g) = None"
        using above none f(1) assms(3) by (metis inj_on_def order_le_less)
      ultimately show ?thesis using less.hyps [of "fm_number f" l1] f(2) l1(2) unfolding eq by (simp add: word_less_nat_alt)
    qed
  qed
qed


definition levels_answer :: "bytes \<Rightarrow> u64 \<Rightarrow> Version \<Rightarrow> nat list \<Rightarrow> (bytes \<times> bytes) option \<Rightarrow> bool" where
  "levels_answer uk snap v levels answer \<longleftrightarrow>
     (case answer of None \<Rightarrow> \<forall>level \<in> set levels. run_answer uk snap (level_run content (v_files v level)) = None
      | Some e \<Rightarrow> \<exists>level \<in> set levels. run_answer uk snap (level_run content (v_files v level)) = Some e \<and>
          (\<forall>i \<in> set levels. i < level \<longrightarrow> run_answer uk snap (level_run content (v_files v i)) = None))"

lemma levels_answer_skip:
  "levels_answer uk snap v levels answer \<Longrightarrow> run_answer uk snap (level_run content (v_files v level)) = None \<Longrightarrow>
   levels_answer uk snap v (level # levels) answer"
  by (cases answer) (auto simp: levels_answer_def)

lemma levels_answer_here:
  "run_answer uk snap (level_run content (v_files v level)) = Some e \<Longrightarrow> \<forall>i \<in> set levels. level < i \<Longrightarrow>
   levels_answer uk snap v (level # levels) (Some e)"
  by (auto simp: levels_answer_def intro!: bexI [of _ level])

lemma search_levels_answer:
  assumes "good (lu_cache l)" "\<forall>level \<in> set levels. disjoint (v_files v level) \<and> (\<forall>f \<in> set (v_files v level). file_ready f)"
    and "snap \<le> kMaxSequenceNumber" "sorted_wrt (<) levels"
  shows "\<exists>l' answer. search_levels get (LookupKey_ctor uk snap) v levels l = (map_option verdict answer, l') \<and>
    good (lu_cache l') \<and> lu_value l' = value_after answer (lu_value l) \<and> levels_answer uk snap v levels answer"
  using assms
proof (induction levels arbitrary: l)
  case Nil
  then show ?case by (auto simp: value_after_def levels_answer_def intro!: exI [of _ None])
next
  case (Cons level levels)
  let ?key = "LookupKey_ctor uk snap" and ?files = "v_files v level"
  let ?n = "find_file kInternal ?files (make_lookup_key uk snap)" and ?ans = "run_answer uk snap (level_run content ?files)"
  have fh: "disjoint ?files" "\<forall>f \<in> set ?files. file_holds content f" "\<forall>f \<in> set ?files. known f"
    using Cons.prems(2) by (auto simp: file_ready_def)
  note ans = level_answer [OF fh(1,2) Cons.prems(3) refl, of uk]
  have onward: ?case if none: "?ans = None" and eq: "search_levels get ?key v (level # levels) l = search_levels get ?key v levels l1"
    and l1: "good (lu_cache l1)" "lu_value l1 = lu_value l" for l1
  proof -
    obtain l' answer where "search_levels get ?key v levels l1 = (map_option verdict answer, l')" "good (lu_cache l')"
      "lu_value l' = value_after answer (lu_value l1)" "levels_answer uk snap v levels answer"
      using Cons.IH [OF l1(1)] Cons.prems(2-4) by auto
    then show ?thesis using levels_answer_skip [OF _ none] l1(2) unfolding eq by auto
  qed
  show ?case
  proof (cases "?n < length ?files \<and> \<not> uk < smallest_user_key (?files ! ?n)")
    case True
    have f: "known (?files ! ?n)" "parses (content (?files ! ?n))" using True fh by (auto simp: file_holds_def)
    obtain l1 where l1: "search get ?key (?files ! ?n) level l = (map_option verdict ?ans, l1)" "good (lu_cache l1)"
      "lu_value l1 = value_after ?ans (lu_value l)"
      using search_known [OF Cons.prems(1) f, of ?ans uk snap level] ans True by auto
    have step: "search_levels get ?key v (level # levels) l =
        (case search get ?key (?files ! ?n) level l of (Some s, l1) \<Rightarrow> (Some s, l1) | (None, l1) \<Rightarrow> search_levels get ?key v levels l1)"
      using True by (auto simp: Let_def order_simps)
    show ?thesis
    proof (cases ?ans)
      case None
      then show ?thesis using onward [of l1] step l1 by (simp add: value_after_def)
    next
      case (Some e)
      then show ?thesis using step l1 levels_answer_here [OF Some, of levels] Cons.prems(4)
        by (intro exI [of _ l1] exI [of _ "Some e"]) simp
    qed
  next
    case False
    then have "search_levels get ?key v (level # levels) l = search_levels get ?key v levels l"
      by (auto simp: Let_def order_simps not_less)
    then show ?thesis using onward [of l] False ans Cons.prems(1) by (auto split: if_splits)
  qed
qed

lemma Version_get_newest:
  assumes v: "version_ok content v" and kn: "\<forall>level < kNumLevels. \<forall>f \<in> set (v_files v level). known f"
    and s: "good s" "snap \<le> kMaxSequenceNumber"
  shows "\<exists>l answer. Version_get get v (LookupKey_ctor uk snap) out s =
      (case answer of None \<Rightarrow> Status kNotFound ''not present'' | Some e \<Rightarrow> verdict e, l) \<and>
    good (lu_cache l) \<and> lu_value l = value_after answer out \<and>
    (case answer of None \<Rightarrow> \<forall>e \<in> version_entries content v. \<not> visible_entry uk snap e
     | Some e \<Rightarrow> newest_entry uk snap (version_entries content v) e)"
proof -
  let ?key = "LookupKey_ctor uk snap"
  let ?l0 = "\<lparr>lu_stats = \<lparr>seek_file = None, seek_file_level = -1\<rparr>, lu_last_file_read = None,
      lu_last_file_read_level = -1, lu_value = out, lu_cache = s\<rparr>"
  have ready: "\<forall>f \<in> set (v_files v i). file_ready f" if "i < kNumLevels" for i
    using version_okD(1) [OF v _ that] kn that by (auto simp: file_ready_def)
  have lev: "0 < kNumLevels" by (simp add: kNumLevels_def)
  have "inj_on fm_number (set (v_files v 0))" "\<forall>f \<in> set (v_files v 0). - 1 \<le> fm_number f \<longrightarrow> run_answer uk snap (content f) = None"
    using v unfolding version_ok_def by (blast, meson leD)
  then obtain l1 a1 where l1: "search_level0 get ?key (v_files v 0) (- 1) ?l0 = (map_option verdict a1, l1)" "good (lu_cache l1)"
    "lu_value l1 = value_after a1 out"
    and a1: "case a1 of None \<Rightarrow> \<forall>f \<in> set (v_files v 0). run_answer uk snap (content f) = None
     | Some e \<Rightarrow> \<exists>f \<in> set (v_files v 0). run_answer uk snap (content f) = Some e \<and>
         (\<forall>g \<in> set (v_files v 0). fm_number f < fm_number g \<longrightarrow> run_answer uk snap (content g) = None)"
    using search_level0_answer [of ?l0 "v_files v 0" "- 1" uk snap] ready [OF lev] s(1) by auto
  show ?thesis
  proof (cases a1)
    case (Some e)
    then obtain f where "f \<in> set (v_files v 0)" "run_answer uk snap (content f) = Some e"
      "\<forall>g \<in> set (v_files v 0). fm_number f < fm_number g \<longrightarrow> run_answer uk snap (content g) = None" using a1 by auto
    then have "newest_entry uk snap (version_entries content v) e" by (rule newest_at_level0 [OF v s(2)])
    then show ?thesis using l1 Some by (intro exI [of _ l1] exI [of _ a1]) (simp add: Version_get_def Let_def)
  next
    case none: None
    have "\<forall>level \<in> set [1..<kNumLevels]. disjoint (v_files v level) \<and> (\<forall>f \<in> set (v_files v level). file_ready f)"
      using v ready unfolding version_ok_def by auto
    then obtain l2 a2 where l2: "search_levels get ?key v [1..<kNumLevels] l1 = (map_option verdict a2, l2)" "good (lu_cache l2)"
      "lu_value l2 = value_after a2 (lu_value l1)" "levels_answer uk snap v [1..<kNumLevels] a2"
      using search_levels_answer [OF l1(2) _ s(2), of "[1..<kNumLevels]" v uk] by auto
    have eq: "Version_get get v ?key out s = (case a2 of None \<Rightarrow> Status kNotFound ''not present'' | Some e \<Rightarrow> verdict e, l2)"
      using l1(1) l2(1) none by (cases a2) (simp_all add: Version_get_def Let_def)
    have zero: "\<forall>f \<in> set (v_files v 0). run_answer uk snap (content f) = None" using a1 none by simp
    have "case a2 of None \<Rightarrow> \<forall>e \<in> version_entries content v. \<not> visible_entry uk snap e
      | Some e \<Rightarrow> newest_entry uk snap (version_entries content v) e"
    proof (cases a2)
      case None
      have "\<not> visible_entry uk snap e" if e: "e \<in> version_entries content v" for e
      proof -
        obtain i g where g: "i < kNumLevels" "g \<in> set (v_files v i)" "e \<in> set (content g)" by (rule in_version [OF e])
        show ?thesis
        proof (cases "i = 0")
          case True
          then show ?thesis using run_answer_None [OF version_okD(2) [OF v g(2,1)] s(2) _ g(3), of uk] zero g(2) by auto
        next
          case False
          then have "run_answer uk snap (level_run content (v_files v i)) = None" using l2(4) None g(1) by (simp add: levels_answer_def)
          then show ?thesis using run_answer_None [OF version_okD(3) [OF v g(2,1)] s(2), of uk e] False g(2,3) by auto
        qed
      qed
      then show ?thesis using None by simp
    next
      case (Some e)
      obtain level where level: "level \<in> set [1..<kNumLevels]" "run_answer uk snap (level_run content (v_files v level)) = Some e"
        "\<forall>i \<in> set [1..<kNumLevels]. i < level \<longrightarrow> run_answer uk snap (level_run content (v_files v i)) = None"
        using l2(4) unfolding levels_answer_def Some option.case by blast
      have "0 < level" "level < kNumLevels" using level(1) by auto
      moreover have "run_answer uk snap (level_run content (v_files v i)) = None" if "i < level" "0 < i" for i
        using level(3) that level(1) by auto
      ultimately have "newest_entry uk snap (version_entries content v) e"
        using level(2) zero by (intro newest_at_level [OF v s(2), of level]) auto
      then show ?thesis using Some by simp
    qed
    then show ?thesis using eq l2(2,3) l1(3) none by (intro exI [of _ l2] exI [of _ a2]) (simp add: value_after_def)
  qed
qed

end

end
