(* ===== verification/Table_Cache_Props.thy ===== *)
theory Table_Cache_Props
  imports Table_Cache Version_Get
begin

text \<open>
  The table cache neither touches a deleted entry nor leaks one, whatever the order in
  which threads enter its critical sections; and a lookup through it is a lookup in the
  table that was built.
\<close>

section \<open>The invariant\<close>

text \<open>
  \<open>held a\<close> is how many users hold the entry at \<open>a\<close>; an entry counts them, and the
  cache once.  \<open>Q\<close> is what is known of a table opened under a number.
\<close>

definition refs_ok :: "(nat \<Rightarrow> Entry option) \<Rightarrow> nat set \<Rightarrow> (nat \<Rightarrow> nat) \<Rightarrow> bool" where
  "refs_ok heap C held \<longleftrightarrow>
     (\<forall>a. case heap a of None \<Rightarrow> held a = 0 \<and> a \<notin> C
          | Some e \<Rightarrow> en_refs e = int (held a) + (if a \<in> C then 1 else 0) \<and> (0 < held a \<or> a \<in> C))"

definition lists_ok :: "nat \<Rightarrow> (nat \<Rightarrow> Entry option) \<Rightarrow> u64 list \<Rightarrow> (u64 \<times> nat) list \<Rightarrow> bool" where
  "lists_ok i heap lru entries \<longleftrightarrow> distinct (map fst entries) \<and> distinct lru \<and> set lru = fst ` set entries \<and>
     (\<forall>(n, a) \<in> set entries. table_shard n = i \<and> (\<exists>e. heap a = Some e \<and> en_file_number e = n))"

definition opened_under :: "(u64 \<Rightarrow> Table \<Rightarrow> bool) \<Rightarrow> (nat \<Rightarrow> Entry option) \<Rightarrow> bool" where
  "opened_under Q heap \<longleftrightarrow> (\<forall>a e. heap a = Some e \<longrightarrow> Q (en_file_number e) (en_table e))"

definition cached :: "TableCache \<Rightarrow> nat set" where
  "cached c = (\<Union>i. snd ` set (ts_entries (tc_shards c i)))"

definition tc_inv :: "(u64 \<Rightarrow> Table \<Rightarrow> bool) \<Rightarrow> TableCache \<Rightarrow> (nat \<Rightarrow> nat) \<Rightarrow> bool" where
  "tc_inv Q c held \<longleftrightarrow>
     (\<forall>i. lists_ok i (tc_heap c) (ts_lru (tc_shards c i)) (ts_entries (tc_shards c i))) \<and>
     refs_ok (tc_heap c) (cached c) held \<and> opened_under Q (tc_heap c) \<and> (\<forall>a \<ge> tc_allocated c. tc_heap c a = None)"

lemma tc_inv_ctor: "tc_inv Q (TableCache_ctor dbname options comparator entries) (\<lambda>_. 0)"
  by (simp add: tc_inv_def TableCache_ctor_def lists_ok_def refs_ok_def opened_under_def cached_def)

lemma in_shard:
  assumes "lists_ok i heap lru entries" "(n, a) \<in> set entries"
  shows "table_shard n = i" "map_of entries n = Some a" "\<exists>e. heap a = Some e \<and> en_file_number e = n"
  using assms by (auto simp: lists_ok_def)

lemma refs_okD:
  assumes "refs_ok heap C held" "heap a = Some e"
  shows "en_refs e = int (held a) + (if a \<in> C then 1 else 0)" "0 < held a \<or> a \<in> C"
proof -
  have "case heap a of None \<Rightarrow> held a = 0 \<and> a \<notin> C
      | Some e \<Rightarrow> en_refs e = int (held a) + (if a \<in> C then 1 else 0) \<and> (0 < held a \<or> a \<in> C)"
    using assms(1) unfolding refs_ok_def by blast
  then show "en_refs e = int (held a) + (if a \<in> C then 1 else 0)" "0 < held a \<or> a \<in> C" using assms(2) by simp_all
qed

lemma refs_ok_live: "refs_ok heap C held \<Longrightarrow> 0 < held a \<or> a \<in> C \<Longrightarrow> \<exists>e. heap a = Some e"
  unfolding refs_ok_def by (metis (mono_tags, lifting) not_less_zero not_None_eq option.case(1))

lemma refs_ok_dead: "refs_ok heap C held \<Longrightarrow> heap a = None \<Longrightarrow> held a = 0 \<and> a \<notin> C"
  unfolding refs_ok_def by (metis (mono_tags, lifting) option.case(1))

section \<open>Dropping the cache's reference\<close>

text \<open>Heaps that differ only in counts, and in entries that are gone.\<close>

definition fewer :: "(nat \<Rightarrow> Entry option) \<Rightarrow> (nat \<Rightarrow> Entry option) \<Rightarrow> bool" where
  "fewer heap heap' \<longleftrightarrow>
     (\<forall>a e'. heap' a = Some e' \<longrightarrow> (\<exists>e. heap a = Some e \<and> en_table e' = en_table e \<and> en_file_number e' = en_file_number e))"

lemma fewer_refl: "fewer heap heap"
  by (simp add: fewer_def)

lemma fewer_trans: "fewer a b \<Longrightarrow> fewer b c \<Longrightarrow> fewer a c"
  unfolding fewer_def by metis

lemma fewer_opened: "fewer heap heap' \<Longrightarrow> opened_under Q heap \<Longrightarrow> opened_under Q heap'"
  unfolding fewer_def opened_under_def by metis

lemma drop_cache_ref_ok:
  assumes r: "refs_ok heap C held" and a: "a \<in> C"
  shows "\<exists>heap'. drop_cache_ref a heap = Some heap' \<and> refs_ok heap' (C - {a}) held \<and> fewer heap heap' \<and> (\<forall>b. b \<noteq> a \<longrightarrow> heap' b = heap b)"
proof -
  obtain e where e: "heap a = Some e" using refs_ok_live [OF r] a by blast
  have refs: "en_refs e = int (held a) + 1" using refs_okD(1) [OF r e] a by simp
  let ?e = "e\<lparr>en_in_cache := False, en_refs := en_refs e - 1\<rparr>"
  let ?h = "if held a = 0 then heap(a := None) else heap(a \<mapsto> ?e)"
  have "drop_cache_ref a heap = Some ?h" using e refs by (simp add: drop_cache_ref_def Let_def)
  moreover have "refs_ok ?h (C - {a}) held"
    unfolding refs_ok_def
  proof
    fix b
    show "case ?h b of None \<Rightarrow> held b = 0 \<and> b \<notin> C - {a}
      | Some e \<Rightarrow> en_refs e = int (held b) + (if b \<in> C - {a} then 1 else 0) \<and> (0 < held b \<or> b \<in> C - {a})"
      using refs refs_okD [OF r, of b] refs_ok_dead [OF r, of b] by (cases "b = a") (auto split: option.splits if_splits)
  qed
  moreover have "fewer heap ?h" using e by (auto simp: fewer_def)
  moreover have "\<forall>b. b \<noteq> a \<longrightarrow> ?h b = heap b" by simp
  ultimately show ?thesis by blast
qed

lemma lists_drop:
  assumes l: "lists_ok i heap lru entries" and n: "map_of entries n = Some a"
    and h: "\<And>b. b \<noteq> a \<Longrightarrow> heap' b = heap b" and lru': "distinct lru'" "set lru' = set lru - {n}"
    and entries': "entries' = filter (\<lambda>p. fst p \<noteq> n) entries"
  shows "lists_ok i heap' lru' entries'" "snd ` set entries' = snd ` set entries - {a}"
proof -
  have na: "(n, a) \<in> set entries" using n by (rule map_of_SomeD)
  have other: "b \<noteq> a" if "(m, b) \<in> set entries" "m \<noteq> n" for m b
    using in_shard(3) [OF l that(1)] in_shard(3) [OF l na] that(2) by auto
  have same: "m = n \<longleftrightarrow> b = a" if "(m, b) \<in> set entries" for m b
    using other [OF that] in_shard(2) [OF l that] n by auto
  show "lists_ok i heap' lru' entries'"
    using l lru' other h unfolding lists_ok_def entries' by (auto simp: distinct_map_filter)
  show "snd ` set entries' = snd ` set entries - {a}"
    using same unfolding entries' by (force simp: image_iff)
qed

section \<open>Eviction\<close>

lemma evict_over_ok:
  assumes "lists_ok i heap lru entries" "refs_ok heap (snd ` set entries \<union> D) held" "snd ` set entries \<inter> D = {}"
  shows "\<exists>lru' entries' heap'. evict_over capacity lru entries heap = Some (lru', entries', heap') \<and>
    lists_ok i heap' lru' entries' \<and> refs_ok heap' (snd ` set entries' \<union> D) held \<and> snd ` set entries' \<subseteq> snd ` set entries \<and>
    fewer heap heap' \<and> (\<forall>b \<in> D. heap' b = heap b) \<and> (length entries' \<le> capacity \<or> lru' = [])"
  using assms
proof (induction lru arbitrary: entries heap)
  case Nil
  then show ?case by (auto simp: fewer_refl)
next
  case (Cons n lru)
  show ?case
  proof (cases "length entries > capacity")
    case over: True
    have "set (n # lru) = fst ` set entries" using Cons.prems(1) unfolding lists_ok_def by blast
    then have "n \<in> fst ` set entries" by auto
    then obtain a where a: "map_of entries n = Some a" "(n, a) \<in> set entries"
      using map_of_SomeD by (metis map_of_eq_None_iff option.exhaust)
    let ?E = "filter (\<lambda>p. fst p \<noteq> n) entries"
    have aC: "a \<in> snd ` set entries" using a(2) by force
    obtain h1 where h1: "drop_cache_ref a heap = Some h1" "refs_ok h1 (snd ` set entries \<union> D - {a}) held" "fewer heap h1"
      "\<forall>b. b \<noteq> a \<longrightarrow> h1 b = heap b"
      using drop_cache_ref_ok [OF Cons.prems(2), of a] aC by blast
    have l1: "lists_ok i h1 lru ?E" "snd ` set ?E = snd ` set entries - {a}"
      using lists_drop [OF Cons.prems(1) a(1), of h1 lru ?E] h1(4) Cons.prems(1) by (auto simp: lists_ok_def)
    have "snd ` set ?E \<union> D = snd ` set entries \<union> D - {a}" using l1(2) Cons.prems(3) aC by blast
    then have r1: "refs_ok h1 (snd ` set ?E \<union> D) held" "snd ` set ?E \<inter> D = {}" using h1(2) Cons.prems(3) l1(2) by auto
    obtain lru' entries' heap' where rest: "evict_over capacity lru ?E h1 = Some (lru', entries', heap')"
      "lists_ok i heap' lru' entries'" "refs_ok heap' (snd ` set entries' \<union> D) held" "snd ` set entries' \<subseteq> snd ` set ?E"
      "fewer h1 heap'" "\<forall>b \<in> D. heap' b = h1 b" "length entries' \<le> capacity \<or> lru' = []"
      using Cons.IH [OF l1(1) r1] by blast
    have "\<forall>b \<in> D. heap' b = heap b" using rest(6) h1(4) Cons.prems(3) aC by auto
    then show ?thesis using over a(1) h1(1) rest fewer_trans [OF h1(3) rest(5)] l1(2) by auto
  next
    case False
    then show ?thesis using Cons.prems by (auto simp: fewer_refl)
  qed
qed

lemma lists_ok_rev: "lists_ok i heap (rev lru) entries \<longleftrightarrow> lists_ok i heap lru entries"
  by (simp add: lists_ok_def)

lemma lists_ok_cong:
  assumes "lists_ok i heap lru entries" "\<And>a. a \<in> snd ` set entries \<Longrightarrow> map_option en_file_number (heap' a) = map_option en_file_number (heap a)"
  shows "lists_ok i heap' lru entries"
proof -
  have "\<exists>e. heap' a = Some e \<and> en_file_number e = n" if "(n, a) \<in> set entries" for n a
    using in_shard(3) [OF assms(1) that] assms(2) [of a] that by force
  then show ?thesis using assms(1) by (auto simp: lists_ok_def)
qed

text \<open>The entries of the other shards.\<close>

definition elsewhere :: "nat \<Rightarrow> TableCache \<Rightarrow> nat set" where
  "elsewhere i c = (\<Union>j \<in> - {i}. snd ` set (ts_entries (tc_shards c j)))"

lemma cached_split: "cached c = snd ` set (ts_entries (tc_shards c i)) \<union> elsewhere i c"
  by (auto simp: cached_def elsewhere_def)

lemma elsewhere_apart:
  assumes "\<forall>i. lists_ok i heap (ts_lru (tc_shards c i)) (ts_entries (tc_shards c i))"
  shows "snd ` set (ts_entries (tc_shards c i)) \<inter> elsewhere i c = {}"
proof -
  have "False" if x: "(n, a) \<in> set (ts_entries (tc_shards c i))" and j: "j \<noteq> i" and y: "(m, a) \<in> set (ts_entries (tc_shards c j))" for n m a j
  proof -
    have "n = m" using in_shard(3) [OF assms [rule_format] x] in_shard(3) [OF assms [rule_format] y] by auto
    then show False using in_shard(1) [OF assms [rule_format] x] in_shard(1) [OF assms [rule_format] y] j by simp
  qed
  then show ?thesis by (fastforce simp: elsewhere_def)
qed

text \<open>Replacing one shard and the heap keeps the invariant when the rest is untouched.\<close>

lemma tc_inv_update:
  assumes inv: "tc_inv Q c held0" and l: "lists_ok i heap lru entries" and r: "refs_ok heap (snd ` set entries \<union> elsewhere i c) held"
    and h: "\<And>b. b \<in> elsewhere i c \<Longrightarrow> map_option en_file_number (heap b) = map_option en_file_number (tc_heap c b)"
    and o: "opened_under Q heap" and al: "\<forall>a \<ge> tc_allocated c'. heap a = None"
    and c': "tc_shards c' = (tc_shards c)(i := \<lparr>ts_lru = lru, ts_entries = entries\<rparr>)" "tc_heap c' = heap"
  shows "tc_inv Q c' held"
proof -
  have "lists_ok j heap (ts_lru (tc_shards c j)) (ts_entries (tc_shards c j))" if "j \<noteq> i" for j
    by (rule lists_ok_cong [of j "tc_heap c"]) (use inv that h in \<open>auto simp: tc_inv_def elsewhere_def\<close>)
  then have "\<forall>j. lists_ok j heap (ts_lru (tc_shards c' j)) (ts_entries (tc_shards c' j))" using l by (simp add: c')
  moreover have "elsewhere i c' = elsewhere i c" unfolding elsewhere_def c' by (intro SUP_cong) auto
  then have "cached c' = snd ` set entries \<union> elsewhere i c" by (simp add: cached_split [of c' i] c')
  ultimately show ?thesis using r o al by (simp add: tc_inv_def c')
qed

lemma evict_ok:
  assumes inv: "tc_inv Q c held"
  shows "\<exists>c'. evict_if_over_capacity i c = Some c' \<and> tc_inv Q c' held \<and> fewer (tc_heap c) (tc_heap c') \<and>
    (tc_dbname c', tc_options c', tc_comparator c', tc_opens c', tc_lookups c') =
    (tc_dbname c, tc_options c, tc_comparator c, tc_opens c, tc_lookups c)"
proof -
  let ?s = "tc_shards c i"
  have lists: "\<forall>i. lists_ok i (tc_heap c) (ts_lru (tc_shards c i)) (ts_entries (tc_shards c i))" using inv by (simp add: tc_inv_def)
  have refs: "refs_ok (tc_heap c) (snd ` set (ts_entries ?s) \<union> elsewhere i c) held"
    using inv by (simp add: tc_inv_def cached_split [of c i])
  obtain lru' entries' heap' where ev: "evict_over (tc_capacity c) (rev (ts_lru ?s)) (ts_entries ?s) (tc_heap c) = Some (lru', entries', heap')"
    "lists_ok i heap' lru' entries'" "refs_ok heap' (snd ` set entries' \<union> elsewhere i c) held" "fewer (tc_heap c) heap'"
    "\<forall>b \<in> elsewhere i c. heap' b = tc_heap c b"
    using evict_over_ok [of i "tc_heap c" "rev (ts_lru ?s)" "ts_entries ?s" "elsewhere i c" held "tc_capacity c"] lists refs
      elsewhere_apart [OF lists] by (auto simp: lists_ok_rev)
  let ?c = "c\<lparr>tc_shards := (tc_shards c)(i := \<lparr>ts_lru = rev lru', ts_entries = entries'\<rparr>), tc_heap := heap'\<rparr>"
  have "heap' a = None" if "a \<ge> tc_allocated c" for a
    using ev(4) inv that unfolding fewer_def tc_inv_def by (metis not_None_eq)
  then have "tc_inv Q ?c held"
    using ev inv by (intro tc_inv_update [OF inv, of i heap' "rev lru'" entries'])
      (auto simp: lists_ok_rev tc_inv_def intro: fewer_opened)
  then show ?thesis using ev(1,4) by (simp add: evict_if_over_capacity_def)
qed

section \<open>Taking and giving back\<close>

abbreviation setup_of :: "TableCache \<Rightarrow> string \<times> Options \<times> Comparator" where
  "setup_of c \<equiv> (tc_dbname c, tc_options c, tc_comparator c)"

lemma refs_ok_take:
  assumes r: "refs_ok heap C held" and e: "heap a = Some e"
  shows "refs_ok (heap(a \<mapsto> e\<lparr>en_refs := en_refs e + 1\<rparr>)) C (held(a := held a + 1))"
  unfolding refs_ok_def
proof
  fix b
  show "case (heap(a \<mapsto> e\<lparr>en_refs := en_refs e + 1\<rparr>)) b of None \<Rightarrow> (held(a := held a + 1)) b = 0 \<and> b \<notin> C
    | Some x \<Rightarrow> en_refs x = int ((held(a := held a + 1)) b) + (if b \<in> C then 1 else 0) \<and> (0 < (held(a := held a + 1)) b \<or> b \<in> C)"
    using refs_okD(1) [OF r e] refs_okD [OF r, of b] refs_ok_dead [OF r, of b] by (cases "b = a") (auto split: option.splits)
qed

lemma opened_under_upd: "opened_under Q heap \<Longrightarrow> Q (en_file_number e) (en_table e) \<Longrightarrow> opened_under Q (heap(a \<mapsto> e))"
  by (simp add: opened_under_def)

lemma shard_lru_upd: "s\<lparr>ts_lru := l\<rparr> = \<lparr>ts_lru = l, ts_entries = ts_entries s\<rparr>"
  by (cases s) simp

lemma take_ref_ok:
  assumes inv: "tc_inv Q c held" and n: "map_of (ts_entries (tc_shards c (table_shard n))) n = Some a"
  shows "\<exists>c' e. take_ref n a c = Some c' \<and> tc_inv Q c' (held(a := held a + 1)) \<and> tc_heap c' a = Some e \<and> en_file_number e = n \<and>
    setup_of c' = setup_of c"
proof -
  let ?i = "table_shard n"
  let ?s = "tc_shards c ?i"
  have l: "lists_ok ?i (tc_heap c) (ts_lru ?s) (ts_entries ?s)" using inv by (simp add: tc_inv_def)
  obtain e where e: "tc_heap c a = Some e" "en_file_number e = n" using in_shard(3) [OF l map_of_SomeD [OF n]] by blast
  let ?e = "e\<lparr>en_refs := en_refs e + 1\<rparr>" and ?lru = "n # remove1 n (ts_lru ?s)"
  let ?h = "(tc_heap c)(a \<mapsto> ?e)"
  have num: "map_option en_file_number (?h b) = map_option en_file_number (tc_heap c b)" for b using e by simp
  have "n \<in> set (ts_lru ?s)" using l map_of_SomeD [OF n] by (force simp: lists_ok_def)
  then have "lists_ok ?i (tc_heap c) ?lru (ts_entries ?s)" using l by (auto simp: lists_ok_def)
  then have l': "lists_ok ?i ?h ?lru (ts_entries ?s)" by (rule lists_ok_cong) (rule num)
  have r: "refs_ok ?h (snd ` set (ts_entries ?s) \<union> elsewhere ?i c) (held(a := held a + 1))"
    using refs_ok_take [of "tc_heap c" "snd ` set (ts_entries ?s) \<union> elsewhere ?i c" held a e] inv e(1)
    by (simp add: tc_inv_def cached_split [of c ?i])
  have o: "opened_under Q ?h" using inv e by (intro opened_under_upd) (auto simp: tc_inv_def opened_under_def)
  have al: "\<forall>b \<ge> tc_allocated c. ?h b = None" using inv e(1) by (auto simp: tc_inv_def)
  let ?c = "c\<lparr>tc_shards := (tc_shards c)(?i := ?s\<lparr>ts_lru := ?lru\<rparr>), tc_heap := ?h\<rparr>"
  have "tc_inv Q ?c (held(a := held a + 1))"
    by (rule tc_inv_update [OF inv l' r num o]) (use al in \<open>simp_all add: shard_lru_upd\<close>)
  then show ?thesis using e by (simp add: take_ref_def Let_def)
qed

lemma release_ok:
  assumes inv: "tc_inv Q c held" and a: "0 < held a"
  shows "\<exists>c'. tc_release a c = Some c' \<and> tc_inv Q c' (held(a := held a - 1)) \<and> setup_of c' = setup_of c"
proof -
  have r: "refs_ok (tc_heap c) (cached c) held" using inv by (simp add: tc_inv_def)
  obtain e where e: "tc_heap c a = Some e" using refs_ok_live [OF r] a by blast
  let ?h = "(tc_heap c)(a := if en_refs e - 1 = 0 then None else Some (e\<lparr>en_refs := en_refs e - 1\<rparr>))"
  have re: "en_refs e = int (held a) + (if a \<in> cached c then 1 else 0)" using refs_okD(1) [OF r e] .
  have r': "refs_ok ?h (cached c) (held(a := held a - 1))"
    unfolding refs_ok_def
  proof
    fix b
    show "case ?h b of None \<Rightarrow> (held(a := held a - 1)) b = 0 \<and> b \<notin> cached c
      | Some x \<Rightarrow> en_refs x = int ((held(a := held a - 1)) b) + (if b \<in> cached c then 1 else 0) \<and> (0 < (held(a := held a - 1)) b \<or> b \<in> cached c)"
      using re a refs_okD [OF r, of b] refs_ok_dead [OF r, of b] by (cases "b = a") (auto split: option.splits if_splits)
  qed
  have stay: "a \<in> cached c \<Longrightarrow> en_refs e - 1 \<noteq> 0" using re a by auto
  have "lists_ok i ?h (ts_lru (tc_shards c i)) (ts_entries (tc_shards c i))" for i
  proof (rule lists_ok_cong [of i "tc_heap c"])
    show "lists_ok i (tc_heap c) (ts_lru (tc_shards c i)) (ts_entries (tc_shards c i))" using inv by (simp add: tc_inv_def)
    show "map_option en_file_number (?h b) = map_option en_file_number (tc_heap c b)" if "b \<in> snd ` set (ts_entries (tc_shards c i))" for b
    proof -
      have "b \<in> cached c" using that by (auto simp: cached_def)
      then show ?thesis using stay e by (cases "b = a") auto
    qed
  qed
  moreover have "opened_under Q ?h" using inv e by (auto simp: tc_inv_def opened_under_def)
  ultimately have "tc_inv Q (c\<lparr>tc_heap := ?h\<rparr>) (held(a := held a - 1))"
    using r' inv e by (auto simp: tc_inv_def cached_def)
  then show ?thesis using e by (simp add: tc_release_def)
qed

lemma tc_evict_ok:
  assumes inv: "tc_inv Q c held"
  shows "\<exists>c'. tc_evict n c = Some c' \<and> tc_inv Q c' held \<and> n \<notin> fst ` set (ts_entries (tc_shards c' (table_shard n))) \<and> setup_of c' = setup_of c"
proof (cases "map_of (ts_entries (tc_shards c (table_shard n))) n")
  case None
  then have "tc_evict n c = Some c" by (simp add: tc_evict_def Let_def)
  then show ?thesis using inv None by (simp add: map_of_eq_None_iff)
next
  case (Some a)
  let ?i = "table_shard n"
  let ?s = "tc_shards c ?i"
  let ?E = "filter (\<lambda>p. fst p \<noteq> n) (ts_entries ?s)" and ?lru = "remove1 n (ts_lru ?s)"
  have lists: "\<forall>i. lists_ok i (tc_heap c) (ts_lru (tc_shards c i)) (ts_entries (tc_shards c i))" using inv by (simp add: tc_inv_def)
  have aC: "a \<in> snd ` set (ts_entries ?s)" using map_of_SomeD [OF Some] by force
  have r: "refs_ok (tc_heap c) (cached c) held" using inv by (simp add: tc_inv_def)
  obtain h where h: "drop_cache_ref a (tc_heap c) = Some h" "refs_ok h (cached c - {a}) held" "fewer (tc_heap c) h"
    "\<forall>b. b \<noteq> a \<longrightarrow> h b = tc_heap c b"
    using drop_cache_ref_ok [OF r, of a] aC by (auto simp: cached_def)
  have lru: "distinct ?lru" "set ?lru = set (ts_lru ?s) - {n}" using lists by (auto simp: lists_ok_def)
  have l: "lists_ok ?i h ?lru ?E" "snd ` set ?E = snd ` set (ts_entries ?s) - {a}"
    using lists_drop [OF lists [rule_format] Some _ lru refl] h(4) by auto
  have apart: "a \<notin> elsewhere ?i c" using elsewhere_apart [OF lists, of ?i] aC by blast
  then have "cached c - {a} = snd ` set ?E \<union> elsewhere ?i c" unfolding cached_split [of c ?i] l(2) by blast
  then have r': "refs_ok h (snd ` set ?E \<union> elsewhere ?i c) held" using h(2) by simp
  have al: "\<forall>b \<ge> tc_allocated c. h b = None" using h(3) inv unfolding fewer_def tc_inv_def by (metis not_None_eq)
  let ?c = "c\<lparr>tc_shards := (tc_shards c)(?i := \<lparr>ts_lru = ?lru, ts_entries = ?E\<rparr>), tc_heap := h\<rparr>"
  have "tc_inv Q ?c held"
  proof (rule tc_inv_update [OF inv l(1) r'])
    show "opened_under Q h" using fewer_opened [OF h(3)] inv by (simp add: tc_inv_def)
    show "map_option en_file_number (h b) = map_option en_file_number (tc_heap c b)" if "b \<in> elsewhere ?i c" for b
      using that apart h(4) by (cases "b = a") auto
  qed (use al in simp_all)
  then show ?thesis using Some h(1) by (auto simp: tc_evict_def Let_def)
qed

lemma install_ok:
  assumes inv: "tc_inv Q c held" and q: "Q n t"
  shows "\<exists>a c' e. install n f t c = Some (a, c') \<and> tc_inv Q c' (held(a := held a + 1)) \<and> tc_heap c' a = Some e \<and> en_file_number e = n \<and>
    setup_of c' = setup_of c"
proof (cases "map_of (ts_entries (tc_shards c (table_shard n))) n")
  case (Some a)
  then show ?thesis using take_ref_ok [OF inv Some] by (auto simp: install_def Let_def)
next
  case None
  let ?i = "table_shard n" and ?a = "tc_allocated c"
  let ?s = "tc_shards c ?i" and ?e = "\<lparr>en_file = f, en_table = t, en_file_number = n, en_refs = 2, en_in_cache = True\<rparr>"
  let ?h = "(tc_heap c)(?a \<mapsto> ?e)" and ?held = "held(?a := held ?a + 1)"
  have lists: "\<forall>i. lists_ok i (tc_heap c) (ts_lru (tc_shards c i)) (ts_entries (tc_shards c i))" using inv by (simp add: tc_inv_def)
  have r: "refs_ok (tc_heap c) (cached c) held" using inv by (simp add: tc_inv_def)
  have fresh: "tc_heap c ?a = None" using inv by (simp add: tc_inv_def)
  have dead: "held ?a = 0" "?a \<notin> cached c" using refs_ok_dead [OF r fresh] by auto
  have new: "n \<notin> fst ` set (ts_entries ?s)" using None by (simp add: map_of_eq_None_iff)
  have out: "b \<noteq> ?a" if "b \<in> snd ` set (ts_entries (tc_shards c j))" for b j using dead(2) that unfolding cached_def by blast
  have "lists_ok ?i ?h (ts_lru ?s) (ts_entries ?s)"
    by (rule lists_ok_cong [OF lists [rule_format]]) (use out in simp)
  then have l: "lists_ok ?i ?h (n # ts_lru ?s) ((n, ?a) # ts_entries ?s)" using new by (auto simp: lists_ok_def)
  have r': "refs_ok ?h (snd ` set ((n, ?a) # ts_entries ?s) \<union> elsewhere ?i c) ?held"
    unfolding refs_ok_def
  proof
    fix b
    have "b \<in> snd ` set ((n, ?a) # ts_entries ?s) \<union> elsewhere ?i c \<longleftrightarrow> b = ?a \<or> b \<in> cached c" by (simp add: cached_split [of c ?i])
    then show "case ?h b of None \<Rightarrow> ?held b = 0 \<and> b \<notin> snd ` set ((n, ?a) # ts_entries ?s) \<union> elsewhere ?i c
      | Some x \<Rightarrow> en_refs x = int (?held b) + (if b \<in> snd ` set ((n, ?a) # ts_entries ?s) \<union> elsewhere ?i c then 1 else 0) \<and>
          (0 < ?held b \<or> b \<in> snd ` set ((n, ?a) # ts_entries ?s) \<union> elsewhere ?i c)"
      using dead refs_okD [OF r, of b] refs_ok_dead [OF r, of b] by (cases "b = ?a") (auto split: option.splits)
  qed
  let ?c1 = "c\<lparr>tc_shards := (tc_shards c)(?i := \<lparr>ts_lru = n # ts_lru ?s, ts_entries = (n, ?a) # ts_entries ?s\<rparr>),
      tc_heap := ?h, tc_allocated := ?a + 1\<rparr>"
  have inv1: "tc_inv Q ?c1 ?held"
  proof (rule tc_inv_update [OF inv l r'])
    show "opened_under Q ?h" using inv q by (intro opened_under_upd) (auto simp: tc_inv_def)
    show "map_option en_file_number (?h b) = map_option en_file_number (tc_heap c b)" if "b \<in> elsewhere ?i c" for b
      using that dead(2) by (auto simp: cached_split [of c ?i])
    show "\<forall>a \<ge> tc_allocated ?c1. ?h a = None" using inv by (auto simp: tc_inv_def)
  qed simp_all
  obtain c2 where c2: "evict_if_over_capacity ?i ?c1 = Some c2" "tc_inv Q c2 ?held" "fewer (tc_heap ?c1) (tc_heap c2)"
    "setup_of c2 = setup_of c"
    using evict_ok [OF inv1, of ?i] by auto
  have "refs_ok (tc_heap c2) (cached c2) ?held" using c2(2) by (simp add: tc_inv_def)
  then obtain e where e: "tc_heap c2 ?a = Some e" using refs_ok_live [of _ _ ?held ?a] by auto
  then obtain e0 where "tc_heap ?c1 ?a = Some e0" "en_file_number e = en_file_number e0" using c2(3) unfolding fewer_def by blast
  then have "en_file_number e = n" by auto
  then show ?thesis using c2 e None by (simp add: install_def Let_def)
qed

section \<open>Threads\<close>

text \<open>
  Any interleaving of the critical sections.  A table is installed by whoever opened it,
  at any later time; a reference is given back by whoever holds it.
\<close>

definition table_of :: "TableEnv \<Rightarrow> string \<times> Options \<times> Comparator \<Rightarrow> u64 \<Rightarrow> Table \<Rightarrow> bool" where
  "table_of env conf n t \<longleftrightarrow>
     (case conf of (dbname, options, comparator) \<Rightarrow>
        \<exists>f sz cache_id. open_random_access (table_file_name dbname n) (te_disk env (table_file_name dbname n)) = Inr f \<and>
          Table_open (te_nul env) options comparator f sz cache_id = Inr t)"

inductive tc_reach :: "TableEnv \<Rightarrow> string \<Rightarrow> Options \<Rightarrow> Comparator \<Rightarrow> int \<Rightarrow> TableCache \<Rightarrow> (nat \<Rightarrow> nat) \<Rightarrow> bool"
  for env dbname options comparator entries where
  Start: "tc_reach env dbname options comparator entries (TableCache_ctor dbname options comparator entries) (\<lambda>_. 0)"
| Hit: "tc_reach env dbname options comparator entries c held \<Longrightarrow> find_cached n c = Some (Some a, c') \<Longrightarrow>
    tc_reach env dbname options comparator entries c' (held(a := held a + 1))"
| Open: "tc_reach env dbname options comparator entries c held \<Longrightarrow> open_table env n sz c = (r, c') \<Longrightarrow>
    tc_reach env dbname options comparator entries c' held"
| Install: "tc_reach env dbname options comparator entries c held \<Longrightarrow> table_of env (dbname, options, comparator) n t \<Longrightarrow>
    install n f t c = Some (a, c') \<Longrightarrow> tc_reach env dbname options comparator entries c' (held(a := held a + 1))"
| Read: "tc_reach env dbname options comparator entries c held \<Longrightarrow> 0 < held a \<Longrightarrow>
    read_entry env fill_cache a key c = Some (r, c') \<Longrightarrow> tc_reach env dbname options comparator entries c' held"
| Release: "tc_reach env dbname options comparator entries c held \<Longrightarrow> 0 < held a \<Longrightarrow> tc_release a c = Some c' \<Longrightarrow>
    tc_reach env dbname options comparator entries c' (held(a := held a - 1))"
| Evict: "tc_reach env dbname options comparator entries c held \<Longrightarrow> tc_evict n c = Some c' \<Longrightarrow>
    tc_reach env dbname options comparator entries c' held"

lemma find_cached_ok:
  assumes "tc_inv Q c held"
  shows "find_cached n c = Some (None, c) \<or>
    (\<exists>a c' e. find_cached n c = Some (Some a, c') \<and> tc_inv Q c' (held(a := held a + 1)) \<and> tc_heap c' a = Some e \<and> en_file_number e = n \<and>
       setup_of c' = setup_of c)"
proof (cases "map_of (ts_entries (tc_shards c (table_shard n))) n")
  case (Some a)
  then show ?thesis using take_ref_ok [OF assms Some] by (auto simp: find_cached_def)
qed (simp add: find_cached_def)

lemma tc_inv_counters:
  assumes "tc_inv Q c held" "tc_shards c' = tc_shards c" "tc_heap c' = tc_heap c" "tc_allocated c' = tc_allocated c"
  shows "tc_inv Q c' held"
  using assms by (simp add: tc_inv_def cached_def)

lemma open_table_ok:
  assumes "tc_inv Q c held" "open_table env n sz c = (r, c')"
  shows "tc_inv Q c' held" "setup_of c' = setup_of c" "r = Inr (f, t) \<Longrightarrow> table_of env (setup_of c) n t"
proof -
  show "tc_inv Q c' held" using assms(2)
    by (auto simp: open_table_def Let_def split: sum.splits intro: tc_inv_counters [OF assms(1)])
  show "setup_of c' = setup_of c" "r = Inr (f, t) \<Longrightarrow> table_of env (setup_of c) n t"
    using assms(2) by (auto simp: open_table_def Let_def table_of_def split: sum.splits)
qed

lemma read_entry_ok:
  assumes "tc_inv Q c held" "0 < held a"
  shows "\<exists>r c' e. tc_heap c a = Some e \<and> Q (en_file_number e) (en_table e) \<and> read_entry env fill_cache a key c = Some (r, c') \<and>
    r = fst (internal_get (te_block_bytes env) (en_table e) fill_cache (te_blocks env (tc_lookups c) (en_file_number e)) key) \<and>
    tc_inv Q c' held \<and> setup_of c' = setup_of c"
proof -
  obtain e where e: "tc_heap c a = Some e" using assms refs_ok_live [of "tc_heap c" "cached c" held a] by (auto simp: tc_inv_def)
  moreover have "Q (en_file_number e) (en_table e)" using assms(1) e by (simp add: tc_inv_def opened_under_def)
  ultimately show ?thesis
    by (auto simp: read_entry_def split: prod.splits intro!: tc_inv_counters [OF assms(1)])
qed

lemma tc_reach_inv:
  assumes "tc_reach env dbname options comparator entries c held"
  shows "tc_inv (table_of env (dbname, options, comparator)) c held \<and> setup_of c = (dbname, options, comparator)"
  using assms
proof induction
  case Start
  then show ?case using tc_inv_ctor by (simp add: TableCache_ctor_def)
next
  case (Hit c held n a c')
  have inv: "tc_inv (table_of env (dbname, options, comparator)) c held" and su: "setup_of c = (dbname, options, comparator)"
    using Hit.IH by blast+
  show ?case using find_cached_ok [OF inv, of n] unfolding Hit.hyps(2) su by fastforce
next
  case (Open c held n sz r c')
  have inv: "tc_inv (table_of env (dbname, options, comparator)) c held" and su: "setup_of c = (dbname, options, comparator)"
    using Open.IH by blast+
  show ?case using open_table_ok(1,2) [OF inv Open.hyps(2)] unfolding su by blast
next
  case (Install c held n t f a c')
  have inv: "tc_inv (table_of env (dbname, options, comparator)) c held" and su: "setup_of c = (dbname, options, comparator)"
    using Install.IH by blast+
  show ?case using install_ok [OF inv Install.hyps(2), of f] unfolding Install.hyps(3) su by fastforce
next
  case (Read c held a fill_cache key r c')
  have inv: "tc_inv (table_of env (dbname, options, comparator)) c held" and su: "setup_of c = (dbname, options, comparator)"
    using Read.IH by blast+
  show ?case using read_entry_ok [OF inv Read.hyps(2), of env fill_cache key] unfolding Read.hyps(3) su by fastforce
next
  case (Release c held a c')
  have inv: "tc_inv (table_of env (dbname, options, comparator)) c held" and su: "setup_of c = (dbname, options, comparator)"
    using Release.IH by blast+
  show ?case using release_ok [OF inv Release.hyps(2)] unfolding Release.hyps(3) su by fastforce
next
  case (Evict c held n c')
  have inv: "tc_inv (table_of env (dbname, options, comparator)) c held" and su: "setup_of c = (dbname, options, comparator)"
    using Evict.IH by blast+
  show ?case using tc_evict_ok [OF inv, of n] unfolding Evict.hyps(2) su by fastforce
qed

section \<open>Lookups\<close>

text \<open>
  The file under a number is the table built from the entries \<open>C\<close> gives for the number,
  and what the block cache remembers of a file is what the file holds.
\<close>

definition options_ok :: "Options \<Rightarrow> bool" where
  "options_ok opts \<longleftrightarrow> 1 \<le> opt_block_restart_interval opts \<and>
     (opt_filter_policy opts = None \<or>
      (\<exists>bits. 0 \<le> bits \<and> bits < 2 ^ 31 \<and> opt_filter_policy opts = Some (new_internal_filter_policy (new_bloom_filter_policy bits))))"

definition built_from :: "Options \<Rightarrow> (bytes \<times> bytes) list \<Rightarrow> bytes \<Rightarrow> bool" where
  "built_from opts kvs contents \<longleftrightarrow> ordered kInternal kvs \<and> kv_bytes kvs + 8 < 2 ^ 32 \<and> length contents < 2 ^ 32 \<and>
     (\<exists>out s tb. wf_data out = [] \<and> tb_finish (tb_adds (TableBuilder_ctor opts out kInternal) kvs) = (s, tb) \<and> is_ok s \<and>
        contents = wf_data (tb_file tb))"

definition on_disk :: "TableEnv \<Rightarrow> string \<Rightarrow> Options \<Rightarrow> (u64 \<Rightarrow> (bytes \<times> bytes) list) \<Rightarrow> FileMetaData \<Rightarrow> bool" where
  "on_disk env dbname opts C f \<longleftrightarrow>
     (\<exists>contents os. te_disk env (table_file_name dbname (fm_number f)) = Inr (contents, os) \<and> (\<forall>offset n. os offset n = None) \<and>
        fm_file_size f = word_of_nat (length contents) \<and> built_from opts (C (fm_number f)) contents)"

definition blocks_agree :: "TableEnv \<Rightarrow> string \<times> Options \<times> Comparator \<Rightarrow> bool" where
  "blocks_agree env conf \<longleftrightarrow>
     (\<forall>k n t lookup. te_blocks env k n = Some lookup \<and> table_of env conf n t \<longrightarrow> coherent t lookup)"

text \<open>
  A state the cache can be in while no call is under way: \<open>held\<close> counts the references that
  iterators and other threads keep.
\<close>

definition tc_good :: "TableEnv \<Rightarrow> string \<Rightarrow> Options \<Rightarrow> (u64 \<Rightarrow> (bytes \<times> bytes) list) \<Rightarrow> (nat \<Rightarrow> nat) \<Rightarrow> TableCache option \<Rightarrow> bool" where
  "tc_good env dbname opts C held s \<longleftrightarrow> options_ok opts \<and> blocks_agree env (dbname, opts, kInternal) \<and>
     (\<exists>c. s = Some c \<and> setup_of c = (dbname, opts, kInternal) \<and>
        tc_inv (\<lambda>n t. table_of env (dbname, opts, kInternal) n t \<and>
          (\<forall>f. on_disk env dbname opts C f \<and> fm_number f = n \<longrightarrow> (\<exists>bs. opened opts kInternal bs t \<and> C n = concat (map db_kvs bs)))) c held)"

lemma open_known:
  assumes "on_disk env dbname opts C f" "options_ok opts" "setup_of c = (dbname, opts, kInternal)"
  shows "\<exists>rf t c' bs. open_table env (fm_number f) (fm_file_size f) c = (Inr (rf, t), c') \<and> opened opts kInternal bs t \<and>
    C (fm_number f) = concat (map db_kvs bs)"
proof -
  obtain contents os out s tb where d: "te_disk env (table_file_name dbname (fm_number f)) = Inr (contents, os)" "\<forall>offset n. os offset n = None"
    "fm_file_size f = word_of_nat (length contents)"
    and kv: "kv_bytes (C (fm_number f)) + 8 < 2 ^ 32" "length contents < 2 ^ 32"
    and b: "wf_data out = []" "tb_finish (tb_adds (TableBuilder_ctor opts out kInternal) (C (fm_number f))) = (s, tb)" "is_ok s"
      "contents = wf_data (tb_file tb)"
    using assms(1) unfolding on_disk_def built_from_def by blast
  let ?f = "\<lparr>rf_path = table_file_name dbname (fm_number f), rf_data = contents, rf_os = os\<rparr>"
  have "1 \<le> opt_block_restart_interval opts" "rf_data ?f = wf_data (tb_file tb)" "reads_ok ?f" "length (rf_data ?f) < 2 ^ 32"
    using assms(2) b(4) d(2) kv(2) by (simp_all add: options_ok_def reads_ok_def)
  then obtain bs t where "C (fm_number f) = concat (map db_kvs bs)" "opened opts kInternal bs t"
    "Table_open (te_nul env) opts kInternal ?f (word_of_nat (length (rf_data ?f))) (te_ids env (tc_opens c)) = Inr t"
    using built_opened [OF _ kv(1) b(1-3), of ?f "te_nul env" "te_ids env (tc_opens c)"] by blast
  then show ?thesis using d assms(3) by (auto simp: open_table_def open_random_access_def)
qed

lemma tc_find_known:
  assumes inv: "tc_inv Q c held" and o: "open_table env n sz c = (Inr (rf, t), c1)" and q: "Q n t"
  shows "\<exists>a c' e. tc_find env n sz c = Some (Inr a, c') \<and> tc_inv Q c' (held(a := held a + 1)) \<and> tc_heap c' a = Some e \<and>
    en_file_number e = n \<and> setup_of c' = setup_of c"
proof -
  have c1: "tc_inv Q c1 held" "setup_of c1 = setup_of c" using open_table_ok(1,2) [OF inv o] by auto
  from find_cached_ok [OF inv, of n] show ?thesis
  proof
    assume "find_cached n c = Some (None, c)"
    then show ?thesis using install_ok [OF c1(1) q, of rf] o c1(2) by (auto simp: tc_find_def)
  qed (auto simp: tc_find_def)
qed

lemma tc_get_known:
  assumes g: "tc_good env dbname opts C held s" and f: "on_disk env dbname opts C f" and t8: "8 \<le> length target"
  shows "\<exists>r s'. table_get_of env fill (fm_number f) (fm_file_size f) target s = (Inr r, s') \<and> tc_good env dbname opts C held s' \<and>
    (r = None \<or> r = first_at kInternal target (C (fm_number f))) \<and>
    (\<forall>e. first_at kInternal target (C (fm_number f)) = Some e \<and> ukey e = extract_user_key target \<longrightarrow> r = Some e)"
proof -
  let ?conf = "(dbname, opts, kInternal)" and ?n = "fm_number f"
  let ?Q = "\<lambda>n t. table_of env ?conf n t \<and>
      (\<forall>f. on_disk env dbname opts C f \<and> fm_number f = n \<longrightarrow> (\<exists>bs. opened opts kInternal bs t \<and> C n = concat (map db_kvs bs)))"
  obtain c where c: "s = Some c" "setup_of c = ?conf" "tc_inv ?Q c held" and ok: "options_ok opts" and ag: "blocks_agree env ?conf"
    using g unfolding tc_good_def by blast
  obtain rf t c1 bs1 where o: "open_table env ?n (fm_file_size f) c = (Inr (rf, t), c1)" "opened opts kInternal bs1 t"
    "C ?n = concat (map db_kvs bs1)"
    using open_known [OF f ok c(2)] by blast
  have "?Q ?n t" using open_table_ok(3) [OF c(3) o(1) refl] c(2) o(2,3) by auto
  then obtain a c2 e where c2: "tc_find env ?n (fm_file_size f) c = Some (Inr a, c2)" "tc_inv ?Q c2 (held(a := held a + 1))"
    "tc_heap c2 a = Some e" "en_file_number e = ?n" "setup_of c2 = setup_of c"
    using tc_find_known [OF c(3) o(1)] by blast
  obtain r c3 where c3: "?Q ?n (en_table e)" "read_entry env fill a target c2 = Some (r, c3)"
    "r = fst (internal_get (te_block_bytes env) (en_table e) fill (te_blocks env (tc_lookups c2) ?n) target)"
    "tc_inv ?Q c3 (held(a := held a + 1))" "setup_of c3 = setup_of c2"
    using read_entry_ok [OF c2(2), of a env fill target] c2(3,4) by auto
  obtain c4 where c4: "tc_release a c3 = Some c4" "tc_inv ?Q c4 held" "setup_of c4 = setup_of c3"
    using release_ok [OF c3(4), of a] by auto
  have good: "tc_good env dbname opts C held (Some c4)"
    using c4(2,3) c3(5) c2(5) c(2) ok ag unfolding tc_good_def by auto
  obtain bs where bs: "opened opts kInternal bs (en_table e)" "C ?n = concat (map db_kvs bs)" using c3(1) f by blast
  have coh: "coherent (en_table e) lookup" if "te_blocks env (tc_lookups c2) ?n = Some lookup" for lookup
    using ag c3(1) that unfolding blocks_agree_def by blast
  have pol: "filter_policy p (\<lambda>k k'. filter_key k = filter_key k')" if "opt_filter_policy opts = Some p" for p
    using ok that internal_bloom_policy by (auto simp: options_ok_def)
  have "ordered kInternal (C ?n)" using f by (auto simp: on_disk_def built_from_def)
  then obtain r' ins where r': "internal_get (te_block_bytes env) (en_table e) fill (te_blocks env (tc_lookups c2) ?n) target = (Inr r', ins)"
    "r' = None \<or> r' = first_at kInternal target (C ?n)"
    "\<forall>k v. first_at kInternal target (C ?n) = Some (k, v) \<and> filter_key k = filter_key target \<longrightarrow> r' = Some (k, v)"
    using ikt.internal_get_opened [where cache = "te_blocks env (tc_lookups c2) ?n" and target = target and fill = fill
        and block_bytes = "te_block_bytes env", OF bs(1) _ bs(2) _ pol coh] t8 by auto
  have hit: "r' = Some x" if x: "first_at kInternal target (C ?n) = Some x" "ukey x = extract_user_key target" for x
  proof -
    have "8 \<le> length (fst x)"
      using first_at_in [OF x(1)] \<open>ordered kInternal (C ?n)\<close> by (auto simp: ordered_def)
    then have "filter_key (fst x) = filter_key target" using x(2) t8 by (simp add: filter_key_def ukey_def)
    then show ?thesis using r'(3) x(1) by (metis prod.collapse)
  qed
  have "table_get_of env fill ?n (fm_file_size f) target s = (Inr r', Some c4)"
    using c(1) c2(1) c3(2,3) c4(1) r'(1) by (simp add: table_get_of_def tc_get_def)
  then show ?thesis using good r'(2) hit by blast
qed

interpretation tc: table_reader "table_get_of env fill" "tc_good env dbname opts C held" "on_disk env dbname opts C"
  "\<lambda>f. C (fm_number f)" for env fill dbname opts C held
  by unfold_locales (rule tc_get_known)

section \<open>Properties\<close>

text \<open>
  C18. The table cache is memory-safe under any interleaving of its critical sections.  In
  every state that threads can reach by finding, opening, installing, reading, releasing
  and evicting tables in any order, no call touches a deleted entry; whoever holds a
  reference finds an entry, whose table was opened from the file of its number; and an
  entry that is neither in the cache nor held has been deleted.
\<close>

theorem table_cache_safe:
  assumes "tc_reach env dbname options comparator entries c held"
  shows "find_cached n c \<noteq> None \<and> tc_evict n c \<noteq> None \<and>
    (table_of env (dbname, options, comparator) n t \<longrightarrow> install n f t c \<noteq> None) \<and>
    (0 < held a \<longrightarrow> tc_release a c \<noteq> None \<and> read_entry env fill_cache a key c \<noteq> None \<and>
       (\<exists>e. tc_heap c a = Some e \<and> table_of env (dbname, options, comparator) (en_file_number e) (en_table e))) \<and>
    (tc_heap c a \<noteq> None \<longrightarrow> 0 < held a \<or> a \<in> cached c)"
proof -
  have inv: "tc_inv (table_of env (dbname, options, comparator)) c held" using tc_reach_inv [OF assms] by blast
  have "refs_ok (tc_heap c) (cached c) held" using inv by (simp add: tc_inv_def)
  then have "tc_heap c a \<noteq> None \<longrightarrow> 0 < held a \<or> a \<in> cached c" using refs_okD(2) by blast
  moreover have "table_of env (dbname, options, comparator) n t \<longrightarrow> install n f t c \<noteq> None"
    using install_ok [OF inv] by fastforce
  moreover have "find_cached n c \<noteq> None" using find_cached_ok [OF inv, of n] by force
  moreover have "tc_evict n c \<noteq> None" using tc_evict_ok [OF inv, of n] by force
  moreover have "tc_release a c \<noteq> None" if "0 < held a" using release_ok [OF inv that] by force
  moreover have "\<exists>r c' e. tc_heap c a = Some e \<and> table_of env (dbname, options, comparator) (en_file_number e) (en_table e) \<and>
      read_entry env fill_cache a key c = Some (r, c')" if "0 < held a"
    using read_entry_ok [OF inv that] by blast
  ultimately show ?thesis by blast
qed

text \<open>A disk on which every table file is the same table, and no block cache.\<close>

definition sample_env :: TableEnv where
  "sample_env = \<lparr>te_disk = \<lambda>_. Inr (wf_data (tb_file (snd sample_finish)), \<lambda>_ _. None), te_blocks = \<lambda>_ _. None,
     te_ids = \<lambda>_. 0, te_nul = 0, te_block_bytes = 0\<rparr>"

definition sample_meta :: FileMetaData where
  "sample_meta = new_meta 5 (word_of_nat (length (wf_data (tb_file (snd sample_finish)))))
     (fst (hd sample_kvs)) (fst (last sample_kvs))"

definition sample_version :: Version where
  "sample_version = Version_ctor\<lparr>v_files := \<lambda>level. if level = 1 then [sample_meta] else []\<rparr>"

lemma sample_parses: "parses sample_kvs"
proof -
  have "ordered kInternal sample_kvs" "\<forall>e \<in> set sample_kvs. parse_internal_key (fst e) \<noteq> None" by code_simp+
  then show ?thesis unfolding parses_def by blast
qed

lemma sample_version_ok: "version_ok (\<lambda>_. sample_kvs) sample_version"
proof -
  have "file_holds (\<lambda>_. sample_kvs) sample_meta"
    using sample_parses by (simp add: file_holds_def sample_meta_def new_meta_def sample_kvs_def)
  moreover from this have "disjoint [sample_meta]" using file_holds_ok(1) by (simp add: disjoint_def)
  ultimately show ?thesis by (auto simp: version_ok_def sample_version_def Version_ctor_def disjoint_Nil)
qed

lemma sample_on_disk: "on_disk sample_env dbname sample_options (\<lambda>_. sample_kvs) sample_meta"
proof -
  have "ordered kInternal sample_kvs" by code_simp
  then have "built_from sample_options sample_kvs (wf_data (tb_file (snd sample_finish)))"
    using sample_built unfolding built_from_def
    by (intro conjI exI [of _ "open_writable [] (\<lambda>_. None)"] exI [of _ "fst sample_finish"] exI [of _ "snd sample_finish"])
      (auto simp: kv_bytes_def sample_kvs_def open_writable_def sample_finish_def)
  then show ?thesis by (simp add: on_disk_def sample_env_def sample_meta_def new_meta_def)
qed

lemma sample_options_ok: "options_ok sample_options"
  by (auto simp: options_ok_def sample_options_def)

theorem table_cache_safe_witness:
  "\<exists>a c c'. tc_reach sample_env ''db'' sample_options kInternal 100 c ((\<lambda>_. 0)(a := 1)) \<and>
     5 \<notin> fst ` set (ts_entries (tc_shards c (table_shard 5))) \<and> read_entry sample_env True a [97, 100] c \<noteq> None \<and>
     tc_release a c = Some c' \<and> (tc_heap c' a \<noteq> None \<longrightarrow> a \<in> cached c')"
proof -
  let ?c0 = "TableCache_ctor ''db'' sample_options kInternal 100" and ?conf = "(''db'', sample_options, kInternal)"
  let ?Q = "table_of sample_env ?conf" and ?reach = "tc_reach sample_env ''db'' sample_options kInternal 100"
  have conf: "setup_of ?c0 = ?conf" by (simp add: TableCache_ctor_def)
  have five: "fm_number sample_meta = 5" by (simp add: sample_meta_def new_meta_def)
  obtain rf t c1 where o: "open_table sample_env 5 (fm_file_size sample_meta) ?c0 = (Inr (rf, t), c1)"
    using open_known [OF sample_on_disk sample_options_ok conf] unfolding five by blast
  have q: "?Q 5 t" using open_table_ok(3) [OF tc_inv_ctor o refl] unfolding conf .
  have r1: "?reach c1 (\<lambda>_. 0)" by (rule Open [OF Start o])
  then have i1: "tc_inv ?Q c1 (\<lambda>_. 0)" using tc_reach_inv by blast
  obtain a c2 where c2: "install 5 rf t c1 = Some (a, c2)" "tc_inv ?Q c2 ((\<lambda>_. 0)(a := 0 + 1))"
    using install_ok [OF i1 q] by blast
  obtain c3 where c3: "tc_evict 5 c2 = Some c3" "5 \<notin> fst ` set (ts_entries (tc_shards c3 (table_shard 5)))"
    using tc_evict_ok [OF c2(2), of 5] by blast
  have r3: "?reach c3 ((\<lambda>_. 0)(a := 0 + 1))" by (rule Evict [OF Install [OF r1 q c2(1)] c3(1)])
  note safe = table_cache_safe [OF r3, of 5 t rf a True "[97, 100]"]
  obtain c4 where c4: "tc_release a c3 = Some c4" "read_entry sample_env True a [97, 100] c3 \<noteq> None" using safe by auto
  have "?reach c4 (((\<lambda>_. 0)(a := 0 + 1))(a := ((\<lambda>_. 0)(a := 0 + 1)) a - 1))" by (rule Release [OF r3 _ c4(1)]) simp
  from table_cache_safe [OF this, of 5 t rf a True "[97, 100]"] have "tc_heap c4 a \<noteq> None \<longrightarrow> a \<in> cached c4" by simp
  then show ?thesis using r3 c3(2) c4 by auto
qed

text \<open>
  C1. A lookup in a version returns the newest visible entry.  If the files of the version
  are intact tables on the disk, the levels have the shape the engine keeps, and the table
  cache is in any state it can be in between calls, with any references held by iterators
  and other threads, then the lookup returns without an error: it answers with the value of
  an entry of the user key that is visible in the snapshot and at least as new as every
  other such entry of any file of any level, with not-found if that entry is a tombstone,
  and with not-found if there is none.  The cache is left in such a state again, with the
  same references held.  Each table file, and the entries it was built from, take less than
  4 GiB, and the snapshot is not above the largest sequence number.
\<close>

theorem version_get_newest:
  assumes "version_ok (\<lambda>f. C (fm_number f)) v" "\<forall>level < kNumLevels. \<forall>f \<in> set (v_files v level). on_disk env dbname opts C f"
    and "tc_good env dbname opts C held s" "snap \<le> kMaxSequenceNumber"
  shows "\<exists>status l. Version_get (table_get_of env fill) v (LookupKey_ctor uk snap) out s = (status, l) \<and>
    tc_good env dbname opts C held (lu_cache l) \<and>
    ((\<exists>e. newest_entry uk snap (version_entries (\<lambda>f. C (fm_number f)) v) e \<and>
        (if is_put e then status = status_ok \<and> lu_value l = snd e else status = Status kNotFound ''deleted'')) \<or>
     (\<forall>e \<in> version_entries (\<lambda>f. C (fm_number f)) v. \<not> visible_entry uk snap e) \<and> status = Status kNotFound ''not present'')"
proof -
  let ?E = "version_entries (\<lambda>f. C (fm_number f)) v"
  obtain l answer where get: "Version_get (table_get_of env fill) v (LookupKey_ctor uk snap) out s =
      (case answer of None \<Rightarrow> Status kNotFound ''not present'' | Some e \<Rightarrow> verdict e, l)"
    and l: "tc_good env dbname opts C held (lu_cache l)" "lu_value l = value_after answer out"
    and ans: "case answer of None \<Rightarrow> \<forall>e \<in> ?E. \<not> visible_entry uk snap e | Some e \<Rightarrow> newest_entry uk snap ?E e"
    using tc.Version_get_newest [OF assms, of fill uk out] by blast
  show ?thesis
  proof (cases answer)
    case None
    then show ?thesis using get l(1) ans by auto
  next
    case (Some e)
    then have "(if is_put e then verdict e = status_ok \<and> lu_value l = snd e else verdict e = Status kNotFound ''deleted'')"
      using l(2) by (simp add: verdict_def value_after_def)
    moreover have "newest_entry uk snap ?E e" using ans Some by simp
    ultimately show ?thesis using get l(1) unfolding Some option.case by blast
  qed
qed

theorem version_get_newest_witness:
  "\<exists>l. Version_get (table_get_of sample_env True) sample_version (LookupKey_ctor [97, 100] 9) []
     (Some (TableCache_ctor ''db'' sample_options kInternal 100)) = (status_ok, l) \<and> lu_value l = [2]"
proof -
  let ?C = "\<lambda>_ :: u64. sample_kvs" and ?s = "Some (TableCache_ctor ''db'' sample_options kInternal 100)"
  have files: "\<forall>level < kNumLevels. \<forall>f \<in> set (v_files sample_version level). on_disk sample_env ''db'' sample_options ?C f"
    using sample_on_disk by (simp add: sample_version_def Version_ctor_def)
  have "setup_of (TableCache_ctor ''db'' sample_options kInternal 100) = (''db'', sample_options, kInternal)"
    by (simp add: TableCache_ctor_def)
  then have good: "tc_good sample_env ''db'' sample_options ?C (\<lambda>_. 0) ?s"
    using tc_inv_ctor unfolding tc_good_def
    by (auto simp: sample_options_ok blocks_agree_def sample_env_def)
  have snap: "(9 :: u64) \<le> kMaxSequenceNumber" by (simp add: kMaxSequenceNumber_def)
  have E: "version_entries (\<lambda>f. ?C (fm_number f)) sample_version = set sample_kvs"
    by (auto simp: version_entries_def sample_version_def Version_ctor_def kNumLevels_def)
  let ?e = "([97, 100, 1, 4, 0, 0, 0, 0, 0, 0], [2]) :: bytes \<times> bytes"
  have vis: "visible_entry [97, 100] 9 ?e" "is_put ?e" "ukey ([97, 98, 98, 1, 5, 0, 0, 0, 0, 0, 0] :: bytes, [1 :: byte]) \<noteq> [97, 100]"
    by code_simp+
  then have only: "e = ?e" if "newest_entry [97, 100] 9 (set sample_kvs) e" for e
    using that by (auto simp: newest_entry_def visible_entry_def sample_kvs_def)
  have "?e \<in> set sample_kvs" by (simp add: sample_kvs_def)
  then have some: "\<not> (\<forall>e \<in> set sample_kvs. \<not> visible_entry [97, 100] 9 e)" using vis(1) by blast
  obtain status l where get: "Version_get (table_get_of sample_env True) sample_version (LookupKey_ctor [97, 100] 9) [] ?s = (status, l)"
    and r: "\<exists>e. newest_entry [97, 100] 9 (set sample_kvs) e \<and>
        (if is_put e then status = status_ok \<and> lu_value l = snd e else status = Status kNotFound ''deleted'')"
    using version_get_newest [OF sample_version_ok files good snap, of True "[97, 100]" "[]"] some unfolding E by blast
  then have "status = status_ok \<and> lu_value l = [2]" using only vis(2) by (metis snd_conv)
  then show ?thesis using get by simp
qed

end
