(* ===== verification/Version_Builder.thy ===== *)
theory Version_Builder
  imports Version "HOL-Library.Log_Nat"
begin

text \<open>
  VersionSet::Builder and VersionSet::finalize of src/version_set.cpp: the version that
  edits make of another one, and which of its levels most needs compacting.
\<close>

section \<open>Builder\<close>

definition by_smallest :: "FileMetaData \<Rightarrow> FileMetaData \<Rightarrow> bool" where
  "by_smallest a b \<longleftrightarrow>
     (let r = cmp_compare kInternal (fm_smallest a) (fm_smallest b) in
      if r \<noteq> 0 then r < 0 else fm_number a < fm_number b)"

text \<open>A std::set ordered by that: the ascending list of its elements.\<close>

fun file_set_insert :: "FileMetaData \<Rightarrow> FileMetaData list \<Rightarrow> FileMetaData list" where
  "file_set_insert f [] = [f]"
| "file_set_insert f (g # gs) =
     (if by_smallest f g then f # g # gs
      else if by_smallest g f then g # file_set_insert f gs
      else g # gs)"

record LevelState =
  lv_deleted :: "u64 set"
  lv_added :: "FileMetaData list"

record Builder =
  bd_base :: Version
  bd_levels :: "nat \<Rightarrow> LevelState"

definition Builder_ctor :: "Version \<Rightarrow> Builder" where
  "Builder_ctor base = \<lparr>bd_base = base, bd_levels = \<lambda>_. \<lparr>lv_deleted = {}, lv_added = []\<rparr>\<rparr>"

definition on_level :: "nat \<Rightarrow> (LevelState \<Rightarrow> LevelState) \<Rightarrow> Builder \<Rightarrow> Builder" where
  "on_level level f b = b\<lparr>bd_levels := (bd_levels b)(level := f (bd_levels b level))\<rparr>"

definition seeks_allowed :: "u64 \<Rightarrow> int" where
  "seeks_allowed file_size =
     (let n = sint (ucast (file_size div 16384) :: u32) in if n < 100 then 100 else n)"

definition delete_file :: "Builder \<Rightarrow> nat \<times> u64 \<Rightarrow> Builder" where
  "delete_file b d = (case d of (level, number) \<Rightarrow> on_level level (\<lambda>s. s\<lparr>lv_deleted := insert number (lv_deleted s)\<rparr>) b)"

definition add_new_file :: "Builder \<Rightarrow> nat \<times> FileMetaData \<Rightarrow> Builder" where
  "add_new_file b n =
     (case n of (level, meta) \<Rightarrow>
        let f = meta\<lparr>fm_allowed_seeks := seeks_allowed (fm_file_size meta)\<rparr> in
        on_level level (\<lambda>s. s\<lparr>lv_deleted := lv_deleted s - {fm_number f}, lv_added := file_set_insert f (lv_added s)\<rparr>) b)"

text \<open>The compaction pointers are the set's own.\<close>

definition apply_pointers :: "VersionEdit \<Rightarrow> (nat \<Rightarrow> bytes) \<Rightarrow> nat \<Rightarrow> bytes" where
  "apply_pointers edit pointers = foldl (\<lambda>p x. p(fst x := snd x)) pointers (ve_compact_pointers edit)"

definition Builder_apply :: "VersionEdit \<Rightarrow> Builder \<Rightarrow> Builder" where
  "Builder_apply edit b = foldl add_new_file (foldl delete_file b (ve_deleted_files edit)) (ve_new_files edit)"

definition maybe_add_file :: "u64 set \<Rightarrow> FileMetaData list \<Rightarrow> FileMetaData \<Rightarrow> FileMetaData list" where
  "maybe_add_file deleted files file = (if fm_number file \<in> deleted then files else files @ [file])"

text \<open>std::upper_bound: where the first file stands that the added one comes before.\<close>

definition upper_bound :: "FileMetaData \<Rightarrow> FileMetaData list \<Rightarrow> nat" where
  "upper_bound f base = length (takeWhile (\<lambda>g. \<not> by_smallest f g) base)"

fun merge_level :: "u64 set \<Rightarrow> FileMetaData list \<Rightarrow> FileMetaData list \<Rightarrow> FileMetaData list \<Rightarrow> FileMetaData list" where
  "merge_level deleted out base [] = foldl (maybe_add_file deleted) out base"
| "merge_level deleted out base (f # added) =
     (let n = upper_bound f base;
          out1 = foldl (maybe_add_file deleted) out (take n base)
      in merge_level deleted (maybe_add_file deleted out1 f) (drop n base) added)"

definition save_to :: "Builder \<Rightarrow> Version \<Rightarrow> Version" where
  "save_to b v =
     v\<lparr>v_files := \<lambda>level.
         if level < kNumLevels
         then merge_level (lv_deleted (bd_levels b level)) (v_files v level) (v_files (bd_base b) level)
                (lv_added (bd_levels b level))
         else v_files v level\<rparr>"

section \<open>Scores\<close>

text \<open>
  A double is the rational it stands for.  The result of an operation is rounded to the
  nearest number of 53 significant bits, to the even one of two; no value here is near
  the ends of the range of exponents.
\<close>

definition round_even :: "rat \<Rightarrow> int" where
  "round_even x =
     (let n = \<lfloor>x\<rfloor>; d = x - of_int n in
      if d < 1 / 2 \<or> d = 1 / 2 \<and> even n then n else n + 1)"

definition binary_exponent :: "int \<Rightarrow> int \<Rightarrow> int" where
  "binary_exponent a b =
     (let k = int (floorlog 2 (nat a)) - int (floorlog 2 (nat b)) in
      if of_int a / of_int b \<ge> (2 :: rat) powi k then k else k - 1)"

definition double_quotient :: "int \<Rightarrow> int \<Rightarrow> rat" where
  "double_quotient a b =
     (if a = 0 then 0
      else let u = 2 powi (binary_exponent \<bar>a\<bar> b - 52) in
           of_int (sgn a) * of_int (round_even (of_int \<bar>a\<bar> / of_int b / u)) * u)"

definition max_bytes_for_level :: "nat \<Rightarrow> int" where
  "max_bytes_for_level level = 10 * 1048576 * 10 ^ (level - 1)"

definition level_score :: "Version \<Rightarrow> nat \<Rightarrow> rat" where
  "level_score v level =
     (if level = 0 then double_quotient (int (length (v_files v 0))) (int kL0CompactionTrigger)
      else double_quotient \<lfloor>double_quotient (total_file_size (v_files v level)) 1\<rfloor> (max_bytes_for_level level))"

definition best_of :: "Version \<Rightarrow> rat \<times> int \<Rightarrow> nat \<Rightarrow> rat \<times> int" where
  "best_of v best level =
     (let score = level_score v level in if score > fst best then (score, int level) else best)"

definition finalize :: "Version \<Rightarrow> Version" where
  "finalize v =
     (let best = foldl (best_of v) (-1, -1) [0..<kNumLevels - 1] in
      v\<lparr>v_compaction_level := snd best, v_compaction_score := fst best\<rparr>)"

end
