(* ===== verification/Version_Builder_Props.thy ===== *)
theory Version_Builder_Props
  imports Version_Builder Version_Get
begin

text \<open>
  What a builder makes of a version: the files that are left, in order.  Replaying a
  history of edits at once gives the version that making them one at a time gave.
\<close>

section \<open>The order of files\<close>

lemma by_smallest_irrefl [simp]: "\<not> by_smallest a a"
  by (simp add: by_smallest_def Let_def cik_less)

lemma by_smallest_iff:
  "by_smallest a b \<longleftrightarrow> smallest_user_key a < smallest_user_key b \<or>
     smallest_user_key a = smallest_user_key b \<and> (trailer (fm_smallest b) < trailer (fm_smallest a) \<or>
       trailer (fm_smallest a) = trailer (fm_smallest b) \<and> fm_number a < fm_number b)"
proof -
  have eq: "compare_internal_keys (fm_smallest a) (fm_smallest b) = 0 \<longleftrightarrow>
      smallest_user_key a = smallest_user_key b \<and> trailer (fm_smallest a) = trailer (fm_smallest b)"
    using cik_less [of "fm_smallest a" "fm_smallest b"] cik_less [of "fm_smallest b" "fm_smallest a"] cik_greater [of "fm_smallest a" "fm_smallest b"]
    by (metis linorder_neqE order_less_irrefl)
  show ?thesis unfolding by_smallest_def Let_def by (simp only: order_fields eq cik_less) auto
qed

definition order_key :: "FileMetaData \<Rightarrow> bytes \<times> int \<times> u64" where
  "order_key f = (smallest_user_key f, - uint (trailer (fm_smallest f)), fm_number f)"

lemma by_smallest_key: "by_smallest a b \<longleftrightarrow> order_key a < order_key b"
  unfolding by_smallest_iff order_key_def less_prod_def by (auto simp: word_less_def word_uint_eq_iff)

lemma by_smallest_trans: "by_smallest a b \<Longrightarrow> by_smallest b c \<Longrightarrow> by_smallest a c"
  unfolding by_smallest_key by (rule less_trans)

lemma by_smallest_total: "fm_number a \<noteq> fm_number b \<Longrightarrow> by_smallest a b \<or> by_smallest b a"
  unfolding by_smallest_key neq_iff [symmetric] by (auto simp: order_key_def)

lemma sorted_wrt_unique:
  assumes "\<And>x. \<not> P x x" "\<And>x y z. P x y \<Longrightarrow> P y z \<Longrightarrow> P x z"
  shows "sorted_wrt P xs \<Longrightarrow> sorted_wrt P ys \<Longrightarrow> set xs = set ys \<Longrightarrow> xs = ys"
proof (induction xs arbitrary: ys)
  case (Cons x xs)
  then obtain y ys' where ys: "ys = y # ys'" by (cases ys) auto
  have "x = y" using Cons.prems assms unfolding ys by (metis insert_iff list.simps(15) sorted_wrt.simps(2))
  moreover have "set xs = set ys'"
  proof -
    have "y \<notin> set xs" "y \<notin> set ys'" using Cons.prems assms(1) unfolding ys \<open>x = y\<close> by auto
    then show ?thesis using Cons.prems(3) unfolding ys \<open>x = y\<close> by (simp add: insert_eq_iff)
  qed
  ultimately show ?case using Cons unfolding ys by simp
qed simp

abbreviation in_order :: "FileMetaData list \<Rightarrow> bool" where
  "in_order \<equiv> sorted_wrt by_smallest"

lemma in_order_unique: "in_order xs \<Longrightarrow> in_order ys \<Longrightarrow> set xs = set ys \<Longrightarrow> xs = ys"
  by (rule sorted_wrt_unique [of by_smallest]) (auto intro: by_smallest_trans)

section \<open>Adding and merging\<close>

lemma file_set_insert_set:
  assumes "in_order fs" "fm_number f \<notin> fm_number ` set fs"
  shows "in_order (file_set_insert f fs)" "set (file_set_insert f fs) = insert f (set fs)"
proof -
  have "set (file_set_insert f fs) \<subseteq> insert f (set fs)" for fs by (induction fs) auto
  then have sub: "\<And>fs x. x \<in> set (file_set_insert f fs) \<Longrightarrow> x = f \<or> x \<in> set fs" by blast
  show "in_order (file_set_insert f fs)"
    using assms by (induction fs) (auto dest!: sub intro: by_smallest_trans)
  show "set (file_set_insert f fs) = insert f (set fs)"
    using assms(2) by (induction fs) (use by_smallest_total in auto)
qed

lemma maybe_add_files: "foldl (maybe_add_file D) out fs = out @ filter (\<lambda>f. fm_number f \<notin> D) fs"
  by (induction fs arbitrary: out) (auto simp: maybe_add_file_def)

text \<open>Without the deletions, a merge.\<close>

fun merge_files :: "FileMetaData list \<Rightarrow> FileMetaData list \<Rightarrow> FileMetaData list" where
  "merge_files base [] = base"
| "merge_files base (f # added) = take (upper_bound f base) base @ f # merge_files (drop (upper_bound f base) base) added"

lemma merge_level_filter:
  "merge_level D out base added = out @ filter (\<lambda>f. fm_number f \<notin> D) (merge_files base added)"
  by (induction added arbitrary: out base) (auto simp: maybe_add_files maybe_add_file_def [of D] Let_def)

lemma set_merge_files: "set (merge_files base added) = set base \<union> set added"
proof (induction added arbitrary: base)
  case (Cons f added)
  have "set base = set (take (upper_bound f base) base) \<union> set (drop (upper_bound f base) base)"
    by (metis append_take_drop_id set_append)
  then show ?case using Cons by auto
qed simp

lemma upper_bound_split:
  assumes "in_order base" "\<And>g. g \<in> set base \<Longrightarrow> fm_number f \<noteq> fm_number g"
  shows "\<forall>g \<in> set (take (upper_bound f base) base). by_smallest g f" "\<forall>g \<in> set (drop (upper_bound f base) base). by_smallest f g"
proof -
  let ?P = "\<lambda>g. \<not> by_smallest f g"
  have tk: "take (upper_bound f base) base = takeWhile ?P base" by (simp add: upper_bound_def takeWhile_eq_take [symmetric])
  have dr: "drop (upper_bound f base) base = dropWhile ?P base" by (simp add: upper_bound_def dropWhile_eq_drop [symmetric])
  show "\<forall>g \<in> set (take (upper_bound f base) base). by_smallest g f"
  proof
    fix g assume "g \<in> set (take (upper_bound f base) base)"
    then have "g \<in> set base" "\<not> by_smallest f g" unfolding tk by (auto dest: set_takeWhileD)
    then show "by_smallest g f" using by_smallest_total [OF assms(2)] by blast
  qed
  show "\<forall>g \<in> set (drop (upper_bound f base) base). by_smallest f g"
    unfolding dr using assms(1)
  proof (induction base)
    case (Cons g base)
    show ?case
    proof (cases "by_smallest f g")
      case True
      then have "by_smallest f h" if "h \<in> set base" for h
        using that Cons.prems by_smallest_trans [OF True, of h] by simp
      then show ?thesis using True by simp
    next
      case False
      have "in_order base" using Cons.prems by simp
      then show ?thesis unfolding dropWhile.simps(2) if_P [OF False] by (rule Cons.IH)
    qed
  qed simp
qed

lemma in_order_merge_files:
  assumes "in_order base" "in_order added" "fm_number ` set base \<inter> fm_number ` set added = {}"
  shows "in_order (merge_files base added)"
  using assms
proof (induction added arbitrary: base)
  case (Cons f added)
  let ?t = "take (upper_bound f base) base" and ?d = "drop (upper_bound f base) base"
  have "fm_number f \<noteq> fm_number g" if "g \<in> set base" for g using Cons.prems(3) imageI [OF that, of fm_number] by auto
  note sp = upper_bound_split [OF Cons.prems(1) this]
  have "in_order (?t @ ?d)" using Cons.prems(1) by simp
  then have td: "in_order ?t" "in_order ?d" "\<And>x y. x \<in> set ?t \<Longrightarrow> y \<in> set ?d \<Longrightarrow> by_smallest x y"
    unfolding sorted_wrt_append by blast+
  have fa: "in_order added" "\<And>y. y \<in> set added \<Longrightarrow> by_smallest f y" using Cons.prems(2) by auto
  have "fm_number ` set ?d \<inter> fm_number ` set added = {}"
    using Cons.prems(3) set_drop_subset [of "upper_bound f base" base] by auto
  then have m: "in_order (merge_files ?d added)" by (rule Cons.IH [OF td(2) fa(1)])
  have "by_smallest f y" if "y \<in> set (merge_files ?d added)" for y
    using that sp(2) fa(2) unfolding set_merge_files by blast
  moreover have "by_smallest x y" if "x \<in> set ?t" "y \<in> set (f # merge_files ?d added)" for x y
    using that(2) sp(1) by_smallest_trans [of x f y] calculation that(1) by auto
  ultimately show ?case using m td(1) by (simp only: merge_files.simps sorted_wrt_append sorted_wrt.simps) blast
qed simp

section \<open>What a builder holds\<close>

definition seeks_reset :: "FileMetaData \<Rightarrow> FileMetaData" where
  "seeks_reset f = f\<lparr>fm_allowed_seeks := seeks_allowed (fm_file_size f)\<rparr>"

definition new_at :: "VersionEdit \<Rightarrow> nat \<Rightarrow> FileMetaData list" where
  "new_at e level = map snd (filter (\<lambda>n. fst n = level) (ve_new_files e))"

definition deleted_at :: "VersionEdit \<Rightarrow> nat \<Rightarrow> u64 set" where
  "deleted_at e level = {n. (level, n) \<in> set (ve_deleted_files e)}"

text \<open>What an edit means for the files of a level.\<close>

definition level_after :: "nat \<Rightarrow> VersionEdit \<Rightarrow> FileMetaData set \<Rightarrow> FileMetaData set" where
  "level_after level e F = {f \<in> F. fm_number f \<notin> deleted_at e level} \<union> seeks_reset ` set (new_at e level)"

definition bd_known :: "Builder \<Rightarrow> nat \<Rightarrow> FileMetaData set" where
  "bd_known b level = set (v_files (bd_base b) level) \<union> set (lv_added (bd_levels b level))"

definition bd_files :: "Builder \<Rightarrow> nat \<Rightarrow> FileMetaData set" where
  "bd_files b level = {f \<in> bd_known b level. fm_number f \<notin> lv_deleted (bd_levels b level)}"

definition bd_ok :: "Builder \<Rightarrow> nat \<Rightarrow> bool" where
  "bd_ok b level \<longleftrightarrow> in_order (v_files (bd_base b) level) \<and> in_order (lv_added (bd_levels b level)) \<and>
     fm_number ` set (v_files (bd_base b) level) \<inter> fm_number ` set (lv_added (bd_levels b level)) = {}"

text \<open>No file number is used twice in a level.\<close>

definition fresh_at :: "nat \<Rightarrow> u64 set \<Rightarrow> VersionEdit \<Rightarrow> bool" where
  "fresh_at level N e \<longleftrightarrow> distinct (map fm_number (new_at e level)) \<and> N \<inter> fm_number ` set (new_at e level) = {}"

lemma seeks_reset_simps [simp]:
  "fm_number (seeks_reset f) = fm_number f" "fm_smallest (seeks_reset f) = fm_smallest f"
  "fm_largest (seeks_reset f) = fm_largest f" "fm_file_size (seeks_reset f) = fm_file_size f"
  "seeks_reset (seeks_reset f) = seeks_reset f"
  by (simp_all add: seeks_reset_def)

lemma by_smallest_reset [simp]: "by_smallest (seeks_reset a) (seeks_reset b) = by_smallest a b"
  by (simp add: by_smallest_def)

lemma delete_files_levels:
  "lv_deleted (bd_levels (foldl delete_file b ds) level) = lv_deleted (bd_levels b level) \<union> {n. (level, n) \<in> set ds}"
  "lv_added (bd_levels (foldl delete_file b ds) level) = lv_added (bd_levels b level)"
  "bd_base (foldl delete_file b ds) = bd_base b"
  by (induction ds arbitrary: b) (auto simp: delete_file_def on_level_def split: prod.splits)

lemma add_files:
  assumes "bd_ok b level" "distinct (map fm_number (map snd (filter (\<lambda>n. fst n = level) ns)))"
    "fm_number ` bd_known b level \<inter> fm_number ` snd ` {n \<in> set ns. fst n = level} = {}"
  shows "bd_ok (foldl add_new_file b ns) level \<and>
    bd_base (foldl add_new_file b ns) = bd_base b \<and>
    set (lv_added (bd_levels (foldl add_new_file b ns) level)) =
      set (lv_added (bd_levels b level)) \<union> seeks_reset ` snd ` {n \<in> set ns. fst n = level} \<and>
    lv_deleted (bd_levels (foldl add_new_file b ns) level) =
      lv_deleted (bd_levels b level) - fm_number ` snd ` {n \<in> set ns. fst n = level}"
  using assms
proof (induction ns arbitrary: b)
  case (Cons n ns)
  obtain l m where n: "n = (l, m)" by (cases n)
  let ?b = "add_new_file b n"
  have b: "?b = on_level l (\<lambda>s. s\<lparr>lv_deleted := lv_deleted s - {fm_number m}, lv_added := file_set_insert (seeks_reset m) (lv_added s)\<rparr>) b"
    by (simp add: add_new_file_def n seeks_reset_def)
  show ?case
  proof (cases "l = level")
    case False
    then have same: "bd_levels ?b level = bd_levels b level" "bd_base ?b = bd_base b" by (simp_all add: b on_level_def)
    then have "bd_ok ?b level" "bd_known ?b level = bd_known b level" using Cons.prems(1) by (simp_all add: bd_ok_def bd_known_def)
    moreover have "{x \<in> set (n # ns). fst x = level} = {x \<in> set ns. fst x = level}" using False n by auto
    ultimately show ?thesis using Cons.IH [of ?b] Cons.prems False same by (simp add: n)
  next
    case True
    have at: "{x \<in> set (n # ns). fst x = level} = insert n {x \<in> set ns. fst x = level}" using True n by auto
    have at': "fm_number ` snd ` {x \<in> set (n # ns). fst x = level} = insert (fm_number m) (fm_number ` snd ` {x \<in> set ns. fst x = level})"
      unfolding at by (simp add: n)
    have fresh: "fm_number m \<notin> fm_number ` bd_known b level" using Cons.prems(3) unfolding at' by blast
    then have "fm_number (seeks_reset m) \<notin> fm_number ` set (lv_added (bd_levels b level))" by (auto simp: bd_known_def)
    note ins = file_set_insert_set [OF _ this]
    have ord: "in_order (lv_added (bd_levels b level))" using Cons.prems(1) by (simp add: bd_ok_def)
    have eqs: "lv_added (bd_levels ?b level) = file_set_insert (seeks_reset m) (lv_added (bd_levels b level))"
      "lv_deleted (bd_levels ?b level) = lv_deleted (bd_levels b level) - {fm_number m}" "bd_base ?b = bd_base b"
      by (simp_all add: b on_level_def True)
    have ok: "bd_ok ?b level" using Cons.prems(1) fresh ins [OF ord] by (auto simp: bd_ok_def eqs bd_known_def)
    have kn: "bd_known ?b level = insert (seeks_reset m) (bd_known b level)" by (auto simp: bd_known_def eqs ins [OF ord])
    have "fm_number m \<notin> fm_number ` snd ` {x \<in> set ns. fst x = level}" using Cons.prems(2) by (force simp: n True)
    then have "fm_number ` bd_known ?b level \<inter> fm_number ` snd ` {x \<in> set ns. fst x = level} = {}"
      using Cons.prems(3) unfolding at' kn by auto
    from Cons.IH [OF ok _ this] show ?thesis using Cons.prems(2) unfolding at' unfolding at eqs ins [OF ord] foldl_Cons
      by (auto simp: n True)
  qed
qed simp

lemma Builder_apply_base: "bd_base (Builder_apply e b) = bd_base b"
proof -
  have "bd_base (foldl add_new_file b ns) = bd_base b" for b ns
    by (induction ns arbitrary: b) (auto simp: add_new_file_def on_level_def Let_def split: prod.splits)
  then show ?thesis by (simp add: Builder_apply_def delete_files_levels)
qed

lemma Builder_apply_step:
  assumes ok: "bd_ok b level" and fresh: "fresh_at level (fm_number ` bd_known b level) e"
  shows "bd_ok (Builder_apply e b) level"
    and "bd_known (Builder_apply e b) level = bd_known b level \<union> seeks_reset ` set (new_at e level)"
    and "bd_files (Builder_apply e b) level = level_after level e (bd_files b level)"
proof -
  let ?b = "foldl delete_file b (ve_deleted_files e)"
  have new: "set (new_at e level) = snd ` {n \<in> set (ve_new_files e). fst n = level}" by (simp add: new_at_def)
  have "bd_ok ?b level" "bd_known ?b level = bd_known b level"
    using ok by (simp_all add: bd_ok_def bd_known_def delete_files_levels)
  then have r: "bd_ok (Builder_apply e b) level" "bd_base (Builder_apply e b) = bd_base b"
    "set (lv_added (bd_levels (Builder_apply e b) level)) = set (lv_added (bd_levels b level)) \<union> seeks_reset ` set (new_at e level)"
    "lv_deleted (bd_levels (Builder_apply e b) level) =
       lv_deleted (bd_levels b level) \<union> deleted_at e level - fm_number ` set (new_at e level)"
    using add_files [of ?b level "ve_new_files e"] fresh
    unfolding Builder_apply_def fresh_at_def new_at_def deleted_at_def delete_files_levels by (simp_all only: set_map set_filter simp_thms)
  show "bd_ok (Builder_apply e b) level" by (rule r(1))
  show kn: "bd_known (Builder_apply e b) level = bd_known b level \<union> seeks_reset ` set (new_at e level)"
    unfolding bd_known_def r by blast
  have "fm_number f \<notin> fm_number ` set (new_at e level)" if "f \<in> bd_known b level" for f
    using fresh imageI [OF that, of fm_number] unfolding fresh_at_def by blast
  then show "bd_files (Builder_apply e b) level = level_after level e (bd_files b level)"
    unfolding bd_files_def kn r(4) level_after_def by auto
qed

lemma save_to_files:
  assumes "bd_ok b level" "level < kNumLevels"
  shows "in_order (v_files (save_to b Version_ctor) level)"
    and "set (v_files (save_to b Version_ctor) level) = bd_files b level"
proof -
  have "v_files (save_to b Version_ctor) level =
      filter (\<lambda>f. fm_number f \<notin> lv_deleted (bd_levels b level)) (merge_files (v_files (bd_base b) level) (lv_added (bd_levels b level)))"
    using assms(2) by (simp add: save_to_def merge_level_filter Version_ctor_def)
  moreover have "in_order (merge_files (v_files (bd_base b) level) (lv_added (bd_levels b level)))"
    using assms(1) unfolding bd_ok_def by (intro in_order_merge_files) auto
  ultimately show "in_order (v_files (save_to b Version_ctor) level)"
    "set (v_files (save_to b Version_ctor) level) = bd_files b level"
    by (simp_all add: sorted_wrt_filter set_merge_files bd_files_def bd_known_def)
qed

section \<open>Replaying\<close>

definition apply_edit :: "Version \<Rightarrow> VersionEdit \<Rightarrow> Version" where
  "apply_edit v e = save_to (Builder_apply e (Builder_ctor v)) Version_ctor"

fun fresh_history :: "nat \<Rightarrow> u64 set \<Rightarrow> VersionEdit list \<Rightarrow> bool" where
  "fresh_history level N [] \<longleftrightarrow> True"
| "fresh_history level N (e # es) \<longleftrightarrow>
     fresh_at level N e \<and> fresh_history level (N \<union> fm_number ` set (new_at e level)) es"

lemma fresh_at_mono: "fresh_at level N e \<Longrightarrow> M \<subseteq> N \<Longrightarrow> fresh_at level M e"
  unfolding fresh_at_def by blast

lemma fresh_history_mono: "fresh_history level N es \<Longrightarrow> M \<subseteq> N \<Longrightarrow> fresh_history level M es"
proof (induction es arbitrary: M N)
  case (Cons e es)
  have f: "fresh_at level N e" "fresh_history level (N \<union> fm_number ` set (new_at e level)) es" using Cons.prems(1) by simp_all
  have "fresh_history level (M \<union> fm_number ` set (new_at e level)) es"
    by (rule Cons.IH [OF f(2)]) (use Cons.prems(2) in blast)
  then show ?case using fresh_at_mono [OF f(1) Cons.prems(2)] by simp
qed simp

lemma Builder_ctor_ok:
  "in_order (v_files v level) \<Longrightarrow> bd_ok (Builder_ctor v) level"
  "bd_known (Builder_ctor v) level = set (v_files v level)" "bd_files (Builder_ctor v) level = set (v_files v level)"
  by (simp_all add: bd_ok_def bd_known_def bd_files_def Builder_ctor_def)

lemma apply_edit_step:
  assumes "in_order (v_files v level)" "fresh_at level (fm_number ` set (v_files v level)) e" "level < kNumLevels"
  shows "in_order (v_files (apply_edit v e) level)"
    and "set (v_files (apply_edit v e) level) = level_after level e (set (v_files v level))"
proof -
  note st = Builder_apply_step [OF Builder_ctor_ok(1) [OF assms(1)], unfolded Builder_ctor_ok(2,3), OF assms(2)]
  show "in_order (v_files (apply_edit v e) level)"
    unfolding apply_edit_def by (rule save_to_files [OF st(1) assms(3)])
  show "set (v_files (apply_edit v e) level) = level_after level e (set (v_files v level))"
    unfolding apply_edit_def save_to_files(2) [OF st(1) assms(3)] by (rule st(3))
qed

lemma number_level_after: "fm_number ` level_after level e F \<subseteq> fm_number ` F \<union> fm_number ` set (new_at e level)"
  unfolding level_after_def by auto

lemma replay_levels:
  assumes "bd_ok b level" "fresh_history level (fm_number ` bd_known b level) es"
  shows "bd_ok (fold Builder_apply es b) level \<and>
    bd_files (fold Builder_apply es b) level = foldl (\<lambda>F e. level_after level e F) (bd_files b level) es"
  using assms
proof (induction es arbitrary: b)
  case (Cons e es)
  have f: "fresh_at level (fm_number ` bd_known b level) e" using Cons.prems(2) by simp
  note st = Builder_apply_step [OF Cons.prems(1) f]
  have "fm_number ` bd_known (Builder_apply e b) level = fm_number ` bd_known b level \<union> fm_number ` set (new_at e level)"
    unfolding st(2) image_Un image_image by simp
  then have "fresh_history level (fm_number ` bd_known (Builder_apply e b) level) es" using Cons.prems(2) by simp
  from Cons.IH [OF st(1) this] show ?case unfolding st(3) by simp
qed simp

lemma stepwise_levels:
  assumes "in_order (v_files v level)" "fresh_history level (fm_number ` set (v_files v level)) es" "level < kNumLevels"
  shows "in_order (v_files (foldl apply_edit v es) level) \<and>
    set (v_files (foldl apply_edit v es) level) = foldl (\<lambda>F e. level_after level e F) (set (v_files v level)) es"
  using assms(1,2)
proof (induction es arbitrary: v)
  case (Cons e es)
  have f: "fresh_at level (fm_number ` set (v_files v level)) e" using Cons.prems(2) by simp
  note st = apply_edit_step [OF Cons.prems(1) f assms(3)]
  have "fresh_history level (fm_number ` set (v_files (apply_edit v e) level)) es"
    by (rule fresh_history_mono [of _ "fm_number ` set (v_files v level) \<union> fm_number ` set (new_at e level)"])
      (use Cons.prems(2) number_level_after st(2) in auto)
  from Cons.IH [OF st(1) this] show ?case unfolding st(2) by simp
qed simp

text \<open>
  C7. Replaying a history at once is replaying it step by step.  However many edits there
  are, one builder that is given all of them makes, level for level and in the same order,
  the files that the versions had after each edit was made on its own: the shortcut of
  recovery loses and revives nothing.  A level's numbers are used once, as new file
  numbers are.
\<close>

theorem replay_equals_stepwise:
  assumes "in_order (v_files v level)" "fresh_history level (fm_number ` set (v_files v level)) es" "level < kNumLevels"
  shows "v_files (save_to (fold Builder_apply es (Builder_ctor v)) Version_ctor) level = v_files (foldl apply_edit v es) level"
proof -
  let ?b = "fold Builder_apply es (Builder_ctor v)"
  have b: "bd_ok ?b level" "bd_files ?b level = foldl (\<lambda>F e. level_after level e F) (set (v_files v level)) es"
    using replay_levels [OF Builder_ctor_ok(1) [OF assms(1)], of es, unfolded Builder_ctor_ok(2,3), OF assms(2)] by blast+
  show ?thesis
    by (rule in_order_unique) (use save_to_files [OF b(1) assms(3)] b(2) stepwise_levels [OF assms] in blast)+
qed

definition sample_history :: "VersionEdit list" where
  "sample_history =
     [ve_add_file 1 9 4096 [97, 1, 5, 0, 0, 0, 0, 0, 0] [98, 1, 4, 0, 0, 0, 0, 0, 0] ve_clear,
      ve_add_file 1 10 4096 [97, 1, 7, 0, 0, 0, 0, 0, 0] [97, 1, 6, 0, 0, 0, 0, 0, 0] (ve_remove_file 1 9 ve_clear)]"

theorem replay_equals_stepwise_witness:
  "v_files (save_to (fold Builder_apply sample_history (Builder_ctor Version_ctor)) Version_ctor) 1 =
     v_files (foldl apply_edit Version_ctor sample_history) 1"
proof (rule replay_equals_stepwise)
  show "in_order (v_files Version_ctor 1)" by (simp add: Version_ctor_def)
  show "fresh_history 1 (fm_number ` set (v_files Version_ctor 1)) sample_history"
    by (simp add: sample_history_def Version_ctor_def fresh_at_def new_at_def ve_add_file_def ve_remove_file_def ve_clear_def new_meta_def)
qed (simp add: kNumLevels_def)

end
