(* ===== verification/Version_Set.thy ===== *)
theory Version_Set
  imports Version_Builder Directory Wal_Props
begin

text \<open>
  VersionSet of src/version_set.hpp and src/version_set.cpp: the versions that are alive,
  the counters, and the manifest that makes a change of version durable and from which the
  set is recovered.  A version is known by the number of its allocation.  The mutex is
  released while the manifest is written; one thread at a time is in log\_and\_apply, and
  what it reads of the set it has read before that.
\<close>

record VersionSet =
  vs_dbname :: string
  vs_next_file_number :: u64
  vs_manifest_file_number :: u64
  vs_last_sequence :: u64
  vs_log_number :: u64
  vs_prev_log_number :: u64
  vs_descriptor_log :: "(nat \<times> LogWriter) option"
  vs_manifest_bytes :: u64
  vs_versions :: "nat list"
  vs_version :: "nat \<Rightarrow> Version"
  vs_refs :: "nat \<Rightarrow> nat"
  vs_allocated :: nat
  vs_current :: nat
  vs_compact_pointer :: "nat \<Rightarrow> bytes"

section \<open>Live versions\<close>

definition version_ref :: "nat \<Rightarrow> VersionSet \<Rightarrow> VersionSet" where
  "version_ref i vs = vs\<lparr>vs_refs := (vs_refs vs)(i := vs_refs vs i + 1)\<rparr>"

text \<open>The destructor takes the version out of the list.\<close>

definition version_unref :: "nat \<Rightarrow> VersionSet \<Rightarrow> VersionSet" where
  "version_unref i vs =
     (let vs1 = vs\<lparr>vs_refs := (vs_refs vs)(i := vs_refs vs i - 1)\<rparr> in
      if vs_refs vs i = 1 then vs1\<lparr>vs_versions := removeAll i (vs_versions vs)\<rparr> else vs1)"

definition append_version :: "Version \<Rightarrow> VersionSet \<Rightarrow> VersionSet" where
  "append_version v vs =
     (let i = vs_allocated vs; vs1 = version_unref (vs_current vs) vs in
      version_ref i
        (vs1\<lparr>vs_version := (vs_version vs1)(i := v), vs_refs := (vs_refs vs1)(i := 0), vs_allocated := i + 1,
             vs_current := i, vs_versions := vs_versions vs1 @ [i]\<rparr>))"

text \<open>The first version is appended to an empty list.\<close>

definition VersionSet_ctor :: "string \<Rightarrow> VersionSet" where
  "VersionSet_ctor dbname =
     \<lparr>vs_dbname = dbname, vs_next_file_number = 2, vs_manifest_file_number = 0, vs_last_sequence = 0, vs_log_number = 0,
      vs_prev_log_number = 0, vs_descriptor_log = None, vs_manifest_bytes = 0, vs_versions = [0],
      vs_version = \<lambda>_. Version_ctor, vs_refs = (\<lambda>_. 0)(0 := 1), vs_allocated = 1, vs_current = 0,
      vs_compact_pointer = \<lambda>_. []\<rparr>"

definition current_version :: "VersionSet \<Rightarrow> Version" where
  "current_version vs = vs_version vs (vs_current vs)"

definition add_live_files :: "VersionSet \<Rightarrow> u64 set \<Rightarrow> u64 set" where
  "add_live_files vs live =
     foldl (\<lambda>s i. foldl (\<lambda>s level. foldl (\<lambda>s f. insert (fm_number f) s) s (v_files (vs_version vs i) level)) s [0..<kNumLevels])
       live (vs_versions vs)"

definition new_file_number :: "VersionSet \<Rightarrow> u64 \<times> VersionSet" where
  "new_file_number vs = (vs_next_file_number vs, vs\<lparr>vs_next_file_number := vs_next_file_number vs + 1\<rparr>)"

definition reuse_file_number :: "u64 \<Rightarrow> VersionSet \<Rightarrow> VersionSet" where
  "reuse_file_number number vs =
     (if vs_next_file_number vs = number + 1 then vs\<lparr>vs_next_file_number := number\<rparr> else vs)"

definition mark_file_number_used :: "u64 \<Rightarrow> VersionSet \<Rightarrow> VersionSet" where
  "mark_file_number_used number vs =
     (if vs_next_file_number vs \<le> number then vs\<lparr>vs_next_file_number := number + 1\<rparr> else vs)"

definition needs_compaction :: "VersionSet \<Rightarrow> bool" where
  "needs_compaction vs \<longleftrightarrow> v_compaction_score (current_version vs) \<ge> 1 \<or> v_file_to_compact (current_version vs) \<noteq> None"

section \<open>Reading CURRENT\<close>

definition string_of :: "bytes \<Rightarrow> string" where
  "string_of = map (\<lambda>b. char_of (unat b))"

text \<open>What opening a file for reading gives.\<close>

type_synonym file_view = "string \<Rightarrow> status + SequentialFile"

definition read_current :: "file_view \<Rightarrow> string \<Rightarrow> status + string" where
  "read_current view dbname =
     (case view (current_file_name dbname) of
        Inl s \<Rightarrow> Inl s
      | Inr f \<Rightarrow>
          (case fst (sf_read f 4096) of
             Inl s \<Rightarrow> Inl s
           | Inr contents \<Rightarrow>
               if contents = [] \<or> last contents \<noteq> 0x0A
               then Inl (corruption ''CURRENT does not end in a newline'')
               else let name = string_of (butlast contents) in
                    if CHR ''/'' \<in> set name \<or> CHR 0x5C \<in> set name \<or>
                       (case parse_file_name name of None \<Rightarrow> True | Some (_, type) \<Rightarrow> type \<noteq> kDescriptor)
                    then Inl (corruption ''CURRENT does not name a manifest in this directory'')
                    else Inr name))"

section \<open>Writing the manifest\<close>

definition complete_edit :: "VersionSet \<Rightarrow> VersionEdit \<Rightarrow> VersionEdit" where
  "complete_edit vs edit =
     (let e1 = (if ve_has_log_number edit then edit else set_log_number (vs_log_number vs) edit);
          e2 = (if ve_has_prev_log_number e1 then e1 else set_prev_log_number (vs_prev_log_number vs) e1)
      in set_last_sequence (vs_last_sequence vs) (set_next_file (vs_next_file_number vs) e2))"

definition snapshot_level :: "VersionSet \<Rightarrow> VersionEdit \<Rightarrow> nat \<Rightarrow> VersionEdit" where
  "snapshot_level vs e level =
     foldl (\<lambda>e f. ve_add_file level (fm_number f) (fm_file_size f) (fm_smallest f) (fm_largest f) e)
       (if vs_compact_pointer vs level \<noteq> [] then set_compact_pointer level (vs_compact_pointer vs level) e else e)
       (v_files (current_version vs) level)"

definition snapshot_edit :: "VersionSet \<Rightarrow> VersionEdit" where
  "snapshot_edit vs =
     foldl (snapshot_level vs) (set_comparator_name (bytes_of (cmp_name kInternal)) ve_clear) [0..<kNumLevels]"

definition write_snapshot :: "VersionSet \<Rightarrow> LogWriter \<Rightarrow> status \<times> LogWriter" where
  "write_snapshot vs desc = add_record desc (ve_encode_to (snapshot_edit vs) [])"

text \<open>
  The descriptor log is a file of the directory.  Each call is skipped when an earlier one
  failed, and the directory after it is recorded.
\<close>

type_synonym manifest_run = "status \<times> (nat \<times> LogWriter) option \<times> Directory \<times> Directory list"

definition log_do :: "(LogWriter \<Rightarrow> status \<times> LogWriter) \<Rightarrow> manifest_run \<Rightarrow> manifest_run" where
  "log_do f r =
     (case r of
        (s, Some (i, w), d, past) \<Rightarrow>
          if is_ok s
          then (case f w of (s', w') \<Rightarrow>
                  let d' = d\<lparr>d_files := (d_files d)(i := lw_dest w')\<rparr> in (s', Some (i, w'), d', past @ [d']))
          else r
      | _ \<Rightarrow> r)"

definition open_manifest :: "VersionSet \<Rightarrow> Directory \<Rightarrow> manifest_run" where
  "open_manifest vs d =
     (case vs_descriptor_log vs of
        Some desc \<Rightarrow> (status_ok, Some desc, d, [d])
      | None \<Rightarrow>
          (case dir_open (descriptor_file_name (vs_dbname vs) (vs_manifest_file_number vs)) d of
             (Inl s, d') \<Rightarrow> (s, None, d', [d, d'])
           | (Inr i, d') \<Rightarrow> log_do (write_snapshot vs) (status_ok, Some (i, LogWriter_ctor (d_files d' i)), d', [d, d'])))"

definition log_bytes_written :: "(nat \<times> LogWriter) option \<Rightarrow> nat" where
  "log_bytes_written desc = (case desc of None \<Rightarrow> 0 | Some (_, w) \<Rightarrow> lw_bytes_written w)"

definition write_edit :: "VersionSet \<Rightarrow> VersionEdit \<Rightarrow> Directory \<Rightarrow> manifest_run" where
  "write_edit vs e d =
     (case log_do log_sync (log_do (\<lambda>w. add_record w (ve_encode_to e [])) (open_manifest vs d)) of
        (s, desc, d1, past) \<Rightarrow>
          if is_ok s \<and> vs_descriptor_log vs = None
          then (case set_current_file (vs_dbname vs) (vs_manifest_file_number vs) d1 of
                  (s', d2, past') \<Rightarrow> (s', desc, d2, past @ past'))
          else (s, desc, d1, past))"

text \<open>The half-written manifest goes only when CURRENT can be read and names another one.\<close>

definition drop_manifest :: "file_view \<Rightarrow> VersionSet \<Rightarrow> Directory \<Rightarrow> Directory" where
  "drop_manifest view vs d =
     (let new_manifest = descriptor_file_name (vs_dbname vs) (vs_manifest_file_number vs);
          names_another = (case read_current view (vs_dbname vs) of
                             Inl _ \<Rightarrow> False
                           | Inr named \<Rightarrow> vs_dbname vs @ ''/'' @ named \<noteq> new_manifest)
      in if names_another then snd (remove_file new_manifest d) else d)"

definition log_and_apply ::
    "(Directory \<Rightarrow> file_view) \<Rightarrow> VersionEdit \<Rightarrow> VersionSet \<Rightarrow> Directory \<Rightarrow> status \<times> VersionSet \<times> Directory \<times> Directory list" where
  "log_and_apply view edit vs d =
     (let e = complete_edit vs edit;
          version = finalize (save_to (Builder_apply e (Builder_ctor (current_version vs))) Version_ctor);
          vs1 = vs\<lparr>vs_compact_pointer := apply_pointers e (vs_compact_pointer vs)\<rparr>;
          manifest_before = log_bytes_written (vs_descriptor_log vs)
      in case write_edit vs1 e d of (s, desc, d1, past) \<Rightarrow>
           let vs2 = vs1\<lparr>vs_descriptor_log := desc,
                         vs_manifest_bytes := vs_manifest_bytes vs1 + word_of_nat (log_bytes_written desc - manifest_before)\<rparr>
           in if is_ok s
              then (s, (append_version version vs2)\<lparr>vs_log_number := ve_log_number e, vs_prev_log_number := ve_prev_log_number e\<rparr>,
                    d1, past)
              else if vs_descriptor_log vs = None
              then let d2 = drop_manifest (view d1) vs2 d1 in
                   (s, vs2\<lparr>vs_descriptor_log := None\<rparr>, d2, past @ [d2])
              else (s, vs2, d1, past))"

section \<open>Recovery\<close>

text \<open>What the records read so far say; a number is absent until one has it.\<close>

record Recovered =
  rc_builder :: Builder
  rc_pointers :: "nat \<Rightarrow> bytes"
  rc_log_number :: "u64 option"
  rc_prev_log_number :: "u64 option"
  rc_next_file :: "u64 option"
  rc_last_sequence :: "u64 option"

definition recover_edit :: "VersionEdit \<Rightarrow> Recovered \<Rightarrow> Recovered" where
  "recover_edit e rc =
     \<lparr>rc_builder = Builder_apply e (rc_builder rc),
      rc_pointers = apply_pointers e (rc_pointers rc),
      rc_log_number = (if ve_has_log_number e then Some (ve_log_number e) else rc_log_number rc),
      rc_prev_log_number = (if ve_has_prev_log_number e then Some (ve_prev_log_number e) else rc_prev_log_number rc),
      rc_next_file = (if ve_has_next_file_number e then Some (ve_next_file_number e) else rc_next_file rc),
      rc_last_sequence = (if ve_has_last_sequence e then Some (ve_last_sequence e) else rc_last_sequence rc)\<rparr>"

definition comparator_mismatch :: "VersionEdit \<Rightarrow> status" where
  "comparator_mismatch e =
     Status kInvalidArgument (''database was written with comparator '' @ quoted (string_of (ve_comparator e)) @
       '' but is being opened with '' @ quoted (cmp_name kInternal))"

function recover_loop :: "LogReader \<Rightarrow> Recovered \<Rightarrow> status \<times> Recovered \<times> LogReader" where
  "recover_loop reader rc =
     (case read_record reader of
        (None, r) \<Rightarrow> (status_ok, rc, r)
      | (Some rec, r) \<Rightarrow>
          (case ve_decode_from rec of
             Inl s \<Rightarrow> (s, rc, r)
           | Inr e \<Rightarrow>
               if ve_has_comparator e \<and> ve_comparator e \<noteq> bytes_of (cmp_name kInternal)
               then (comparator_mismatch e, rc, r)
               else recover_loop r (recover_edit e rc)))"
  by auto
termination
  by (relation "measure (\<lambda>(r, _). unread r)") (auto dest: read_record_unread [OF sym])

definition missing_number :: "Recovered \<Rightarrow> status" where
  "missing_number rc =
     (if rc_next_file rc = None then corruption ''manifest holds no next-file-number record''
      else if rc_log_number rc = None then corruption ''manifest holds no log-number record''
      else if rc_last_sequence rc = None then corruption ''manifest holds no last-sequence record''
      else status_ok)"

definition number_or_zero :: "u64 option \<Rightarrow> u64" where
  "number_or_zero n = (case n of None \<Rightarrow> 0 | Some k \<Rightarrow> k)"

definition install_recovered :: "string \<Rightarrow> Recovered \<Rightarrow> VersionSet \<Rightarrow> VersionSet" where
  "install_recovered manifest_base rc vs =
     (let next_file = number_or_zero (rc_next_file rc);
          next_file' = (case parse_file_name manifest_base of
                          None \<Rightarrow> next_file
                        | Some (own_number, _) \<Rightarrow> if next_file \<le> own_number then own_number + 1 else next_file)
      in (append_version (finalize (save_to (rc_builder rc) Version_ctor)) vs)
           \<lparr>vs_next_file_number := next_file' + 1, vs_last_sequence := number_or_zero (rc_last_sequence rc),
            vs_log_number := number_or_zero (rc_log_number rc), vs_prev_log_number := number_or_zero (rc_prev_log_number rc),
            vs_manifest_file_number := next_file'\<rparr>)"

definition recover :: "file_view \<Rightarrow> VersionSet \<Rightarrow> status \<times> VersionSet" where
  "recover view vs =
     (case read_current view (vs_dbname vs) of
        Inl s \<Rightarrow> (s, vs)
      | Inr manifest_base \<Rightarrow>
          (case view (vs_dbname vs @ ''/'' @ manifest_base) of
             Inl _ \<Rightarrow> (corruption (''CURRENT names a manifest that will not open: '' @ manifest_base), vs)
           | Inr f \<Rightarrow>
               (case recover_loop (LogReader_ctor f)
                       \<lparr>rc_builder = Builder_ctor (current_version vs), rc_pointers = vs_compact_pointer vs,
                        rc_log_number = None, rc_prev_log_number = None, rc_next_file = None, rc_last_sequence = None\<rparr>
                of (s, rc, reader) \<Rightarrow>
                  let vs1 = vs\<lparr>vs_compact_pointer := rc_pointers rc\<rparr> in
                  if \<not> is_ok s then (s, vs1)
                  else if log_damaged reader
                  then (corruption (''manifest '' @ manifest_base @ '' stops before its end ('' @ lr_failure_reason reader @
                          '') and not at a torn tail: records or unread bytes follow, so opening would roll the database'' @
                          '' back past them and delete what they name''), vs1)
                  else let vs2 = mark_file_number_used (number_or_zero (rc_log_number rc))
                                   (mark_file_number_used (number_or_zero (rc_prev_log_number rc)) vs1)
                       in if \<not> is_ok (missing_number rc) then (missing_number rc, vs2)
                          else (status_ok, install_recovered manifest_base rc vs2))))"

declare recover_loop.simps [simp del]

end
