(* ===== verification/Spec2Isabelle.thy ===== *)
theory Spec2Isabelle
  imports Wal_Props Memtable Write_Batch Directory Cache_Use Table_Cache_Props Version_Builder_Props Version_Set
begin

text \<open>
  Ambar, a log-structured key-value store: a verification development.

  Plan, in the order the engine's layers depend on each other: encoding,
  internal keys, comparators, write-ahead log, write batch, skip list and
  memtable, block builder and block reader, bloom filter and filter block,
  compression, table format, cache, file names, version edits, versions and
  compaction, iterators, database.
\<close>

end
